(* ===== verification/Prelude.thy ===== *)
theory Prelude
  imports Main "HOL-Library.Sublist" "HOL-Library.Char_ord" "HOL-Library.List_Lexorder" "HOL-Library.Word"
begin

text \<open>
  Shared vocabulary of the development.  Go's \<open>string\<close> and \<open>[]byte\<close> are byte sequences;
  an Isabelle \<^typ>\<open>char\<close> is exactly one byte, so both become \<^typ>\<open>string\<close>.  The theory holds
  the parts of Go's standard library the modelled packages call (\<open>strings\<close>, \<open>path\<close>,
  \<open>encoding/hex\<close>, \<open>strconv\<close>), the fact collections of the development, and the list lemmas
  several components use.
\<close>

named_theorems go_simps \<open>unfolding rules for the modelled standard library\<close>
named_theorems store_laws \<open>what the object store operations promise\<close>
named_theorems codec_simps \<open>round trips of the wire codec\<close>

section \<open>Package strings\<close>

definition has_prefix :: "string \<Rightarrow> string \<Rightarrow> bool" where
  "has_prefix s p \<longleftrightarrow> take (length p) s = p"

definition has_suffix :: "string \<Rightarrow> string \<Rightarrow> bool" where
  "has_suffix s p \<longleftrightarrow> length p \<le> length s \<and> drop (length s - length p) s = p"

definition trim_prefix :: "string \<Rightarrow> string \<Rightarrow> string" where
  "trim_prefix s p = (if has_prefix s p then drop (length p) s else s)"

definition trim_suffix :: "string \<Rightarrow> string \<Rightarrow> string" where
  "trim_suffix s p = (if has_suffix s p then take (length s - length p) s else s)"

fun index_byte :: "char \<Rightarrow> string \<Rightarrow> nat option" where
  "index_byte c [] = None"
| "index_byte c (x # xs) = (if x = c then Some 0 else map_option Suc (index_byte c xs))"

text \<open>\<open>strings.Cut\<close> with a one-byte separator.\<close>

fun cut_byte :: "char \<Rightarrow> string \<Rightarrow> (string \<times> string) option" where
  "cut_byte c [] = None"
| "cut_byte c (x # xs) =
     (if x = c then Some ([], xs)
      else map_option (\<lambda>(a, b). (x # a, b)) (cut_byte c xs))"

text \<open>\<open>strings.Split\<close> with a one-byte separator: never empty, \<open>Split "" = [""]\<close>.\<close>

fun split_byte :: "char \<Rightarrow> string \<Rightarrow> string list" where
  "split_byte c [] = [[]]"
| "split_byte c (x # xs) =
     (if x = c then [] # split_byte c xs
      else (case split_byte c xs of [] \<Rightarrow> [[x]] | y # ys \<Rightarrow> (x # y) # ys))"

fun join_with :: "string \<Rightarrow> string list \<Rightarrow> string" where
  "join_with sep [] = []"
| "join_with sep [x] = x"
| "join_with sep (x # y # ys) = x @ sep @ join_with sep (y # ys)"

lemma has_prefix_iff: "has_prefix s p \<longleftrightarrow> (\<exists>t. s = p @ t)"
  by (auto simp: has_prefix_def) (metis append_take_drop_id)

lemma has_suffix_iff: "has_suffix s p \<longleftrightarrow> (\<exists>t. s = t @ p)"
  by (auto simp: has_suffix_def) (metis append_take_drop_id)

lemma has_suffix_slash: "has_suffix (s @ [c]) [d] \<longleftrightarrow> c = d"
  by (auto simp: has_suffix_iff)

lemma split_byte_not_Nil [simp]: "split_byte c s \<noteq> []"
  by (induction s) (auto split: list.splits)

lemma split_byte_no_sep: "x \<in> set (split_byte c s) \<Longrightarrow> c \<notin> set x"
  by (induction s arbitrary: x) (auto split: if_splits list.splits)

lemma join_split [simp]: "join_with [c] (split_byte c s) = s"
proof (induction s)
  case (Cons x xs)
  then show ?case
    by (cases "split_byte c xs") (auto split: list.splits, (cases "tl (split_byte c xs)"; auto)+)
qed simp


lemma split_join:
  "xs \<noteq> [] \<Longrightarrow> (\<And>x. x \<in> set xs \<Longrightarrow> c \<notin> set x) \<Longrightarrow> split_byte c (join_with [c] xs) = xs"
proof (induction xs rule: induct_list012)
  case (2 x)
  then have "c \<notin> set x" by simp
  then show ?case by (induction x) auto
next
  case (3 x y zs)
  have "c \<notin> set x" using 3 by simp
  then have "split_byte c (x @ c # r) = x # split_byte c r" for r
    by (induction x) auto
  with 3 show ?case by simp
qed simp

lemma split_byte_Cons_head:
  "c \<notin> set x \<Longrightarrow> split_byte c (x @ c # r) = x # split_byte c r"
  by (induction x) auto

lemma split_byte_single: "c \<notin> set x \<Longrightarrow> split_byte c x = [x]"
  by (induction x) auto

lemma split_byte_append: "split_byte c (x @ c # r) = split_byte c x @ split_byte c r"
  by (induction x) (auto split: list.splits)

lemma index_byte_None_iff [simp]: "index_byte c s = None \<longleftrightarrow> c \<notin> set s"
  by (induction s) auto

lemma index_byte_SomeD:
  "index_byte c s = Some i \<Longrightarrow> i < length s \<and> s ! i = c \<and> c \<notin> set (take i s)"
  by (induction s arbitrary: i) (auto split: if_splits)

lemma index_byte_append: "c \<notin> set a \<Longrightarrow> index_byte c (a @ c # b) = Some (length a)"
  by (induction a) auto

lemma cut_byte_SomeD: "cut_byte c s = Some (a, b) \<Longrightarrow> s = a @ c # b \<and> c \<notin> set a"
  by (induction s arbitrary: a) (auto split: if_splits)

lemma cut_byte_append: "c \<notin> set a \<Longrightarrow> cut_byte c (a @ c # b) = Some (a, b)"
  by (induction a) auto

lemma cut_byte_None_iff [simp]: "cut_byte c s = None \<longleftrightarrow> c \<notin> set s"
  by (induction s) auto

text \<open>
  \<open>strings.TrimSpace\<close> removes Unicode white space; \<open>white_space\<close> lists the UTF-8 encodings
  \<open>unicode.IsSpace\<close> accepts.
\<close>

definition white_space :: "string list" where
  "white_space =
     [[CHR 0x09], [CHR 0x0A], [CHR 0x0B], [CHR 0x0C], [CHR 0x0D], [CHR 0x20],
      [CHR 0xC2, CHR 0x85], [CHR 0xC2, CHR 0xA0], [CHR 0xE1, CHR 0x9A, CHR 0x80],
      [CHR 0xE2, CHR 0x80, CHR 0x80], [CHR 0xE2, CHR 0x80, CHR 0x81], [CHR 0xE2, CHR 0x80, CHR 0x82],
      [CHR 0xE2, CHR 0x80, CHR 0x83], [CHR 0xE2, CHR 0x80, CHR 0x84], [CHR 0xE2, CHR 0x80, CHR 0x85],
      [CHR 0xE2, CHR 0x80, CHR 0x86], [CHR 0xE2, CHR 0x80, CHR 0x87], [CHR 0xE2, CHR 0x80, CHR 0x88],
      [CHR 0xE2, CHR 0x80, CHR 0x89], [CHR 0xE2, CHR 0x80, CHR 0x8A], [CHR 0xE2, CHR 0x80, CHR 0xA8],
      [CHR 0xE2, CHR 0x80, CHR 0xA9], [CHR 0xE2, CHR 0x80, CHR 0xAF], [CHR 0xE2, CHR 0x81, CHR 0x9F],
      [CHR 0xE3, CHR 0x80, CHR 0x80]]"

fun drop_words :: "nat \<Rightarrow> string list \<Rightarrow> string \<Rightarrow> string" where
  "drop_words 0 ws s = s"
| "drop_words (Suc n) ws s =
     (case find (has_prefix s) ws of None \<Rightarrow> s | Some w \<Rightarrow> drop_words n ws (drop (length w) s))"

definition trim_left_space :: "string \<Rightarrow> string" where
  "trim_left_space s = drop_words (length s) white_space s"

definition trim_right_space :: "string \<Rightarrow> string" where
  "trim_right_space s = rev (drop_words (length s) (map rev white_space) (rev s))"

definition trim_space :: "string \<Rightarrow> string" where
  "trim_space s = trim_right_space (trim_left_space s)"

lemma drop_words_id: "find (has_prefix s) ws = None \<Longrightarrow> drop_words n ws s = s"
  by (cases n) auto

text \<open>A visible ASCII byte at both ends keeps a string fixed under \<open>TrimSpace\<close>.\<close>

lemma trim_space_id:
  assumes "s \<noteq> []" and "0x20 < (of_char (hd s) :: nat)" "(of_char (hd s) :: nat) < 0x80"
    and "0x20 < (of_char (last s) :: nat)" "(of_char (last s) :: nat) < 0x80"
  shows "trim_space s = s"
proof -
  have hd: "\<forall>w \<in> set white_space. (of_char (hd w) :: nat) \<le> 0x20 \<or> 0x80 \<le> (of_char (hd w) :: nat)"
    and lst: "\<forall>w \<in> set white_space. (of_char (last w) :: nat) \<le> 0x20 \<or> 0x80 \<le> (of_char (last w) :: nat)"
    and ne: "\<forall>w \<in> set white_space. w \<noteq> []"
    by (simp_all add: white_space_def)
  have "find (has_prefix s) white_space = None"
  proof (rule ccontr)
    assume "find (has_prefix s) white_space \<noteq> None"
    then obtain w where w: "w \<in> set white_space" "has_prefix s w"
      by (auto simp: find_None_iff)
    then have "hd w = hd s" using ne by (auto simp: has_prefix_iff)
    with w hd assms show False by force
  qed
  moreover have "find (has_prefix (rev s)) (map rev white_space) = None"
  proof (rule ccontr)
    assume "find (has_prefix (rev s)) (map rev white_space) \<noteq> None"
    then obtain w where w: "w \<in> set white_space" "has_prefix (rev s) (rev w)"
      by (auto simp: find_None_iff)
    then obtain t where "rev s = rev w @ t" by (auto simp: has_prefix_iff)
    then have "s = rev t @ w" by (metis rev_append rev_rev_ident)
    then have "last w = last s" using ne w by auto
    with w lst assms show False by force
  qed
  ultimately show ?thesis
    by (simp add: trim_space_def trim_left_space_def trim_right_space_def drop_words_id)
qed

section \<open>Package path\<close>

text \<open>
  \<open>path.Clean\<close> on a slash-split path: empty and dot segments vanish, a dot-dot removes the
  segment before it and survives only at the front of an unrooted path.
\<close>

fun clean_step :: "bool \<Rightarrow> string list \<Rightarrow> string \<Rightarrow> string list" where
  "clean_step rooted acc seg =
     (if seg = [] \<or> seg = ''.'' then acc
      else if seg = ''..'' then
        (case acc of
           [] \<Rightarrow> if rooted then [] else [seg]
         | x # xs \<Rightarrow> if x = ''..'' then seg # acc else xs)
      else seg # acc)"

definition clean_segs :: "bool \<Rightarrow> string list \<Rightarrow> string list" where
  "clean_segs rooted segs = rev (foldl (clean_step rooted) [] segs)"

definition path_clean :: "string \<Rightarrow> string" where
  "path_clean s =
     (let rooted = has_prefix s ''/''; segs = clean_segs rooted (split_byte CHR ''/'' s)
      in if rooted then ''/'' @ join_with ''/'' segs
         else if segs = [] then ''.'' else join_with ''/'' segs)"

definition path_join :: "string list \<Rightarrow> string" where
  "path_join elems =
     (let ne = filter (\<lambda>e. e \<noteq> []) elems
      in if ne = [] then [] else path_clean (join_with ''/'' ne))"

definition path_base :: "string \<Rightarrow> string" where
  "path_base s =
     (if s = [] then ''.''
      else let t = rev (dropWhile (\<lambda>c. c = CHR ''/'') (rev s))
           in if t = [] then ''/'' else last (split_byte CHR ''/'' t))"

definition clean_seg :: "string \<Rightarrow> bool" where
  "clean_seg s \<longleftrightarrow> s \<noteq> [] \<and> s \<noteq> ''.'' \<and> s \<noteq> ''..'' \<and> CHR ''/'' \<notin> set s"


lemma foldl_clean_step:
  "(\<And>x. x \<in> set segs \<Longrightarrow> x \<noteq> ''..'') \<Longrightarrow>
   foldl (clean_step r) acc segs = rev (filter (\<lambda>x. x \<noteq> [] \<and> x \<noteq> ''.'') segs) @ acc"
  by (induction segs arbitrary: acc) auto

lemma clean_segs_no_dotdot:
  "(\<And>x. x \<in> set segs \<Longrightarrow> x \<noteq> ''..'') \<Longrightarrow>
   clean_segs r segs = filter (\<lambda>x. x \<noteq> [] \<and> x \<noteq> ''.'') segs"
  by (simp add: clean_segs_def foldl_clean_step)

lemma clean_segs_id: "(\<And>x. x \<in> set segs \<Longrightarrow> clean_seg x) \<Longrightarrow> clean_segs r segs = segs"
  by (subst clean_segs_no_dotdot) (auto simp: clean_seg_def intro: filter_True)

lemma set_clean_segs: "set (clean_segs r segs) \<subseteq> {x \<in> set segs. x \<noteq> [] \<and> x \<noteq> ''.''}"
proof -
  have "set (foldl (clean_step r) acc segs) \<subseteq> set acc \<union> {x \<in> set segs. x \<noteq> [] \<and> x \<noteq> ''.''}" for acc
  proof (induction segs arbitrary: acc)
    case (Cons s ss)
    have "set (clean_step r acc s) \<subseteq> set acc \<union> {x \<in> {s}. x \<noteq> [] \<and> x \<noteq> ''.''}"
      by (auto split: list.splits if_splits)
    with Cons.IH [of "clean_step r acc s"] show ?case
      unfolding foldl_Cons by (fastforce simp del: clean_step.simps)
  qed simp
  from this [of "[]"] show ?thesis by (simp add: clean_segs_def)
qed

definition slash_segs :: "string \<Rightarrow> string list" where
  "slash_segs = split_byte CHR ''/''"

lemma slash_segs_join:
  "xs \<noteq> [] \<Longrightarrow> (\<And>x. x \<in> set xs \<Longrightarrow> CHR ''/'' \<notin> set x) \<Longrightarrow> slash_segs (join_with ''/'' xs) = xs"
  by (simp add: slash_segs_def split_join)

lemma slash_segs_append: "slash_segs (a @ ''/'' @ b) = slash_segs a @ slash_segs b"
  by (simp add: slash_segs_def split_byte_append)

lemma slash_segs_Cons: "slash_segs (a @ CHR ''/'' # b) = slash_segs a @ slash_segs b"
  by (simp add: slash_segs_def split_byte_append)

lemma slash_segs_not_Nil [simp]: "slash_segs a \<noteq> []"
  by (simp add: slash_segs_def)

lemma join_slash_segs [simp]: "join_with ''/'' (slash_segs a) = a"
  by (simp add: slash_segs_def)

lemma slash_segs_inject: "slash_segs a = slash_segs b \<longleftrightarrow> a = b"
  by (auto dest: arg_cong [where f = "join_with ''/''"])

lemma slash_segs_single: "CHR ''/'' \<notin> set x \<Longrightarrow> slash_segs x = [x]"
  by (simp add: slash_segs_def split_byte_single)

lemma slash_segs_no_slash: "x \<in> set (slash_segs a) \<Longrightarrow> CHR ''/'' \<notin> set x"
  by (simp add: slash_segs_def split_byte_no_sep)

lemma join_with_append:
  "xs \<noteq> [] \<Longrightarrow> ys \<noteq> [] \<Longrightarrow> join_with sep (xs @ ys) = join_with sep xs @ sep @ join_with sep ys"
  by (induction xs rule: induct_list012) (auto simp: neq_Nil_conv)

lemma slash_segs_join_concat:
  "es \<noteq> [] \<Longrightarrow> slash_segs (join_with ''/'' es) = concat (map slash_segs es)"
  by (induction es rule: induct_list012) (simp_all add: slash_segs_Cons)

text \<open>A path is clean when every segment is; \<open>path.Join\<close> of clean paths only inserts slashes.\<close>

definition clean_path :: "string \<Rightarrow> bool" where
  "clean_path p \<longleftrightarrow> (\<forall>x \<in> set (slash_segs p). clean_seg x)"

lemma clean_path_not_rooted: "clean_path p \<Longrightarrow> \<not> has_prefix p ''/''"
proof
  assume "clean_path p" "has_prefix p ''/''"
  then obtain q where "p = [] @ CHR ''/'' # q" by (auto simp: has_prefix_iff)
  then have "[] \<in> set (slash_segs p)" by (simp only: slash_segs_Cons) (simp add: slash_segs_def)
  with \<open>clean_path p\<close> show False by (auto simp: clean_path_def clean_seg_def)
qed

lemma path_clean_id: "clean_path p \<Longrightarrow> path_clean p = p"
proof -
  assume c: "clean_path p"
  then have "clean_segs False (slash_segs p) = slash_segs p"
    by (intro clean_segs_id) (simp add: clean_path_def)
  with clean_path_not_rooted [OF c] show ?thesis
    by (simp only: path_clean_def Let_def slash_segs_def [symmetric] if_False) simp
qed

lemma clean_seg_not_Nil [simp]: "\<not> clean_seg []"
  by (simp add: clean_seg_def)

lemma clean_path_not_Nil: "clean_path p \<Longrightarrow> p \<noteq> []"
  by (rule notI) (simp add: clean_path_def slash_segs_def)

lemma clean_path_append: "clean_path (a @ ''/'' @ b) \<longleftrightarrow> clean_path a \<and> clean_path b"
  by (simp add: clean_path_def slash_segs_Cons ball_Un)

lemma clean_path_join: "es \<noteq> [] \<Longrightarrow> clean_path (join_with ''/'' es) \<longleftrightarrow> (\<forall>e \<in> set es. clean_path e)"
  by (auto simp: clean_path_def slash_segs_join_concat)

lemma path_join_clean:
  assumes "es \<noteq> []" and "\<And>e. e \<in> set es \<Longrightarrow> clean_path e"
  shows "path_join es = join_with ''/'' es"
proof -
  have "filter (\<lambda>e. e \<noteq> []) es = es"
    using assms clean_path_not_Nil by (auto intro: filter_True)
  then show ?thesis
    using assms by (simp add: path_join_def clean_path_join path_clean_id)
qed

lemma clean_path_seg: "clean_seg x \<Longrightarrow> clean_path x"
  by (simp add: clean_path_def clean_seg_def slash_segs_single)

lemma path_base_append:
  assumes "clean_seg x"
  shows "path_base (p @ ''/'' @ x) = x" "path_base x = x"
proof -
  have l: "x \<noteq> []" "last x \<noteq> CHR ''/''" "CHR ''/'' \<notin> set x"
    using assms last_in_set by (force simp: clean_seg_def)+
  then have "dropWhile (\<lambda>c. c = CHR ''/'') (rev x @ y) = rev x @ y" for y
    by (cases x rule: rev_cases) auto
  from this [of "rev (p @ ''/'')"] this [of "[]"]
  show "path_base (p @ ''/'' @ x) = x" "path_base x = x"
    using l slash_segs_append [of p x]
    by (auto simp: path_base_def slash_segs_def split_byte_single split_byte_append)
qed

section \<open>Package encoding/hex\<close>

definition is_hex_char :: "char \<Rightarrow> bool" where
  "is_hex_char c \<longleftrightarrow> c \<in> set ''0123456789abcdefABCDEF''"

definition hex_digit :: "nat \<Rightarrow> char" where
  "hex_digit n = ''0123456789abcdef'' ! n"

text \<open>\<open>hex.DecodeString\<close> fails on an odd length or a byte that is no hex digit.\<close>

definition hex_decodable :: "string \<Rightarrow> bool" where
  "hex_decodable s \<longleftrightarrow> even (length s) \<and> list_all is_hex_char s"

definition hex_encode :: "8 word list \<Rightarrow> string" where
  "hex_encode bs = concat (map (\<lambda>b. [hex_digit (unat b div 16), hex_digit (unat b mod 16)]) bs)"

lemma is_hex_digit: "n < 16 \<Longrightarrow> is_hex_char (hex_digit n)"
proof -
  assume "n < 16"
  then have "''0123456789abcdef'' ! n \<in> set ''0123456789abcdef''" by (intro nth_mem) simp
  then show ?thesis by (auto simp: is_hex_char_def hex_digit_def)
qed

lemma length_hex_encode [simp]: "length (hex_encode bs) = 2 * length bs"
  by (induction bs) (auto simp: hex_encode_def)

lemma hex_encode_hex: "list_all is_hex_char (hex_encode bs)"
proof (induction bs)
  case (Cons b bs)
  have "unat b < 256" using unsigned_less [of b, where ?'a = nat] by simp
  then have "unat b div 16 < 16" "unat b mod 16 < 16" by auto
  then show ?case using Cons by (auto simp: hex_encode_def is_hex_digit)
qed (simp add: hex_encode_def)

lemma is_hex_charD:
  assumes "is_hex_char c"
  shows "c \<noteq> CHR ''/''" "c \<noteq> CHR ''.''" "c \<noteq> CHR '':''"
    "0x20 < (of_char c :: nat)" "(of_char c :: nat) < 0x80"
  using assms by (auto simp: is_hex_char_def)

lemma rotate_cover:
  assumes "idx < (n :: nat)"
  shows "\<exists>i < n. (start + i) mod n = idx"
proof (intro exI conjI)
  let ?s = "start mod n" and ?i = "(idx + (n - start mod n)) mod n"
  show "?i < n" using assms by simp
  have "(start + ?i) mod n = (?s + (idx + (n - ?s))) mod n" by (simp add: mod_add_left_eq mod_add_right_eq)
  also have "?s + (idx + (n - ?s)) = idx + n" using mod_less_divisor [of n start] assms by linarith
  also have "\<dots> mod n = idx" using assms by simp
  finally show "(start + ?i) mod n = idx" .
qed

lemma set_last_butlast: "q \<noteq> [] \<Longrightarrow> set q = insert (last q) (set (butlast q))"
  by (cases q rule: rev_cases) auto

end
