(* ===== verification/ObjectStore.thy ===== *)
theory ObjectStore
  imports Prelude "HOL-Library.AList"
begin

text \<open>
  The object store below the registry: the Go interface \<open>storage.ObjectStore\<close> as a record of
  operations, its contract as the locale \<open>object_store_spec\<close>, and the filesystem backend of
  \<open>filesystem.go\<close>, whose interpretation of the locale is the proof that the backend keeps
  the contract.  A disk is a set of regular files and directories addressed by their path
  segments below the store's root; \<open>fails\<close> is an arbitrary pattern of operating system
  failures, so every error return of the code is reachable in the model.
\<close>

section \<open>Errors and the interface\<close>

datatype digest_err = MissingAlgorithm | UnsupportedAlgorithm string | InvalidLength nat | InvalidHex

datatype serr = ErrNotFound | ErrDigestMismatch | ErrDigest digest_err | ErrIO | ErrPermission | ErrTooLarge | ErrNotManifest | ErrDepth

text \<open>
  \<open>oBound\<close> is no Go operation: it bounds the length of the listed directory prefixes and is the
  recursion bound of the catalog walk.
\<close>

record 's object_store =
  oGet :: "'s \<Rightarrow> string \<Rightarrow> serr + string"
  oPut :: "'s \<Rightarrow> string \<Rightarrow> string \<Rightarrow> serr option \<times> 's"
  oStat :: "'s \<Rightarrow> string \<Rightarrow> serr + nat"
  oDelete :: "'s \<Rightarrow> string \<Rightarrow> serr option \<times> 's"
  oList :: "'s \<Rightarrow> string \<Rightarrow> string \<Rightarrow> serr + string list"
  oBound :: "'s \<Rightarrow> nat"

section \<open>A disk\<close>

type_synonym path = "string list"

datatype fsop = OpOpen | OpStat | OpSync | OpMkdir | OpTemp | OpCopy | OpClose | OpRename | OpRemove | OpReadDir

record disk =
  files :: "(path \<times> string) list"
  dirs :: "path list"
  fails :: "fsop \<Rightarrow> path \<Rightarrow> bool"

definition is_dir :: "disk \<Rightarrow> path \<Rightarrow> bool" where
  "is_dir d p \<longleftrightarrow> p = [] \<or> p \<in> set (dirs d)"

text \<open>A proper prefix of the path is a regular file: the kernel answers ENOTDIR.\<close>

definition blocked :: "disk \<Rightarrow> path \<Rightarrow> bool" where
  "blocked d p \<longleftrightarrow> list_ex (\<lambda>n. map_of (files d) (take n p) \<noteq> None) [0..<length p]"

definition os_read :: "disk \<Rightarrow> path \<Rightarrow> serr + string" where
  "os_read d p =
     (if blocked d p \<or> fails d OpOpen p then Inl ErrIO
      else case map_of (files d) p of
        Some c \<Rightarrow> Inr c
      | None \<Rightarrow> if is_dir d p then Inl ErrIO else Inl ErrNotFound)"

text \<open>The size reported for a directory depends on the file system; 4096 is the usual answer.\<close>

definition os_stat :: "disk \<Rightarrow> path \<Rightarrow> serr + nat" where
  "os_stat d p =
     (if blocked d p \<or> fails d OpStat p then Inl ErrIO
      else case map_of (files d) p of
        Some c \<Rightarrow> Inr (length c)
      | None \<Rightarrow> if is_dir d p then Inr 4096 else Inl ErrNotFound)"

text \<open>\<open>os.MkdirAll\<close>: the missing ancestors are created from the root down.\<close>

fun mkdirs :: "disk \<Rightarrow> path list \<Rightarrow> serr option \<times> disk" where
  "mkdirs d [] = (None, d)"
| "mkdirs d (p # ps) =
     (if is_dir d p then mkdirs d ps
      else if map_of (files d) p \<noteq> None \<or> fails d OpMkdir p then (Some ErrIO, d)
      else mkdirs (d\<lparr>dirs := p # dirs d\<rparr>) ps)"

definition mkdir_all :: "disk \<Rightarrow> path \<Rightarrow> serr option \<times> disk" where
  "mkdir_all d p = mkdirs d (map (\<lambda>n. take n p) [0..<Suc (length p)])"

text \<open>\<open>os.Rename\<close> of a fresh regular file onto \<open>p\<close>, whose parent exists.\<close>

definition os_rename_onto :: "disk \<Rightarrow> path \<Rightarrow> string \<Rightarrow> serr option \<times> disk" where
  "os_rename_onto d p c =
     (if is_dir d p \<or> blocked d p \<or> \<not> is_dir d (butlast p) \<or> fails d OpRename p then (Some ErrIO, d)
      else (None, d\<lparr>files := AList.update p c (files d)\<rparr>))"

text \<open>\<open>os.Remove\<close> unlinks a file or an empty directory.\<close>

definition os_remove :: "disk \<Rightarrow> path \<Rightarrow> serr option \<times> disk" where
  "os_remove d p =
     (if blocked d p \<or> fails d OpRemove p then (Some ErrIO, d)
      else if map_of (files d) p \<noteq> None then (None, d\<lparr>files := AList.delete p (files d)\<rparr>)
      else if is_dir d p then
        if p = [] \<or> list_ex (\<lambda>q. strict_prefix p q) (map fst (files d) @ dirs d) then (Some ErrIO, d)
        else (None, d\<lparr>dirs := removeAll p (dirs d)\<rparr>)
      else (Some ErrNotFound, d))"

section \<open>The filesystem store\<close>

definition keyPath :: "string \<Rightarrow> path" where
  "keyPath key = clean_segs False (slash_segs key)"

definition fsGet :: "disk \<Rightarrow> string \<Rightarrow> serr + string" where
  "fsGet d key = os_read d (keyPath key)"

definition fsPut :: "disk \<Rightarrow> string \<Rightarrow> string \<Rightarrow> serr option \<times> disk" where
  "fsPut d key c =
     (let dst = keyPath key in
      case mkdir_all d (butlast dst) of
        (Some e, d') \<Rightarrow> (Some e, d')
      | (None, d') \<Rightarrow>
          if fails d' OpTemp dst \<or> fails d' OpCopy dst \<or> fails d' OpClose dst then (Some ErrIO, d')
          else os_rename_onto d' dst c)"

definition fsStat :: "disk \<Rightarrow> string \<Rightarrow> serr + nat" where
  "fsStat d key = os_stat d (keyPath key)"

definition fsDelete :: "disk \<Rightarrow> string \<Rightarrow> serr option \<times> disk" where
  "fsDelete d key =
     (case os_remove d (keyPath key) of
        (Some ErrNotFound, d') \<Rightarrow> (None, d')
      | r \<Rightarrow> r)"

definition joinKey :: "string \<Rightarrow> string \<Rightarrow> string" where
  "joinKey pre name = trim_suffix pre ''/'' @ ''/'' @ name"

text \<open>\<open>os.ReadDir\<close>: the entries of one directory, each with its kind.\<close>

definition children :: "path \<Rightarrow> path list \<Rightarrow> string list" where
  "children p qs = map last (filter (\<lambda>q. q \<noteq> [] \<and> butlast q = p) qs)"

definition os_read_dir :: "disk \<Rightarrow> path \<Rightarrow> serr + (string \<times> bool) list" where
  "os_read_dir d p =
     (if blocked d p \<or> fails d OpReadDir p \<or> map_of (files d) p \<noteq> None then Inl ErrIO
      else if \<not> is_dir d p then Inl ErrNotFound
      else Inr (map (\<lambda>x. (x, False)) (children p (map fst (files d))) @
                map (\<lambda>x. (x, True)) (children p (dirs d))))"

definition fsList :: "disk \<Rightarrow> string \<Rightarrow> string \<Rightarrow> serr + string list" where
  "fsList d pre delimiter =
     (if delimiter = ''/'' then
        case os_read_dir d (keyPath (trim_suffix pre ''/'')) of
          Inl ErrNotFound \<Rightarrow> Inr []
        | Inl e \<Rightarrow> Inl e
        | Inr es \<Rightarrow> Inr (sort (map (\<lambda>(x, isdir). joinKey pre x @ (if isdir then ''/'' else [])) es))
      else
        let base = keyPath pre in
        if blocked d base \<or> list_ex (\<lambda>p. prefix base p \<and> fails d OpReadDir p) ([] # dirs d) then Inl ErrIO
        else Inr (sort (map (join_with ''/'') (filter (prefix base) (map fst (files d))))))"

definition fsBound :: "disk \<Rightarrow> nat" where
  "fsBound d = foldr max (map (\<lambda>p. Suc (length (join_with ''/'' p))) (dirs d)) 0"

definition fsObjectStore :: "disk object_store" where
  "fsObjectStore = \<lparr>oGet = fsGet, oPut = fsPut, oStat = fsStat, oDelete = fsDelete,
                    oList = fsList, oBound = fsBound\<rparr>"

section \<open>The contract\<close>

text \<open>
  What the registry layer relies on.  \<open>view\<close> is the key space of a store state.  A failed
  operation leaves the key space unchanged, a missing key is reported as \<open>ErrNotFound\<close>, and a
  listing at a directory returns the objects directly below it exactly, and at least every
  directory that holds one.  \<open>plain\<close> marks the keys for which \<open>Stat\<close> is exact: the filesystem
  also answers it for a directory.
\<close>

locale object_store_spec =
  fixes obj :: "'s object_store"
    and view :: "'s \<Rightarrow> string \<Rightarrow> string option"
    and inv :: "'s \<Rightarrow> bool"
    and plain :: "'s \<Rightarrow> string \<Rightarrow> bool"
  assumes dom_clean: "inv s \<Longrightarrow> view s k = Some c \<Longrightarrow> clean_path k"
    and get_ok: "inv s \<Longrightarrow> clean_path k \<Longrightarrow> oGet obj s k = Inr c \<Longrightarrow> view s k = Some c"
    and get_nf: "inv s \<Longrightarrow> oGet obj s k = Inl ErrNotFound \<Longrightarrow> view s k = None"
    and put_inv: "inv s \<Longrightarrow> clean_path k \<Longrightarrow> oPut obj s k c = (r, s') \<Longrightarrow> inv s'"
    and put_ok: "inv s \<Longrightarrow> clean_path k \<Longrightarrow> oPut obj s k c = (None, s') \<Longrightarrow> view s' = (view s)(k \<mapsto> c)"
    and put_err: "inv s \<Longrightarrow> clean_path k \<Longrightarrow> oPut obj s k c = (Some er, s') \<Longrightarrow> view s' = view s"
    and put_plain: "inv s \<Longrightarrow> clean_path k \<Longrightarrow> oPut obj s k c = (r, s') \<Longrightarrow> clean_path j \<Longrightarrow>
          plain s j \<Longrightarrow> \<not> has_prefix k (j @ ''/'') \<Longrightarrow> plain s' j"
    and stat_ok: "inv s \<Longrightarrow> clean_path k \<Longrightarrow> plain s k \<Longrightarrow> oStat obj s k = Inr n \<Longrightarrow>
          \<exists>c. view s k = Some c \<and> n = length c"
    and stat_nf: "inv s \<Longrightarrow> clean_path k \<Longrightarrow> oStat obj s k = Inl ErrNotFound \<Longrightarrow> view s k = None"
    and del_inv: "inv s \<Longrightarrow> clean_path k \<Longrightarrow> oDelete obj s k = (r, s') \<Longrightarrow> inv s'"
    and del_ok: "inv s \<Longrightarrow> clean_path k \<Longrightarrow> oDelete obj s k = (None, s') \<Longrightarrow> view s' = (view s)(k := None)"
    and del_err: "inv s \<Longrightarrow> clean_path k \<Longrightarrow> oDelete obj s k = (Some er, s') \<Longrightarrow> view s' = view s"
    and del_plain: "inv s \<Longrightarrow> clean_path k \<Longrightarrow> oDelete obj s k = (r, s') \<Longrightarrow> plain s j \<Longrightarrow> plain s' j"
    and list_sound: "inv s \<Longrightarrow> clean_path p \<Longrightarrow> oList obj s (p @ ''/'') ''/'' = Inr es \<Longrightarrow> e \<in> set es \<Longrightarrow>
          \<exists>x. clean_seg x \<and> (e = p @ ''/'' @ x \<and> view s e \<noteq> None \<or> e = p @ ''/'' @ x @ ''/'')"
    and list_file: "inv s \<Longrightarrow> clean_path p \<Longrightarrow> oList obj s (p @ ''/'') ''/'' = Inr es \<Longrightarrow> clean_seg x \<Longrightarrow>
          view s (p @ ''/'' @ x) \<noteq> None \<Longrightarrow> p @ ''/'' @ x \<in> set es"
    and list_sub: "inv s \<Longrightarrow> clean_path p \<Longrightarrow> oList obj s (p @ ''/'') ''/'' = Inr es \<Longrightarrow> clean_seg x \<Longrightarrow>
          view s (p @ ''/'' @ x @ ''/'' @ y) \<noteq> None \<Longrightarrow> p @ ''/'' @ x @ ''/'' \<in> set es"
    and list_sorted: "inv s \<Longrightarrow> clean_path p \<Longrightarrow> oList obj s (p @ ''/'') dl = Inr es \<Longrightarrow> sorted es \<and> distinct es"
    and list_all: "inv s \<Longrightarrow> clean_path p \<Longrightarrow> view s p = None \<Longrightarrow> oList obj s (p @ ''/'') [] = Inr es \<Longrightarrow>
          set es = {k. view s k \<noteq> None \<and> has_prefix k (p @ ''/'')}"
    and bound: "inv s \<Longrightarrow> clean_path p \<Longrightarrow> oList obj s (p @ ''/'') ''/'' = Inr es \<Longrightarrow> e \<in> set es \<Longrightarrow>
          has_suffix e ''/'' \<Longrightarrow> length e \<le> oBound obj s"
    and finite_keys: "inv s \<Longrightarrow> finite {k. view s k \<noteq> None}"
    and list_no_depth: "oList obj s q dl \<noteq> Inl ErrDepth"

section \<open>The filesystem store keeps the contract\<close>

definition fsAbs :: "disk \<Rightarrow> string \<Rightarrow> string option" where
  "fsAbs d k = (if clean_path k then map_of (files d) (slash_segs k) else None)"

definition fsPlain :: "disk \<Rightarrow> string \<Rightarrow> bool" where
  "fsPlain d k \<longleftrightarrow> \<not> is_dir d (slash_segs k)"

definition tree_ok :: "disk \<Rightarrow> bool" where
  "tree_ok d \<longleftrightarrow>
     (\<forall>p \<in> set (dirs d) \<union> fst ` set (files d).
        p \<noteq> [] \<and> list_all clean_seg p \<and> is_dir d (butlast p))"

definition fsInv :: "disk \<Rightarrow> bool" where
  "fsInv d \<longleftrightarrow> tree_ok d \<and> distinct (map fst (files d)) \<and> distinct (dirs d) \<and>
     set (dirs d) \<inter> fst ` set (files d) = {}"

lemma clean_path_segs: "clean_path k \<Longrightarrow> list_all clean_seg (slash_segs k)"
  by (simp add: clean_path_def list_all_iff)

lemma keyPath_clean: "clean_path k \<Longrightarrow> keyPath k = slash_segs k"
  by (simp add: keyPath_def clean_path_def clean_segs_id)

lemma slash_segs_trailing: "slash_segs (p @ ''/'') = slash_segs p @ [[]]"
  using slash_segs_Cons [of p "[]"] by (simp add: slash_segs_def)

lemma keyPath_dir: "clean_path p \<Longrightarrow> keyPath (p @ ''/'') = slash_segs p"
proof -
  assume c: "clean_path p"
  have "clean_segs False (slash_segs p @ [[]]) = clean_segs False (slash_segs p)"
    by (simp add: clean_segs_def)
  with c show ?thesis
    by (simp add: keyPath_def slash_segs_trailing clean_path_def clean_segs_id del: append_Cons)
qed

lemma trim_trailing: "trim_suffix (p @ ''/'') ''/'' = p"
  by (simp add: trim_suffix_def has_suffix_slash)

lemma joinKey_dir: "joinKey (p @ ''/'') x = p @ ''/'' @ x"
  by (simp add: joinKey_def trim_trailing)

lemma clean_join_segs: "list_all clean_seg p \<Longrightarrow> p \<noteq> [] \<Longrightarrow> slash_segs (join_with ''/'' p) = p"
  by (rule slash_segs_join) (auto simp: list_all_iff clean_seg_def)

lemma clean_path_join_segs: "list_all clean_seg p \<Longrightarrow> p \<noteq> [] \<Longrightarrow> clean_path (join_with ''/'' p)"
  by (simp add: clean_path_def clean_join_segs list_all_iff)

fun chain :: "path set \<Rightarrow> path list \<Rightarrow> bool" where
  "chain D [] \<longleftrightarrow> True"
| "chain D (p # ps) \<longleftrightarrow> butlast p \<in> D \<and> chain (insert p D) ps"

lemma chain_mono: "chain D ps \<Longrightarrow> D \<subseteq> E \<Longrightarrow> chain E ps"
  by (induction ps arbitrary: D E) (auto, meson insert_mono)

lemma chain_takes:
  "m \<le> Suc (length p) \<Longrightarrow> i \<le> m \<Longrightarrow> (i = 0 \<longrightarrow> [] \<in> D) \<Longrightarrow> (0 < i \<longrightarrow> take (i - 1) p \<in> D) \<Longrightarrow>
   chain D (map (\<lambda>n. take n p) [i..<m])"
proof (induction "m - i" arbitrary: i D)
  case (Suc k)
  then have "i < m" by simp
  then have eq: "[i..<m] = i # [Suc i..<m]" by (simp add: upt_conv_Cons)
  have "butlast (take i p) = take (i - 1) p" using \<open>i < m\<close> Suc.prems by (simp add: butlast_take)
  moreover have "chain (insert (take i p) D) (map (\<lambda>n. take n p) [Suc i..<m])"
    using Suc.hyps(2) \<open>i < m\<close> Suc.prems by (intro Suc.hyps(1)) auto
  moreover have "take (i - 1) p \<in> D" using Suc.prems by (cases i) auto
  ultimately show ?case unfolding eq by simp
qed simp

lemma is_dir_add: "is_dir (d\<lparr>dirs := p # ds\<rparr>) q \<longleftrightarrow> q = p \<or> is_dir (d\<lparr>dirs := ds\<rparr>) q"
  by (auto simp: is_dir_def)

lemma fsInv_add_dir:
  "fsInv d \<Longrightarrow> \<not> is_dir d p \<Longrightarrow> map_of (files d) p = None \<Longrightarrow> list_all clean_seg p \<Longrightarrow>
   is_dir d (butlast p) \<Longrightarrow> fsInv (d\<lparr>dirs := p # dirs d\<rparr>)"
  by (auto simp: fsInv_def tree_ok_def is_dir_def map_of_eq_None_iff)

lemma mkdirs_frame:
  "mkdirs d ps = (r, d') \<Longrightarrow>
   files d' = files d \<and> fails d' = fails d \<and> set (dirs d) \<subseteq> set (dirs d') \<and>
   set (dirs d') \<subseteq> set (dirs d) \<union> set ps \<and> (r = None \<longrightarrow> (\<forall>p \<in> set ps. is_dir d' p))"
proof (induction d ps rule: mkdirs.induct)
  case (2 d p ps)
  show ?case
  proof (cases "is_dir d p")
    case True
    with 2 show ?thesis by (auto simp: is_dir_def)
  next
    case False
    note IH = 2(2) [OF False]
    from False 2 show ?thesis by (auto simp: is_dir_def split: if_splits dest!: IH [rotated 1])
  qed
qed simp

lemma mkdirs_inv:
  "mkdirs d ps = (r, d') \<Longrightarrow> fsInv d \<Longrightarrow> chain {p. is_dir d p} ps \<Longrightarrow>
   (\<And>p. p \<in> set ps \<Longrightarrow> list_all clean_seg p) \<Longrightarrow> fsInv d'"
proof (induction d ps rule: mkdirs.induct)
  case (2 d p ps)
  have sub: "insert p {q. is_dir d q} = {q. is_dir (d\<lparr>dirs := p # dirs d\<rparr>) q}"
    by (auto simp: is_dir_def)
  show ?case
  proof (cases "is_dir d p")
    case True
    then have "insert p {q. is_dir d q} = {q. is_dir d q}" by auto
    with True 2 show ?thesis by auto
  next
    case False
    show ?thesis
    proof (cases "map_of (files d) p \<noteq> None \<or> fails d OpMkdir p")
      case True
      with False 2 show ?thesis by auto
    next
      case nb: False
      have "fsInv (d\<lparr>dirs := p # dirs d\<rparr>)"
        using 2 False nb by (intro fsInv_add_dir) auto
      moreover have "chain {q. is_dir (d\<lparr>dirs := p # dirs d\<rparr>) q} ps"
        using "2.prems"(3) unfolding chain.simps sub [symmetric] by blast
      ultimately show ?thesis
        using 2(2) [OF False nb] "2.prems"(1,4) False nb by simp
    qed
  qed
qed simp

lemma mkdir_all_inv:
  assumes "mkdir_all d p = (r, d')" "fsInv d" "list_all clean_seg p"
  shows "fsInv d'"
proof -
  have "chain {q. is_dir d q} (map (\<lambda>n. take n p) [0..<Suc (length p)])"
    by (rule chain_takes) (auto simp: is_dir_def)
  moreover have "list_all clean_seg q" if "q \<in> set (map (\<lambda>n. take n p) [0..<Suc (length p)])" for q
    using that assms(3) by (auto simp: list_all_iff dest: in_set_takeD)
  ultimately show ?thesis
    using assms(1,2) mkdirs_inv unfolding mkdir_all_def by blast
qed

lemma mkdir_all_frame:
  assumes "mkdir_all d p = (r, d')"
  shows "files d' = files d" "fails d' = fails d" "r = None \<Longrightarrow> is_dir d' p"
    "is_dir d' q \<Longrightarrow> is_dir d q \<or> prefix q p"
proof -
  note fr = mkdirs_frame [OF assms [unfolded mkdir_all_def]]
  show "files d' = files d" "fails d' = fails d" using fr by auto
  show "is_dir d' p" if "r = None"
  proof -
    have "p \<in> set (map (\<lambda>n. take n p) [0..<Suc (length p)])" by (force intro: image_eqI [of _ _ "length p"])
    with fr that show ?thesis by blast
  qed
  show "is_dir d q \<or> prefix q p" if "is_dir d' q"
    using that fr by (auto simp: is_dir_def take_is_prefix)
qed

lemma fsAbs_clean: "clean_path k \<Longrightarrow> fsAbs d k = map_of (files d) (slash_segs k)"
  by (simp add: fsAbs_def)

lemma fsInv_update_file:
  "fsInv d \<Longrightarrow> \<not> is_dir d p \<Longrightarrow> p \<noteq> [] \<Longrightarrow> list_all clean_seg p \<Longrightarrow> is_dir d (butlast p) \<Longrightarrow>
   fsInv (d\<lparr>files := AList.update p c (files d)\<rparr>)"
  by (auto simp: fsInv_def tree_ok_def is_dir_def distinct_update dom_update)

lemma fsPut_cases:
  assumes "fsPut d k c = (r, d')" "fsInv d" "clean_path k"
  obtains (ok) d1 where "mkdir_all d (butlast (slash_segs k)) = (None, d1)" "r = None"
      "\<not> is_dir d1 (slash_segs k)" "d' = d1\<lparr>files := AList.update (slash_segs k) c (files d1)\<rparr>"
    | (err) r1 where "mkdir_all d (butlast (slash_segs k)) = (r1, d')" "r \<noteq> None"
proof (cases "mkdir_all d (butlast (slash_segs k))")
  case (Pair r1 d1)
  show ?thesis
  proof (cases r1)
    case None
    with Pair assms show ?thesis
      by (auto simp: fsPut_def keyPath_clean os_rename_onto_def Let_def split: if_splits
          intro: ok err)
  next
    case (Some e)
    with Pair assms show ?thesis
      by (auto simp: fsPut_def keyPath_clean Let_def intro: err)
  qed
qed

lemma butlast_clean: "list_all clean_seg p \<Longrightarrow> list_all clean_seg (butlast p)"
  by (auto simp: list_all_iff dest: in_set_butlastD)

lemma fsPut_inv:
  assumes "fsPut d k c = (r, d')" "fsInv d" "clean_path k"
  shows "fsInv d'"
proof -
  have seg: "list_all clean_seg (butlast (slash_segs k))"
    using assms(3) by (simp add: butlast_clean clean_path_segs)
  from assms show ?thesis
  proof (cases rule: fsPut_cases)
    case (ok d1)
    then show ?thesis
      using mkdir_all_inv [OF ok(1) assms(2) seg] mkdir_all_frame(3) [OF ok(1)] assms(3)
      by (simp add: fsInv_update_file clean_path_segs)
  next
    case (err r1)
    from err(1) assms(2) seg show ?thesis by (rule mkdir_all_inv)
  qed
qed

lemma fsPut_ok: "fsPut d k c = (None, d') \<Longrightarrow> fsInv d \<Longrightarrow> clean_path k \<Longrightarrow> fsAbs d' = (fsAbs d)(k \<mapsto> c)"
  by (erule fsPut_cases)
    (auto simp: fun_eq_iff fsAbs_def update_conv' mkdir_all_frame(1) slash_segs_inject)

lemma fsPut_err: "fsPut d k c = (Some e, d') \<Longrightarrow> fsInv d \<Longrightarrow> clean_path k \<Longrightarrow> fsAbs d' = fsAbs d"
  by (erule fsPut_cases) (auto simp: fun_eq_iff fsAbs_def mkdir_all_frame(1))

lemma prefix_butlast_segs:
  assumes "prefix (slash_segs j) (butlast (slash_segs k))"
  shows "has_prefix k (j @ ''/'')"
proof -
  from assms obtain r where "butlast (slash_segs k) = slash_segs j @ r" by (auto simp: prefix_def)
  then have "slash_segs k = slash_segs j @ (r @ [last (slash_segs k)])"
    by (metis append.assoc append_butlast_last_id slash_segs_not_Nil)
  then have "k = join_with ''/'' (slash_segs j @ (r @ [last (slash_segs k)]))"
    by (metis join_slash_segs)
  then show ?thesis by (subst (asm) join_with_append) (auto simp: has_prefix_iff)
qed

lemma fsPut_plain:
  "fsPut d k c = (r, d') \<Longrightarrow> fsInv d \<Longrightarrow> clean_path k \<Longrightarrow> fsPlain d j \<Longrightarrow> \<not> has_prefix k (j @ ''/'') \<Longrightarrow>
   fsPlain d' j"
  by (erule fsPut_cases)
    (auto simp: fsPlain_def is_dir_def dest: mkdir_all_frame(4) [where q = "slash_segs j", unfolded is_dir_def]
      prefix_butlast_segs)

lemma fsGet_ok: "fsGet d k = Inr c \<Longrightarrow> clean_path k \<Longrightarrow> fsAbs d k = Some c"
  by (auto simp: fsGet_def os_read_def keyPath_clean fsAbs_def split: if_splits option.splits)

lemma fsGet_nf: "fsGet d k = Inl ErrNotFound \<Longrightarrow> fsAbs d k = None"
  by (auto simp: fsGet_def os_read_def keyPath_clean fsAbs_def split: if_splits option.splits)

lemma fsStat_ok: "fsStat d k = Inr n \<Longrightarrow> clean_path k \<Longrightarrow> fsPlain d k \<Longrightarrow> \<exists>c. fsAbs d k = Some c \<and> n = length c"
  by (auto simp: fsStat_def os_stat_def keyPath_clean fsAbs_def fsPlain_def split: if_splits option.splits)

lemma fsStat_nf: "fsStat d k = Inl ErrNotFound \<Longrightarrow> clean_path k \<Longrightarrow> fsAbs d k = None"
  by (auto simp: fsStat_def os_stat_def keyPath_clean fsAbs_def split: if_splits option.splits)

lemma fsDelete_cases:
  assumes "fsDelete d k = (r, d')" "clean_path k"
  obtains (same) "d' = d" "r \<noteq> None" | (missing) "d' = d" "r = None" "map_of (files d) (slash_segs k) = None"
    | (unlink) "r = None" "map_of (files d) (slash_segs k) \<noteq> None"
        "d' = d\<lparr>files := AList.delete (slash_segs k) (files d)\<rparr>"
    | (rmdir) "r = None" "map_of (files d) (slash_segs k) = None" "slash_segs k \<in> set (dirs d)"
        "d' = d\<lparr>dirs := removeAll (slash_segs k) (dirs d)\<rparr>"
        "\<not> list_ex (\<lambda>q. strict_prefix (slash_segs k) q) (map fst (files d) @ dirs d)"
proof -
  let ?p = "slash_segs k"
  have eq: "(r, d') = (case os_remove d ?p of (Some ErrNotFound, d') \<Rightarrow> (None, d') | r \<Rightarrow> r)"
    using assms by (simp add: fsDelete_def keyPath_clean)
  consider "blocked d ?p \<or> fails d OpRemove ?p"
    | "\<not> (blocked d ?p \<or> fails d OpRemove ?p)" "map_of (files d) ?p \<noteq> None"
    | "\<not> (blocked d ?p \<or> fails d OpRemove ?p)" "map_of (files d) ?p = None" "\<not> is_dir d ?p"
    | "\<not> (blocked d ?p \<or> fails d OpRemove ?p)" "map_of (files d) ?p = None" "is_dir d ?p"
        "list_ex (\<lambda>q. strict_prefix ?p q) (map fst (files d) @ dirs d)"
    | "\<not> (blocked d ?p \<or> fails d OpRemove ?p)" "map_of (files d) ?p = None" "is_dir d ?p"
        "\<not> list_ex (\<lambda>q. strict_prefix ?p q) (map fst (files d) @ dirs d)"
    by blast
  then show thesis
  proof cases
    case 1 then show ?thesis using eq same by (simp add: os_remove_def)
  next
    case 2 then show ?thesis using eq unlink by (simp add: os_remove_def)
  next
    case 3 then show ?thesis using eq missing by (simp add: os_remove_def)
  next
    case 4 then show ?thesis using eq same by (simp add: os_remove_def)
  next
    case 5
    then show ?thesis using eq rmdir by (simp add: os_remove_def) (simp add: is_dir_def)
  qed
qed

lemma tree_ok_mono:
  assumes "tree_ok d" "set (dirs e) \<union> fst ` set (files e) \<subseteq> set (dirs d) \<union> fst ` set (files d)"
    and "\<And>p. p \<in> set (dirs e) \<union> fst ` set (files e) \<Longrightarrow> is_dir d (butlast p) \<Longrightarrow> is_dir e (butlast p)"
  shows "tree_ok e"
  unfolding tree_ok_def
proof
  fix p
  assume p: "p \<in> set (dirs e) \<union> fst ` set (files e)"
  with assms(2) have "p \<in> set (dirs d) \<union> fst ` set (files d)" by (rule subsetD)
  with assms(1) have "p \<noteq> [] \<and> list_all clean_seg p \<and> is_dir d (butlast p)"
    unfolding tree_ok_def by (rule bspec)
  with assms(3) [OF p] show "p \<noteq> [] \<and> list_all clean_seg p \<and> is_dir e (butlast p)" by simp
qed

lemma fsInv_delete_file: "fsInv d \<Longrightarrow> fsInv (d\<lparr>files := AList.delete p (files d)\<rparr>)"
proof -
  assume i: "fsInv d"
  let ?d = "d\<lparr>files := AList.delete p (files d)\<rparr>"
  have sub: "set (dirs ?d) \<union> fst ` set (files ?d) \<subseteq> set (dirs d) \<union> fst ` set (files d)"
    using dom_delete_subset [of p "files d"] by auto
  have "tree_ok ?d"
    by (rule tree_ok_mono [OF _ sub]) (use i in \<open>simp_all add: fsInv_def is_dir_def\<close>)
  then show ?thesis
    using i dom_delete_subset [of p "files d"] by (auto simp: fsInv_def distinct_delete)
qed

lemma strict_prefix_butlast: "q \<noteq> [] \<Longrightarrow> butlast q = p \<Longrightarrow> strict_prefix p q"
  by (cases q rule: rev_cases) (auto simp: strict_prefix_def)

lemma fsInv_rmdir:
  assumes "fsInv d" "\<not> list_ex (\<lambda>q. strict_prefix p q) (map fst (files d) @ dirs d)"
  shows "fsInv (d\<lparr>dirs := removeAll p (dirs d)\<rparr>)"
proof -
  let ?d = "d\<lparr>dirs := removeAll p (dirs d)\<rparr>"
  have nb: "butlast q \<noteq> p" if q: "q \<in> set (dirs d) \<union> fst ` set (files d)" for q
  proof
    assume "butlast q = p"
    moreover have "q \<noteq> []" using assms(1) q unfolding fsInv_def tree_ok_def by blast
    ultimately have "strict_prefix p q" by (rule strict_prefix_butlast [rotated])
    with assms(2) q show False by (auto simp: list_ex_iff)
  qed
  have "tree_ok ?d"
  proof (rule tree_ok_mono)
    fix q
    assume "q \<in> set (dirs ?d) \<union> fst ` set (files ?d)" "is_dir d (butlast q)"
    moreover from this(1) have "butlast q \<noteq> p" by (intro nb) auto
    ultimately show "is_dir ?d (butlast q)" by (simp add: is_dir_def)
  qed (use assms(1) in \<open>auto simp: fsInv_def\<close>)
  then show ?thesis using assms(1) by (auto simp: fsInv_def distinct_removeAll)
qed

lemma fsDelete_inv: "fsDelete d k = (r, d') \<Longrightarrow> fsInv d \<Longrightarrow> clean_path k \<Longrightarrow> fsInv d'"
  by (erule fsDelete_cases) (auto intro: fsInv_delete_file fsInv_rmdir)

lemma fsDelete_ok: "fsDelete d k = (None, d') \<Longrightarrow> clean_path k \<Longrightarrow> fsAbs d' = (fsAbs d)(k := None)"
  by (erule fsDelete_cases) (auto simp: fun_eq_iff fsAbs_def delete_conv' slash_segs_inject)

lemma fsDelete_err: "fsDelete d k = (Some e, d') \<Longrightarrow> clean_path k \<Longrightarrow> fsAbs d' = fsAbs d"
  by (erule fsDelete_cases) auto

lemma fsDelete_plain: "fsDelete d k = (r, d') \<Longrightarrow> clean_path k \<Longrightarrow> fsPlain d j \<Longrightarrow> fsPlain d' j"
  by (erule fsDelete_cases) (auto simp: fsPlain_def is_dir_def)

lemma set_children: "x \<in> set (children p qs) \<longleftrightarrow> p @ [x] \<in> set qs"
proof
  assume "x \<in> set (children p qs)"
  then show "p @ [x] \<in> set qs" by (auto simp: children_def)
next
  assume "p @ [x] \<in> set qs"
  then show "x \<in> set (children p qs)" by (force simp: children_def)
qed

lemma distinct_children: "distinct qs \<Longrightarrow> distinct (children p qs)"
proof -
  have "inj_on last {q. q \<noteq> [] \<and> butlast q = p}"
  proof (rule inj_onI)
    fix a b :: path
    assume "a \<in> {q. q \<noteq> [] \<and> butlast q = p}" "b \<in> {q. q \<noteq> [] \<and> butlast q = p}" "last a = last b"
    then show "a = b" by (cases a rule: rev_cases; cases b rule: rev_cases) auto
  qed
  then show "distinct qs \<Longrightarrow> distinct (children p qs)"
    by (auto simp: children_def distinct_map elim: inj_on_subset)
qed

lemma fsList_dirD:
  assumes "fsList d (p @ ''/'') ''/'' = Inr es" "clean_path p" "es \<noteq> []"
  shows "es = sort (map (\<lambda>x. p @ ''/'' @ x) (children (slash_segs p) (map fst (files d))) @
                    map (\<lambda>x. p @ ''/'' @ x @ ''/'') (children (slash_segs p) (dirs d)))"
  using assms
  by (auto simp: fsList_def trim_trailing keyPath_clean os_read_dir_def joinKey_dir comp_def
      split: sum.splits serr.splits if_splits simp del: append_Cons append_Nil)

lemma fsInv_cleanD:
  assumes "fsInv d" "p \<in> set (dirs d) \<union> fst ` set (files d)"
  shows "list_all clean_seg p" "p \<noteq> []" "is_dir d (butlast p)"
  using assms unfolding fsInv_def tree_ok_def by blast+

lemma sort_eq_Nil [simp]: "sort xs = [] \<longleftrightarrow> xs = []"
  by (metis set_sort set_empty)

lemma fsList_dir_Nil:
  assumes "fsList d (p @ ''/'') ''/'' = Inr []" "clean_path p" "fsInv d"
  shows "children (slash_segs p) (map fst (files d)) = []" "children (slash_segs p) (dirs d) = []"
proof -
  have nd: "\<not> is_dir d (slash_segs p) \<Longrightarrow> slash_segs p @ [x] \<notin> set (dirs d) \<union> fst ` set (files d)" for x
    using fsInv_cleanD(3) [OF assms(3), of "slash_segs p @ [x]"] unfolding butlast_snoc by blast
  have "children (slash_segs p) (map fst (files d)) = [] \<and> children (slash_segs p) (dirs d) = []"
  proof (cases "is_dir d (slash_segs p)")
    case True
    with assms show ?thesis
      by (auto simp: fsList_def trim_trailing keyPath_clean os_read_dir_def split: if_splits)
  next
    case False
    from nd [OF this] have "set (children (slash_segs p) (map fst (files d))) = {}"
      "set (children (slash_segs p) (dirs d)) = {}"
      unfolding set_eq_iff set_children by simp_all
    then show ?thesis by simp
  qed
  then show "children (slash_segs p) (map fst (files d)) = []" "children (slash_segs p) (dirs d) = []"
    by auto
qed

lemma fsList_dir_set:
  assumes "fsList d (p @ ''/'') ''/'' = Inr es" "clean_path p" "fsInv d"
  shows "e \<in> set es \<longleftrightarrow>
    (\<exists>x. e = p @ ''/'' @ x \<and> slash_segs p @ [x] \<in> fst ` set (files d)) \<or>
    (\<exists>x. e = p @ ''/'' @ x @ ''/'' \<and> slash_segs p @ [x] \<in> set (dirs d))"
proof (cases "es = []")
  case True
  then show ?thesis
    using fsList_dir_Nil [of d p] assms set_children [of _ "slash_segs p" "map fst (files d)"]
      set_children [of _ "slash_segs p" "dirs d"] by auto
next
  case False
  then show ?thesis
    unfolding fsList_dirD [OF assms(1,2) False] set_sort set_append set_map Un_iff image_iff [of e]
      Bex_def set_children by blast
qed

lemma fsAbs_child:
  assumes "clean_path p" "clean_seg x"
  shows "fsAbs d (p @ ''/'' @ x) \<noteq> None \<longleftrightarrow> slash_segs p @ [x] \<in> fst ` set (files d)"
proof -
  have "clean_path (p @ ''/'' @ x)" "slash_segs (p @ ''/'' @ x) = slash_segs p @ [x]"
    using assms by (simp_all only: clean_path_append clean_path_seg slash_segs_append)
      (simp add: clean_seg_def slash_segs_single)
  then show ?thesis by (simp only: fsAbs_clean) (simp add: map_of_eq_None_iff)
qed

lemma fsList_sound:
  assumes "fsInv d" "clean_path p" "fsList d (p @ ''/'') ''/'' = Inr es" "e \<in> set es"
  shows "\<exists>x. clean_seg x \<and> (e = p @ ''/'' @ x \<and> fsAbs d e \<noteq> None \<or> e = p @ ''/'' @ x @ ''/'')"
proof -
  have "clean_seg x" if "slash_segs p @ [x] \<in> set (dirs d) \<union> fst ` set (files d)" for x
    using fsInv_cleanD(1) [OF assms(1) that] by simp
  with assms(4) fsAbs_child [OF assms(2)] show ?thesis
    unfolding fsList_dir_set [OF assms(3,2,1)] by blast
qed

lemma fsList_file:
  "fsInv d \<Longrightarrow> clean_path p \<Longrightarrow> fsList d (p @ ''/'') ''/'' = Inr es \<Longrightarrow> clean_seg x \<Longrightarrow>
   fsAbs d (p @ ''/'' @ x) \<noteq> None \<Longrightarrow> p @ ''/'' @ x \<in> set es"
  by (subst fsList_dir_set) (use fsAbs_child in blast)+

lemma fsInv_prefix_dir:
  "fsInv d \<Longrightarrow> is_dir d (p @ q) \<Longrightarrow> is_dir d p"
proof (induction q rule: rev_induct)
  case (snoc x q)
  show ?case
  proof (rule snoc.IH)
    show "is_dir d (p @ q)"
      using snoc.prems fsInv_cleanD(3) [of d "(p @ q) @ [x]"] unfolding butlast_snoc
      by (auto simp: is_dir_def)
  qed fact
qed simp

lemma fsList_sub:
  assumes "fsInv d" "clean_path p" "fsList d (p @ ''/'') ''/'' = Inr es" "clean_seg x"
    and "fsAbs d (p @ ''/'' @ x @ ''/'' @ y) \<noteq> None"
  shows "p @ ''/'' @ x @ ''/'' \<in> set es"
proof -
  let ?k = "p @ ''/'' @ x @ ''/'' @ y"
  have "slash_segs ?k = slash_segs p @ [x] @ slash_segs y"
    using assms(4) by (simp only: slash_segs_append) (simp add: clean_seg_def slash_segs_single)
  then have "slash_segs p @ [x] @ slash_segs y \<in> fst ` set (files d)"
    using assms(5) unfolding fsAbs_def by (metis map_of_eq_None_iff)
  then have "is_dir d (butlast (slash_segs p @ [x] @ slash_segs y))"
    using fsInv_cleanD(3) [OF assms(1)] by blast
  then have "is_dir d ((slash_segs p @ [x]) @ butlast (slash_segs y))"
    by (simp add: butlast_append)
  then have "is_dir d (slash_segs p @ [x])" by (rule fsInv_prefix_dir [OF assms(1)])
  then have "slash_segs p @ [x] \<in> set (dirs d)" by (simp add: is_dir_def)
  then show ?thesis unfolding fsList_dir_set [OF assms(3,2,1)] by blast
qed

lemma fsList_sorted_dir:
  assumes "fsInv d" "clean_path p" "fsList d (p @ ''/'') ''/'' = Inr es"
  shows "sorted es \<and> distinct es"
proof (cases "es = []")
  case False
  let ?fs = "children (slash_segs p) (map fst (files d))"
  let ?ds = "children (slash_segs p) (dirs d)"
  have "distinct ?fs" "distinct ?ds"
    using assms(1) by (auto simp: fsInv_def intro: distinct_children)
  moreover have "p @ ''/'' @ x \<noteq> p @ ''/'' @ y @ ''/''" if "x \<in> set ?fs" for x y
  proof -
    have "slash_segs p @ [x] \<in> set (dirs d) \<union> fst ` set (files d)"
      using that unfolding set_children by simp
    from fsInv_cleanD(1) [OF assms(1) this] have "CHR ''/'' \<notin> set x" by (simp add: clean_seg_def)
    then have "x \<noteq> y @ ''/''" by auto
    then show ?thesis by simp
  qed
  ultimately have "distinct (map (\<lambda>x. p @ ''/'' @ x) ?fs @ map (\<lambda>x. p @ ''/'' @ x @ ''/'') ?ds)"
    by (auto simp: distinct_map inj_on_def)
  then show ?thesis unfolding fsList_dirD [OF assms(3,2) False] by simp
qed simp

lemma inj_join_clean: "inj_on (join_with ''/'') {p. list_all clean_seg p \<and> p \<noteq> []}"
  by (rule inj_on_inverseI [where g = slash_segs]) (simp add: clean_join_segs)

lemma fsList_recD:
  "fsList d (p @ ''/'') [] = Inr es \<Longrightarrow> clean_path p \<Longrightarrow>
   es = sort (map (join_with ''/'') (filter (prefix (slash_segs p)) (map fst (files d))))"
  unfolding fsList_def keyPath_dir Let_def by (simp add: keyPath_dir split: if_splits)

lemma fsList_sorted:
  assumes "fsInv d" "clean_path p" "fsList d (p @ ''/'') dl = Inr es"
  shows "sorted es \<and> distinct es"
proof (cases "dl = ''/''")
  case True
  with assms fsList_sorted_dir show ?thesis by blast
next
  case False
  then have "fsList d (p @ ''/'') dl = fsList d (p @ ''/'') []" by (simp add: fsList_def)
  then have es: "es = sort (map (join_with ''/'') (filter (prefix (slash_segs p)) (map fst (files d))))"
    using assms(2,3) by (simp only: fsList_recD)
  have "set (filter (prefix (slash_segs p)) (map fst (files d))) \<subseteq> {p. list_all clean_seg p \<and> p \<noteq> []}"
    using fsInv_cleanD(1,2) [OF assms(1)] by auto
  moreover have "distinct (filter (prefix (slash_segs p)) (map fst (files d)))"
    using assms(1) by (simp add: fsInv_def)
  ultimately have "distinct (map (join_with ''/'') (filter (prefix (slash_segs p)) (map fst (files d))))"
    unfolding distinct_map using inj_on_subset [OF inj_join_clean] by blast
  then show ?thesis unfolding es by simp
qed

lemma fsAbs_dom: "fsInv d \<Longrightarrow> {k. fsAbs d k \<noteq> None} = join_with ''/'' ` fst ` set (files d)"
proof (intro set_eqI iffI)
  fix k
  assume "k \<in> {k. fsAbs d k \<noteq> None}"
  then have "slash_segs k \<in> fst ` set (files d)"
    unfolding fsAbs_def mem_Collect_eq by (metis map_of_eq_None_iff)
  then have "join_with ''/'' (slash_segs k) \<in> join_with ''/'' ` fst ` set (files d)" by (rule imageI)
  then show "k \<in> join_with ''/'' ` fst ` set (files d)" by simp
next
  fix k
  assume i: "fsInv d" and "k \<in> join_with ''/'' ` fst ` set (files d)"
  then obtain q where q: "q \<in> fst ` set (files d)" "k = join_with ''/'' q" by blast
  then have "list_all clean_seg q" "q \<noteq> []" using fsInv_cleanD(1,2) [OF i, of q] by auto
  then show "k \<in> {k. fsAbs d k \<noteq> None}"
    using q(1) map_of_eq_None_iff [of "files d" q] unfolding q(2)
    by (simp add: fsAbs_def clean_join_segs clean_path_join_segs)
qed

lemma prefix_segs_iff:
  assumes "clean_path k" "k \<noteq> p"
  shows "prefix (slash_segs p) (slash_segs k) \<longleftrightarrow> has_prefix k (p @ ''/'')"
proof
  assume "prefix (slash_segs p) (slash_segs k)"
  then obtain r where r: "slash_segs k = slash_segs p @ r" by (auto simp: prefix_def)
  moreover from this assms(2) have "r \<noteq> []" using slash_segs_inject [of k p] by auto
  ultimately have "join_with ''/'' (slash_segs k) = p @ ''/'' @ join_with ''/'' r"
    by (simp add: join_with_append)
  then show "has_prefix k (p @ ''/'')" by (simp add: has_prefix_iff)
next
  assume "has_prefix k (p @ ''/'')"
  then obtain y where "k = p @ ''/'' @ y" by (auto simp: has_prefix_iff)
  then have "slash_segs k = slash_segs p @ slash_segs y" by (simp only: slash_segs_append)
  then show "prefix (slash_segs p) (slash_segs k)" by simp
qed

lemma fsList_all:
  assumes "fsInv d" "clean_path p" "fsAbs d p = None" "fsList d (p @ ''/'') [] = Inr es"
  shows "set es = {k. fsAbs d k \<noteq> None \<and> has_prefix k (p @ ''/'')}"
proof (rule set_eqI)
  fix k
  have "k \<in> set es \<longleftrightarrow> (\<exists>q. k = join_with ''/'' q \<and> q \<in> fst ` set (files d) \<and> prefix (slash_segs p) q)"
    unfolding fsList_recD [OF assms(4,2)] by auto
  also have "\<dots> \<longleftrightarrow> fsAbs d k \<noteq> None \<and> prefix (slash_segs p) (slash_segs k)"
  proof -
    have "slash_segs (join_with ''/'' q) = q" if "q \<in> fst ` set (files d)" for q
      using fsInv_cleanD(1,2) [OF assms(1), of q] that by (simp add: clean_join_segs)
    moreover have "fsAbs d k \<noteq> None \<longleftrightarrow> k \<in> join_with ''/'' ` fst ` set (files d)"
      using fsAbs_dom [OF assms(1)] by blast
    ultimately show ?thesis unfolding image_iff [of k] by force
  qed
  also have "\<dots> \<longleftrightarrow> fsAbs d k \<noteq> None \<and> has_prefix k (p @ ''/'')"
    using assms(2,3) prefix_segs_iff [of k p] by (cases "k = p") (auto simp: fsAbs_def split: if_splits)
  finally show "k \<in> set es \<longleftrightarrow> k \<in> {k. fsAbs d k \<noteq> None \<and> has_prefix k (p @ ''/'')}" by simp
qed

lemma fsBound_ge: "p \<in> set (dirs d) \<Longrightarrow> Suc (length (join_with ''/'' p)) \<le> fsBound d"
proof -
  have "x \<in> set xs \<Longrightarrow> x \<le> foldr max xs 0" for x :: nat and xs by (induction xs) auto
  then show "p \<in> set (dirs d) \<Longrightarrow> Suc (length (join_with ''/'' p)) \<le> fsBound d"
    by (simp add: fsBound_def)
qed

lemma fsList_bound:
  assumes "fsInv d" "clean_path p" "fsList d (p @ ''/'') ''/'' = Inr es" "e \<in> set es" "has_suffix e ''/''"
  shows "length e \<le> fsBound d"
proof -
  consider x where "e = p @ ''/'' @ x" "slash_segs p @ [x] \<in> fst ` set (files d)"
    | x where "e = p @ ''/'' @ x @ ''/''" "slash_segs p @ [x] \<in> set (dirs d)"
    using assms(4) unfolding fsList_dir_set [OF assms(3,2,1)] by blast
  then show ?thesis
  proof cases
    case 1
    then have x: "clean_seg x" using fsInv_cleanD(1) [OF assms(1), of "slash_segs p @ [x]"] by simp
    then have "x \<noteq> []" "CHR ''/'' \<notin> set x" by (simp_all add: clean_seg_def)
    then have "\<not> has_suffix (p @ ''/'' @ x) ''/''"
      by (cases x rule: rev_cases) (auto simp: has_suffix_iff)
    with 1 assms(5) show ?thesis by simp
  next
    case 2
    from fsBound_ge [OF 2(2)] show ?thesis by (simp add: 2(1) join_with_append)
  qed
qed

lemma fsList_no_depth: "fsList d q dl \<noteq> Inl ErrDepth"
proof -
  have "os_read_dir d r \<noteq> Inl ErrDepth" for r by (simp add: os_read_dir_def)
  then show ?thesis by (auto simp: fsList_def Let_def split: sum.splits serr.splits)
qed

lemmas fs_laws = fsGet_ok fsGet_nf fsPut_inv fsPut_ok fsPut_err fsPut_plain fsStat_ok fsStat_nf
  fsDelete_inv fsDelete_ok fsDelete_err fsDelete_plain

interpretation fs: object_store_spec fsObjectStore fsAbs fsInv fsPlain
proof unfold_locales
  show "fsInv s \<Longrightarrow> fsAbs s k = Some c \<Longrightarrow> clean_path k" for s k c
    by (simp add: fsAbs_def split: if_splits)
  show "fsInv s \<Longrightarrow> finite {k. fsAbs s k \<noteq> None}" for s
    by (simp only: fsAbs_dom finite_imageI finite_set)
qed (simp_all only: fsObjectStore_def object_store.simps,
    (rule fs_laws fsList_sound fsList_file fsList_sub fsList_sorted fsList_all fsList_bound fsList_no_depth; assumption)+)

end
