(* ===== verification/Sha256.thy ===== *)
theory Sha256
  imports Prelude
begin

text \<open>
  The part of Go's \<open>crypto/sha256\<close> and \<open>encoding/hex\<close> the blob store uses: the SHA-256
  compression function of FIPS 180-4 on 32-bit words, and the lower-case hex form of the
  digest.  Nothing in the development depends on collision freedom; where a result needs that
  two contents do not collide, that is a hypothesis about those two contents.
\<close>

unbundle bit_operations_syntax

type_synonym w32 = "32 word"

text \<open>
  The constants are not tabulated: the standard defines them as the first 32 bits of the
  fractional parts of the cube roots of the first 64 primes and the square roots of the first 8,
  and \<open>root_search\<close> finds the integer root bit by bit.
\<close>

fun root_search :: "nat \<Rightarrow> nat \<Rightarrow> nat \<Rightarrow> nat \<Rightarrow> nat" where
  "root_search k 0 n acc = acc"
| "root_search k (Suc i) n acc = root_search k i n (if (acc + 2 ^ i) ^ k \<le> n then acc + 2 ^ i else acc)"

definition small_primes :: "nat list" where
  "small_primes = filter (\<lambda>n. list_all (\<lambda>d. \<not> d dvd n) [2..<n]) [2..<312]"

definition root_word :: "nat \<Rightarrow> nat \<Rightarrow> w32" where
  "root_word k p = word_of_nat (root_search k 36 (p * 2 ^ (32 * k)) 0)"

definition sha_k :: "w32 list" where
  "sha_k = map (root_word 3) small_primes"

definition sha_init :: "w32 list" where
  "sha_init = map (root_word 2) (take 8 small_primes)"

definition bsig0 :: "w32 \<Rightarrow> w32" where
  "bsig0 x = word_rotr 2 x XOR word_rotr 13 x XOR word_rotr 22 x"

definition bsig1 :: "w32 \<Rightarrow> w32" where
  "bsig1 x = word_rotr 6 x XOR word_rotr 11 x XOR word_rotr 25 x"

definition ssig0 :: "w32 \<Rightarrow> w32" where
  "ssig0 x = word_rotr 7 x XOR word_rotr 18 x XOR drop_bit 3 x"

definition ssig1 :: "w32 \<Rightarrow> w32" where
  "ssig1 x = word_rotr 17 x XOR word_rotr 19 x XOR drop_bit 10 x"

definition sha_ch :: "w32 \<Rightarrow> w32 \<Rightarrow> w32 \<Rightarrow> w32" where
  "sha_ch x y z = (x AND y) XOR (NOT x AND z)"

definition sha_maj :: "w32 \<Rightarrow> w32 \<Rightarrow> w32 \<Rightarrow> w32" where
  "sha_maj x y z = (x AND y) XOR (x AND z) XOR (y AND z)"

text \<open>The message schedule, newest word first.\<close>

fun sha_schedule :: "nat \<Rightarrow> w32 list \<Rightarrow> w32 list" where
  "sha_schedule 0 ws = ws"
| "sha_schedule (Suc n) ws =
     sha_schedule n ((ssig1 (ws ! 1) + ws ! 6 + ssig0 (ws ! 14) + ws ! 15) # ws)"

datatype sha_state = ShaState w32 w32 w32 w32 w32 w32 w32 w32

fun sha_round :: "sha_state \<Rightarrow> w32 \<times> w32 \<Rightarrow> sha_state" where
  "sha_round (ShaState a b c d e f g h) (k, w) =
     (let t1 = h + bsig1 e + sha_ch e f g + k + w; t2 = bsig0 a + sha_maj a b c
      in ShaState (t1 + t2) a b c (d + t1) e f g)"

fun sha_add :: "sha_state \<Rightarrow> sha_state \<Rightarrow> sha_state" where
  "sha_add (ShaState a b c d e f g h) (ShaState a' b' c' d' e' f' g' h') =
     ShaState (a + a') (b + b') (c + c') (d + d') (e + e') (f + f') (g + g') (h + h')"

definition sha_block :: "sha_state \<Rightarrow> w32 list \<Rightarrow> sha_state" where
  "sha_block s ws = sha_add s (foldl sha_round s (zip sha_k (rev (sha_schedule 48 (rev ws)))))"

definition be_word :: "8 word list \<Rightarrow> w32" where
  "be_word bs = foldl (\<lambda>a b. push_bit 8 a OR ucast b) 0 bs"

definition word_be :: "w32 \<Rightarrow> 8 word list" where
  "word_be w = map (\<lambda>n. ucast (drop_bit n w)) [24, 16, 8, 0]"

definition sha_pad :: "8 word list \<Rightarrow> 8 word list" where
  "sha_pad bs =
     (let n = length bs
      in bs @ [0x80] @ replicate ((119 - n mod 64) mod 64) 0 @
         map (\<lambda>i. word_of_nat ((8 * n) div 256 ^ i)) [7, 6, 5, 4, 3, 2, 1, 0])"

fun chunks_of :: "nat \<Rightarrow> nat \<Rightarrow> 'a list \<Rightarrow> 'a list list" where
  "chunks_of 0 k xs = []"
| "chunks_of (Suc n) k xs = take k xs # chunks_of n k (drop k xs)"

fun sha_out :: "sha_state \<Rightarrow> 8 word list" where
  "sha_out (ShaState a b c d e f g h) = concat (map word_be [a, b, c, d, e, f, g, h])"

definition sha_start :: sha_state where
  "sha_start =
     ShaState (sha_init ! 0) (sha_init ! 1) (sha_init ! 2) (sha_init ! 3)
       (sha_init ! 4) (sha_init ! 5) (sha_init ! 6) (sha_init ! 7)"

definition sha256 :: "8 word list \<Rightarrow> 8 word list" where
  "sha256 bs =
     (let m = sha_pad bs
      in sha_out (foldl (\<lambda>s blk. sha_block s (map be_word (chunks_of 16 4 blk))) sha_start
           (chunks_of (length m div 64) 64 m)))"

definition sha256_hex :: "string \<Rightarrow> string" where
  "sha256_hex c = hex_encode (sha256 (map of_char c))"

lemma length_sha256 [simp]: "length (sha256 bs) = 32"
proof -
  have "length (sha_out s) = 32" for s by (cases s) (simp add: word_be_def)
  then show ?thesis by (simp add: sha256_def Let_def)
qed

lemma length_sha256_hex [simp]: "length (sha256_hex c) = 64"
  by (simp add: sha256_hex_def)

lemma sha256_hex_digits: "list_all is_hex_char (sha256_hex c)"
  by (simp add: sha256_hex_def hex_encode_hex)

end
