(* ===== verification/Cas.thy ===== *)
theory Cas
  imports ObjectStore Sha256
begin

text \<open>
  The registry-facing storage layer \<open>storage.Backend\<close> (\<open>cas.go\<close>, \<open>staged_upload.go\<close>,
  \<open>referrers.go\<close>, \<open>usage.go\<close> and the native uploads of \<open>filesystem.go\<close>): key layout, the
  sha256 content-addressable store, resumable uploads, manifests and tags, and the cached
  repository catalog.  The Go struct splits into the interface values it holds (\<open>store_if\<close>) and
  its mutable state (\<open>backend\<close>); an \<open>io.Reader\<close> is the bytes it delivers and the error it ends
  with, if any.  Random upload ids and clock readings are arguments.
\<close>

type_synonym 'a res = "serr + 'a"
type_synonym reader = "string \<times> serr option"

section \<open>Digests and keys\<close>

definition ParseDigest :: "string \<Rightarrow> (string \<times> string) res" where
  "ParseDigest d =
     (case index_byte CHR '':'' d of
        None \<Rightarrow> Inl (ErrDigest MissingAlgorithm)
      | Some i \<Rightarrow>
          let algo = take i d; hexv = drop (Suc i) d in
          if algo \<noteq> ''sha256'' then Inl (ErrDigest (UnsupportedAlgorithm algo))
          else if length hexv \<noteq> 64 then Inl (ErrDigest (InvalidLength (length hexv)))
          else if \<not> hex_decodable hexv then Inl (ErrDigest InvalidHex)
          else Inr (algo, hexv))"

definition isDigest :: "string \<Rightarrow> bool" where
  "isDigest ref = (case ParseDigest ref of Inl _ \<Rightarrow> False | Inr _ \<Rightarrow> True)"

text \<open>\<open>strings.NewReplacer\<close> with a slash, a backslash and a double dot, each to an underscore.\<close>

fun sanitize :: "string \<Rightarrow> string" where
  "sanitize [] = []"
| "sanitize [c] = (if c = CHR ''/'' \<or> c = CHR 0x5C then ''_'' else [c])"
| "sanitize (c # e # cs) =
     (if c = CHR ''/'' \<or> c = CHR 0x5C then CHR ''_'' # sanitize (e # cs)
      else if c = CHR ''.'' \<and> e = CHR ''.'' then CHR ''_'' # sanitize cs
      else c # sanitize (e # cs))"

definition sanitizeRepo :: "string \<Rightarrow> string" where
  "sanitizeRepo repo =
     join_with ''/'' (map (\<lambda>p. if p = [] \<or> p = ''.'' \<or> p = ''..'' then ''_'' else p) (slash_segs repo))"

definition blobKey :: "string \<Rightarrow> string res" where
  "blobKey digest =
     (case ParseDigest digest of
        Inl e \<Rightarrow> Inl e
      | Inr (algo, hexv) \<Rightarrow> Inr (path_join [''blobs'', algo, take 2 hexv, hexv]))"

definition manifestKey :: "string \<Rightarrow> string \<Rightarrow> string" where
  "manifestKey repo hexv = path_join [''repos'', sanitizeRepo repo, ''manifests'', hexv]"

definition tagKey :: "string \<Rightarrow> string \<Rightarrow> string" where
  "tagKey repo tag = path_join [''repos'', sanitizeRepo repo, ''tags'', sanitize tag]"

section \<open>State\<close>

text \<open>
  The staging directory: file name, content and modification time.  \<open>sfails\<close> is the failure
  pattern of the operating system there.
\<close>

record stagedir =
  sfiles :: "(string \<times> string \<times> int) list"
  sfails :: "fsop \<Rightarrow> string \<Rightarrow> bool"

datatype upload = FsUpload string | StagedUpload string

fun upload_id :: "upload \<Rightarrow> string" where
  "upload_id (FsUpload i) = i"
| "upload_id (StagedUpload i) = i"

record 's native_uploader =
  nuNew :: "stagedir \<Rightarrow> string \<Rightarrow> int \<Rightarrow> upload res \<times> stagedir"
  nuGet :: "stagedir \<Rightarrow> string \<Rightarrow> upload res"
  nuAbort :: "stagedir \<Rightarrow> string \<Rightarrow> serr option \<times> stagedir"
  nuCommit :: "'s \<Rightarrow> stagedir \<Rightarrow> string \<Rightarrow> string \<Rightarrow> (string \<times> nat) res \<times> 's \<times> stagedir"

record 's store_if =
  obj :: "'s object_store"
  native :: "'s native_uploader option"

record 's backend =
  bobj :: 's
  staging :: stagedir
  catalogList :: "string list"
  catalogAt :: int
  catalogValid :: bool
  catalogGen :: "64 word"
  catalogTTL :: int

section \<open>Blobs\<close>

definition StatBlob :: "'s store_if \<Rightarrow> 's backend \<Rightarrow> string \<Rightarrow> nat res" where
  "StatBlob S b digest =
     (case blobKey digest of Inl e \<Rightarrow> Inl e | Inr key \<Rightarrow> oStat (obj S) (bobj b) key)"

definition GetBlob :: "'s store_if \<Rightarrow> 's backend \<Rightarrow> string \<Rightarrow> string res" where
  "GetBlob S b digest =
     (case blobKey digest of Inl e \<Rightarrow> Inl e | Inr key \<Rightarrow> oGet (obj S) (bobj b) key)"

definition PutBlob ::
  "'s store_if \<Rightarrow> 's backend \<Rightarrow> reader \<Rightarrow> string \<Rightarrow> (string \<times> nat) res \<times> 's backend" where
  "PutBlob S b r expect =
     (if sfails (staging b) OpTemp ''blob-'' then (Inl ErrIO, b)
      else case snd r of
        Some e \<Rightarrow> (Inl e, b)
      | None \<Rightarrow>
          if sfails (staging b) OpCopy ''blob-'' then (Inl ErrIO, b)
          else
            let c = fst r; digest = ''sha256:'' @ sha256_hex c in
            if expect \<noteq> [] \<and> expect \<noteq> digest then (Inl ErrDigestMismatch, b)
            else case blobKey digest of
              Inl e \<Rightarrow> (Inl e, b)
            | Inr key \<Rightarrow>
                (case oStat (obj S) (bobj b) key of
                   Inr _ \<Rightarrow> (Inr (digest, length c), b)
                 | Inl _ \<Rightarrow>
                     (case oPut (obj S) (bobj b) key c of
                        (Some e, s') \<Rightarrow> (Inl e, b\<lparr>bobj := s'\<rparr>)
                      | (None, s') \<Rightarrow> (Inr (digest, length c), b\<lparr>bobj := s'\<rparr>))))"

definition DeleteBlob :: "'s store_if \<Rightarrow> 's backend \<Rightarrow> string \<Rightarrow> serr option \<times> 's backend" where
  "DeleteBlob S b digest =
     (case blobKey digest of
        Inl e \<Rightarrow> (Some e, b)
      | Inr key \<Rightarrow>
          (case oStat (obj S) (bobj b) key of
             Inl e \<Rightarrow> (Some e, b)
           | Inr _ \<Rightarrow> (case oDelete (obj S) (bobj b) key of (r, s') \<Rightarrow> (r, b\<lparr>bobj := s'\<rparr>))))"

section \<open>Uploads\<close>

text \<open>\<open>os.OpenFile\<close> with O_CREATE and O_APPEND in the staging directory.\<close>

definition stage_create :: "stagedir \<Rightarrow> string \<Rightarrow> int \<Rightarrow> serr option \<times> stagedir" where
  "stage_create g name now =
     (if sfails g OpOpen name then (Some ErrIO, g)
      else if map_of (sfiles g) name \<noteq> None then (None, g)
      else (None, g\<lparr>sfiles := (name, [], now) # sfiles g\<rparr>))"

definition stage_open :: "stagedir \<Rightarrow> string \<Rightarrow> serr option" where
  "stage_open g name =
     (if sfails g OpStat name then Some ErrIO
      else if map_of (sfiles g) name = None then Some ErrNotFound
      else if sfails g OpOpen name then Some ErrIO
      else None)"

definition stage_remove :: "stagedir \<Rightarrow> string \<Rightarrow> serr option \<times> stagedir" where
  "stage_remove g name =
     (if map_of (sfiles g) name = None then (None, g)
      else if sfails g OpRemove name then (Some ErrIO, g)
      else (None, g\<lparr>sfiles := AList.delete name (sfiles g)\<rparr>))"

definition sessionPath :: "string \<Rightarrow> string" where
  "sessionPath i = ''session-'' @ sanitize i"

definition stagedUploadPath :: "string \<Rightarrow> string" where
  "stagedUploadPath i = ''upload-'' @ sanitize i"

fun upload_path :: "upload \<Rightarrow> string" where
  "upload_path (FsUpload i) = sessionPath i"
| "upload_path (StagedUpload i) = stagedUploadPath i"

definition fsNewUpload :: "stagedir \<Rightarrow> string \<Rightarrow> int \<Rightarrow> upload res \<times> stagedir" where
  "fsNewUpload g i now =
     (case stage_create g (sessionPath i) now of
        (Some e, g') \<Rightarrow> (Inl e, g') | (None, g') \<Rightarrow> (Inr (FsUpload i), g'))"

definition fsGetUpload :: "stagedir \<Rightarrow> string \<Rightarrow> upload res" where
  "fsGetUpload g i =
     (case stage_open g (sessionPath i) of Some e \<Rightarrow> Inl e | None \<Rightarrow> Inr (FsUpload i))"

definition fsAbortUpload :: "stagedir \<Rightarrow> string \<Rightarrow> serr option \<times> stagedir" where
  "fsAbortUpload g i = stage_remove g (sessionPath i)"

definition newStagedUpload :: "stagedir \<Rightarrow> string \<Rightarrow> int \<Rightarrow> upload res \<times> stagedir" where
  "newStagedUpload g i now =
     (case stage_create g (stagedUploadPath i) now of
        (Some e, g') \<Rightarrow> (Inl e, g') | (None, g') \<Rightarrow> (Inr (StagedUpload i), g'))"

definition openStagedUpload :: "stagedir \<Rightarrow> string \<Rightarrow> upload res" where
  "openStagedUpload g i =
     (case stage_open g (stagedUploadPath i) of Some e \<Rightarrow> Inl e | None \<Rightarrow> Inr (StagedUpload i))"

definition abortStagedUpload :: "stagedir \<Rightarrow> string \<Rightarrow> serr option \<times> stagedir" where
  "abortStagedUpload g i = stage_remove g (stagedUploadPath i)"

text \<open>
  \<open>Write\<close> of both upload kinds: \<open>io.Copy\<close> appends what the reader delivers, also when it then
  fails; the session file is synced and its size returned.  A failing local write appends nothing.
\<close>

definition uploadWrite :: "stagedir \<Rightarrow> upload \<Rightarrow> reader \<Rightarrow> int \<Rightarrow> nat res \<times> stagedir" where
  "uploadWrite g u r now =
     (let name = upload_path u in
      case map_of (sfiles g) name of
        None \<Rightarrow> (Inl ErrIO, g)
      | Some (c, _) \<Rightarrow>
          if sfails g OpCopy name then (Inl ErrIO, g)
          else
            let c' = c @ fst r; g' = g\<lparr>sfiles := AList.update name (c', now) (sfiles g)\<rparr> in
            case snd r of
              Some e \<Rightarrow> (Inl e, g')
            | None \<Rightarrow>
                if sfails g OpSync name \<or> sfails g OpStat name then (Inl ErrIO, g')
                else (Inr (length c'), g'))"

definition uploadReader :: "stagedir \<Rightarrow> upload \<Rightarrow> reader res" where
  "uploadReader g u =
     (let name = upload_path u in
      case map_of (sfiles g) name of
        None \<Rightarrow> Inl ErrIO
      | Some (c, _) \<Rightarrow> if sfails g OpOpen name then Inl ErrIO else Inr (c, None))"

definition fsCommit ::
  "disk \<Rightarrow> stagedir \<Rightarrow> string \<Rightarrow> string \<Rightarrow> (string \<times> nat) res \<times> disk \<times> stagedir" where
  "fsCommit d g i expect =
     (let name = sessionPath i in
      if sfails g OpClose name then (Inl ErrIO, d, g)
      else case map_of (sfiles g) name of
        None \<Rightarrow> (Inl ErrIO, d, g)
      | Some (c, _) \<Rightarrow>
          if sfails g OpOpen name \<or> sfails g OpCopy name then (Inl ErrIO, d, g)
          else
            let digest = ''sha256:'' @ sha256_hex c in
            if expect \<noteq> [] \<and> expect \<noteq> digest then (Inl ErrDigestMismatch, d, g)
            else case blobKey digest of
              Inl e \<Rightarrow> (Inl e, d, g)
            | Inr key \<Rightarrow>
                let dst = keyPath key in
                (case os_stat d dst of
                   Inr _ \<Rightarrow> (Inr (digest, length c), d, snd (stage_remove g name))
                 | Inl _ \<Rightarrow>
                     (case mkdir_all d (butlast dst) of
                        (Some e, d') \<Rightarrow> (Inl e, d', g)
                      | (None, d') \<Rightarrow>
                          (case os_rename_onto d' dst c of
                             (Some e, d'') \<Rightarrow> (Inl e, d'', g)
                           | (None, d'') \<Rightarrow>
                               (Inr (digest, length c), d'', g\<lparr>sfiles := AList.delete name (sfiles g)\<rparr>)))))"

definition fsNative :: "disk native_uploader" where
  "fsNative = \<lparr>nuNew = fsNewUpload, nuGet = fsGetUpload, nuAbort = fsAbortUpload, nuCommit = fsCommit\<rparr>"

definition fsStore :: "disk store_if" where
  "fsStore = \<lparr>obj = fsObjectStore, native = Some fsNative\<rparr>"

definition NewUpload :: "'s store_if \<Rightarrow> 's backend \<Rightarrow> string \<Rightarrow> int \<Rightarrow> upload res \<times> 's backend" where
  "NewUpload S b i now =
     (case (case native S of
              Some nu \<Rightarrow> nuNew nu (staging b) i now
            | None \<Rightarrow> newStagedUpload (staging b) i now) of
        (r, g) \<Rightarrow> (r, b\<lparr>staging := g\<rparr>))"

definition GetUpload :: "'s store_if \<Rightarrow> 's backend \<Rightarrow> string \<Rightarrow> upload res" where
  "GetUpload S b i =
     (case native S of
        Some nu \<Rightarrow> nuGet nu (staging b) i
      | None \<Rightarrow> openStagedUpload (staging b) i)"

definition AbortUpload :: "'s store_if \<Rightarrow> 's backend \<Rightarrow> string \<Rightarrow> serr option \<times> 's backend" where
  "AbortUpload S b i =
     (case (case native S of
              Some nu \<Rightarrow> nuAbort nu (staging b) i
            | None \<Rightarrow> abortStagedUpload (staging b) i) of
        (r, g) \<Rightarrow> (r, b\<lparr>staging := g\<rparr>))"

definition WriteUpload :: "'s backend \<Rightarrow> upload \<Rightarrow> reader \<Rightarrow> int \<Rightarrow> nat res \<times> 's backend" where
  "WriteUpload b u r now =
     (case uploadWrite (staging b) u r now of (x, g) \<Rightarrow> (x, b\<lparr>staging := g\<rparr>))"

definition CommitUpload ::
  "'s store_if \<Rightarrow> 's backend \<Rightarrow> upload \<Rightarrow> string \<Rightarrow> (string \<times> nat) res \<times> 's backend" where
  "CommitUpload S b u expect =
     (case (u, native S) of
        (FsUpload i, Some nu) \<Rightarrow>
          (case nuCommit nu (bobj b) (staging b) i expect of
             (r, s', g') \<Rightarrow> (r, b\<lparr>bobj := s', staging := g'\<rparr>))
      | _ \<Rightarrow>
          (case uploadReader (staging b) u of
             Inl e \<Rightarrow> (Inl e, b)
           | Inr rd \<Rightarrow>
               (case PutBlob S b rd expect of
                  (Inl e, b') \<Rightarrow> (Inl e, b')
                | (Inr r, b') \<Rightarrow> (Inr r, snd (AbortUpload S b' (upload_id u))))))"

section \<open>Manifests, tags and the catalog\<close>

definition invalidateCatalog :: "'s backend \<Rightarrow> 's backend" where
  "invalidateCatalog b = b\<lparr>catalogValid := False, catalogList := [], catalogGen := catalogGen b + 1\<rparr>"

definition PutManifest ::
  "'s store_if \<Rightarrow> 's backend \<Rightarrow> string \<Rightarrow> string \<Rightarrow> string \<Rightarrow> string \<Rightarrow> string res \<times> 's backend" where
  "PutManifest S b repo ref mediaType content =
     (case PutBlob S b (content, None) [] of
        (Inl e, b1) \<Rightarrow> (Inl e, b1)
      | (Inr (digest, _), b1) \<Rightarrow>
          let hexv = (case ParseDigest digest of Inr (_, h) \<Rightarrow> h | Inl _ \<Rightarrow> []) in
          (case oPut (obj S) (bobj b1) (manifestKey repo hexv) mediaType of
             (Some e, s2) \<Rightarrow> (Inl e, b1\<lparr>bobj := s2\<rparr>)
           | (None, s2) \<Rightarrow>
               let b2 = invalidateCatalog (b1\<lparr>bobj := s2\<rparr>) in
               if isDigest ref then (Inr digest, b2)
               else
                 (case oPut (obj S) (bobj b2) (tagKey repo ref) digest of
                    (Some e, s3) \<Rightarrow> (Inl e, b2\<lparr>bobj := s3\<rparr>)
                  | (None, s3) \<Rightarrow> (Inr digest, b2\<lparr>bobj := s3\<rparr>))))"

text \<open>The last part of \<open>GetManifest\<close>, from the resolved digest on.\<close>

definition readManifest ::
  "'s store_if \<Rightarrow> 's backend \<Rightarrow> string \<Rightarrow> string \<Rightarrow> bool \<Rightarrow> (string \<times> string \<times> string) res" where
  "readManifest S b repo digest fromTag =
     (case ParseDigest digest of
        Inl e \<Rightarrow> if fromTag then Inl ErrNotFound else Inl e
      | Inr (_, hexv) \<Rightarrow>
          (case oGet (obj S) (bobj b) (manifestKey repo hexv) of
             Inl e \<Rightarrow> Inl e
           | Inr mt \<Rightarrow>
               (case GetBlob S b digest of
                  Inl e \<Rightarrow> Inl e
                | Inr content \<Rightarrow> Inr (content, digest, mt))))"

definition GetManifest ::
  "'s store_if \<Rightarrow> 's backend \<Rightarrow> string \<Rightarrow> string \<Rightarrow> (string \<times> string \<times> string) res" where
  "GetManifest S b repo ref =
     (if isDigest ref then readManifest S b repo ref False
      else
        (case oGet (obj S) (bobj b) (tagKey repo ref) of
           Inl e \<Rightarrow> Inl e
         | Inr raw \<Rightarrow> readManifest S b repo (trim_space raw) True))"

definition DeleteManifest :: "'s store_if \<Rightarrow> 's backend \<Rightarrow> string \<Rightarrow> string \<Rightarrow> serr option \<times> 's backend" where
  "DeleteManifest S b repo digest =
     (case ParseDigest digest of
        Inl e \<Rightarrow> (Some e, b)
      | Inr (_, hexv) \<Rightarrow>
          let key = manifestKey repo hexv in
          (case oStat (obj S) (bobj b) key of
             Inl e \<Rightarrow> (Some e, b)
           | Inr _ \<Rightarrow>
               (case oDelete (obj S) (bobj b) key of
                  (Some e, s') \<Rightarrow> (Some e, b\<lparr>bobj := s'\<rparr>)
                | (None, s') \<Rightarrow> (None, invalidateCatalog (b\<lparr>bobj := s'\<rparr>)))))"

definition repoDir :: "string \<Rightarrow> string \<Rightarrow> string" where
  "repoDir repo sub = path_join [''repos'', sanitizeRepo repo, sub] @ ''/''"

text \<open>The loop shared by \<open>Tags\<close> and \<open>manifestHexes\<close>: the base names of the listed objects.\<close>

definition file_bases :: "string list \<Rightarrow> string list" where
  "file_bases keys = map path_base (filter (\<lambda>k. \<not> has_suffix k ''/'') keys)"

definition Tags :: "'s store_if \<Rightarrow> 's backend \<Rightarrow> string \<Rightarrow> string list res" where
  "Tags S b repo =
     (case oList (obj S) (bobj b) (repoDir repo ''tags'') ''/'' of
        Inl e \<Rightarrow> Inl e
      | Inr keys \<Rightarrow> Inr (sort (file_bases keys)))"

definition manifestHexes :: "'s store_if \<Rightarrow> 's backend \<Rightarrow> string \<Rightarrow> string list res" where
  "manifestHexes S b repo =
     (case oList (obj S) (bobj b) (repoDir repo ''manifests'') ''/'' of
        Inl e \<Rightarrow> Inl e
      | Inr keys \<Rightarrow> Inr (file_bases keys))"

text \<open>
  \<open>walkRepos\<close> recurses into every listed directory; the first argument bounds the depth, and the
  catalog passes the store's bound, which is enough on every store that keeps the contract.
\<close>

definition repo_of_prefix :: "string \<Rightarrow> string list \<Rightarrow> string list" where
  "repo_of_prefix pre entries =
     (if path_base (trim_suffix pre ''/'') = ''manifests'' \<and> list_ex (\<lambda>e. \<not> has_suffix e ''/'') entries
      then [trim_suffix (trim_suffix (trim_prefix pre ''repos/'') ''/'') ''/manifests'']
      else [])"

fun walkRepos :: "'s object_store \<Rightarrow> nat \<Rightarrow> 's \<Rightarrow> string \<Rightarrow> string list \<Rightarrow> string list res"
  and walkEntries :: "'s object_store \<Rightarrow> nat \<Rightarrow> 's \<Rightarrow> string list \<Rightarrow> string list \<Rightarrow> string list res" where
  "walkRepos O' 0 s pre out = Inl ErrDepth"
| "walkRepos O' (Suc n) s pre out =
     (case oList O' s pre ''/'' of
        Inl e \<Rightarrow> Inl e
      | Inr entries \<Rightarrow> walkEntries O' n s entries (out @ repo_of_prefix pre entries))"
| "walkEntries O' n s [] out = Inr out"
| "walkEntries O' n s (e # es) out =
     (if \<not> has_suffix e ''/'' then walkEntries O' n s es out
      else case walkRepos O' n s e out of
        Inl er \<Rightarrow> Inl er
      | Inr out' \<Rightarrow> walkEntries O' n s es out')"

definition catalogFresh :: "'s backend \<Rightarrow> int \<Rightarrow> bool" where
  "catalogFresh b now \<longleftrightarrow> catalogValid b \<and> now - catalogAt b < catalogTTL b"

definition walkCatalog :: "'s store_if \<Rightarrow> 's \<Rightarrow> string list res" where
  "walkCatalog S s =
     (case walkRepos (obj S) (oBound (obj S) s + 2) s ''repos/'' [] of
        Inl e \<Rightarrow> Inl e | Inr rs \<Rightarrow> Inr (sort rs))"

definition publishCatalog :: "'s backend \<Rightarrow> 64 word \<Rightarrow> string list \<Rightarrow> int \<Rightarrow> 's backend" where
  "publishCatalog b genBefore repos now =
     (if catalogGen b = genBefore
      then b\<lparr>catalogList := repos, catalogAt := now, catalogValid := True\<rparr> else b)"

text \<open>\<open>Repos\<close>; \<open>t1\<close> and \<open>t2\<close> are the two clock readings.\<close>

definition Repos :: "'s store_if \<Rightarrow> 's backend \<Rightarrow> int \<Rightarrow> int \<Rightarrow> string list res \<times> 's backend" where
  "Repos S b t1 t2 =
     (if catalogFresh b t1 then (Inr (catalogList b), b)
      else
        let genBefore = catalogGen b in
        (case walkCatalog S (bobj b) of
           Inl e \<Rightarrow> (Inl e, b)
         | Inr repos \<Rightarrow> (Inr repos, publishCatalog b genBefore repos t2)))"

section \<open>Referrers and usage\<close>

record gcDescriptor =
  dDigest :: string

record descriptor =
  ociMediaType :: string
  ociDigest :: string
  ociSize :: nat
  ociArtifactType :: string
  ociAnnotations :: "(string \<times> string) list"

record referrerManifest =
  rmMediaType :: string
  rmArtifactType :: string
  rmConfigMediaType :: string
  rmSubject :: "gcDescriptor option"
  rmAnnotations :: "(string \<times> string) list"

definition gcManifestReadLimit :: nat where
  "gcManifestReadLimit = 33554432"

definition markerMediaType :: "'s store_if \<Rightarrow> 's backend \<Rightarrow> string \<Rightarrow> string \<Rightarrow> string" where
  "markerMediaType S b repo hexv =
     (let fallback = ''application/vnd.oci.image.manifest.v1+json'' in
      case oGet (obj S) (bobj b) (manifestKey repo hexv) of
        Inl _ \<Rightarrow> fallback
      | Inr raw \<Rightarrow> let mt = trim_space raw in if mt \<noteq> [] then mt else fallback)"

text \<open>The loop body of \<open>Referrers\<close>; \<open>um\<close> is \<open>json.Unmarshal\<close> into \<open>referrerManifest\<close>.\<close>

definition referrer_of ::
  "(string \<Rightarrow> referrerManifest option) \<Rightarrow> 's store_if \<Rightarrow> 's backend \<Rightarrow> string \<Rightarrow> string \<Rightarrow> string \<Rightarrow>
   descriptor list" where
  "referrer_of um S b repo subject hexv =
     (let digest = ''sha256:'' @ hexv in
      case GetBlob S b digest of
        Inl _ \<Rightarrow> []
      | Inr blob \<Rightarrow>
          let data = take gcManifestReadLimit blob in
          (case um data of
             None \<Rightarrow> []
           | Some m \<Rightarrow>
               (case rmSubject m of
                  None \<Rightarrow> []
                | Some sub \<Rightarrow>
                    if dDigest sub \<noteq> subject then []
                    else
                      [\<lparr>ociMediaType = (if rmMediaType m = [] then markerMediaType S b repo hexv else rmMediaType m),
                        ociDigest = digest,
                        ociSize = length data,
                        ociArtifactType = (if rmArtifactType m = [] then rmConfigMediaType m else rmArtifactType m),
                        ociAnnotations = rmAnnotations m\<rparr>])))"

definition Referrers ::
  "(string \<Rightarrow> referrerManifest option) \<Rightarrow> 's store_if \<Rightarrow> 's backend \<Rightarrow> string \<Rightarrow> string \<Rightarrow> descriptor list res" where
  "Referrers um S b repo subject =
     (case ParseDigest subject of
        Inl e \<Rightarrow> Inl e
      | Inr _ \<Rightarrow>
          (case manifestHexes S b repo of
             Inl e \<Rightarrow> Inl e
           | Inr hexes \<Rightarrow> Inr (concat (map (referrer_of um S b repo subject) hexes))))"

fun usage_loop :: "'s object_store \<Rightarrow> 's \<Rightarrow> string list \<Rightarrow> nat \<times> nat \<Rightarrow> (nat \<times> nat) res" where
  "usage_loop O' s [] u = Inr u"
| "usage_loop O' s (key # keys) (blobs, bytes) =
     (if has_suffix key ''/'' then usage_loop O' s keys (blobs, bytes)
      else case oStat O' s key of
        Inl ErrNotFound \<Rightarrow> usage_loop O' s keys (blobs, bytes)
      | Inl e \<Rightarrow> Inl e
      | Inr sz \<Rightarrow> usage_loop O' s keys (blobs + 1, bytes + sz))"

definition Usage :: "'s store_if \<Rightarrow> 's backend \<Rightarrow> (nat \<times> nat) res" where
  "Usage S b =
     (case oList (obj S) (bobj b) ''blobs/sha256/'' [] of
        Inl e \<Rightarrow> Inl e
      | Inr keys \<Rightarrow> usage_loop (obj S) (bobj b) keys (0, 0))"

section \<open>Reaping stale uploads\<close>

definition stagingPrefixes :: "string list" where
  "stagingPrefixes = [''session-'', ''upload-'', ''s3upload-'', ''put-'', ''blob-'']"

definition hasStagingPrefix :: "string \<Rightarrow> bool" where
  "hasStagingPrefix name = list_ex (has_prefix name) stagingPrefixes"

definition DefaultUploadTTL :: int where
  "DefaultUploadTTL = 24 * 3600 * 1000000000"

definition defaultCatalogTTL :: int where
  "defaultCatalogTTL = 5 * 1000000000"

definition stale :: "stagedir \<Rightarrow> int \<Rightarrow> string \<times> string \<times> int \<Rightarrow> bool" where
  "stale g cutoff = (\<lambda>(name, _, mtime).
     hasStagingPrefix name \<and> \<not> sfails g OpStat name \<and> \<not> mtime > cutoff \<and> \<not> sfails g OpRemove name)"

definition SweepStaleUploads :: "stagedir \<Rightarrow> int \<Rightarrow> int \<Rightarrow> nat res \<times> stagedir" where
  "SweepStaleUploads g ttl now =
     (if sfails g OpReadDir [] then (Inl ErrIO, g)
      else
        let ttl' = (if ttl \<le> 0 then DefaultUploadTTL else ttl); cutoff = now - ttl';
            dead = filter (stale g cutoff) (sfiles g)
        in (Inr (length dead), g\<lparr>sfiles := filter (\<lambda>f. \<not> stale g cutoff f) (sfiles g)\<rparr>))"

text \<open>\<open>NewBackend\<close>: a fresh catalog cache over the store and a swept staging directory.\<close>

definition NewBackend :: "'s \<Rightarrow> stagedir \<Rightarrow> int \<Rightarrow> 's backend" where
  "NewBackend s g now =
     \<lparr>bobj = s, staging = snd (SweepStaleUploads g DefaultUploadTTL now), catalogList = [],
      catalogAt = 0, catalogValid = False, catalogGen = 0, catalogTTL = defaultCatalogTTL\<rparr>"

section \<open>Facts about digests and keys\<close>

definition hexdigest :: "string \<Rightarrow> bool" where
  "hexdigest h \<longleftrightarrow> length h = 64 \<and> list_all is_hex_char h"

definition blob_path :: "string \<Rightarrow> string" where
  "blob_path h = ''blobs/sha256'' @ ''/'' @ take 2 h @ ''/'' @ h"

lemma hexdigest_sha [simp]: "hexdigest (sha256_hex c)"
  by (simp add: hexdigest_def sha256_hex_digits)

lemma ParseDigest_hex: "hexdigest h \<Longrightarrow> ParseDigest (''sha256:'' @ h) = Inr (''sha256'', h)"
  using index_byte_append [of "CHR '':''" "''sha256''" h]
  by (simp add: ParseDigest_def hexdigest_def hex_decodable_def)

lemma ParseDigest_InrD:
  assumes "ParseDigest d = Inr (a, h)"
  shows "d = ''sha256:'' @ h \<and> a = ''sha256'' \<and> hexdigest h"
proof -
  obtain i where i: "index_byte CHR '':'' d = Some i" "take i d = ''sha256''" "h = drop (Suc i) d"
    "a = ''sha256''" "hexdigest h"
    using assms by (auto simp: ParseDigest_def hexdigest_def hex_decodable_def Let_def
        split: option.splits if_splits)
  then have "d ! i = CHR '':''" "i < length d" using index_byte_SomeD by auto
  then have "d = take i d @ d ! i # drop (Suc i) d" by (rule_tac id_take_nth_drop) auto
  with i \<open>d ! i = CHR '':''\<close> show ?thesis by simp
qed

lemma isDigest_iff: "isDigest d \<longleftrightarrow> (\<exists>h. d = ''sha256:'' @ h \<and> hexdigest h)"
  unfolding isDigest_def
  by (auto split: sum.splits dest: ParseDigest_InrD simp del: append_Cons simp: ParseDigest_hex)

lemma hexdigest_clean_seg:
  assumes "list_all is_hex_char h" "h \<noteq> []"
  shows "clean_seg h"
proof -
  have "CHR ''/'' \<notin> set h" "CHR ''.'' \<notin> set h"
    using assms is_hex_charD(1,2) by (auto simp: list_all_iff)
  moreover from this(2) assms(2) have "h \<noteq> ''.''" "h \<noteq> ''..''" by auto
  ultimately show ?thesis using assms(2) by (simp add: clean_seg_def)
qed

lemma hexdigest_segs: "hexdigest h \<Longrightarrow> clean_seg h" "hexdigest h \<Longrightarrow> clean_seg (take 2 h)"
proof -
  show "hexdigest h \<Longrightarrow> clean_seg h" by (rule hexdigest_clean_seg) (auto simp: hexdigest_def)
  show "hexdigest h \<Longrightarrow> clean_seg (take 2 h)"
    by (rule hexdigest_clean_seg) (auto simp: hexdigest_def list_all_iff dest: in_set_takeD)
qed

lemma clean_lits:
  "clean_seg ''blobs''" "clean_seg ''sha256''" "clean_seg ''repos''" "clean_seg ''manifests''"
  "clean_seg ''tags''" "clean_seg ''_''"
  by (simp_all add: clean_seg_def)

lemma blob_path_join: "blob_path h = join_with ''/'' [''blobs'', ''sha256'', take 2 h, h]"
  by (simp add: blob_path_def)

lemma clean_blob_path: "hexdigest h \<Longrightarrow> clean_path (blob_path h)"
  by (simp only: blob_path_join clean_path_join list.distinct not_False_eq_True if_True)
    (simp add: hexdigest_segs clean_lits clean_path_seg)

lemma blobKey_hex:
  assumes "hexdigest h"
  shows "blobKey (''sha256:'' @ h) = Inr (blob_path h)"
proof -
  have "path_join [''blobs'', ''sha256'', take 2 h, h] = blob_path h"
    unfolding blob_path_join
    by (rule path_join_clean) (use assms in \<open>auto simp: hexdigest_segs clean_lits clean_path_seg\<close>)
  then show ?thesis unfolding blobKey_def ParseDigest_hex [OF assms] by simp
qed

lemma blobKey_InrD: "blobKey d = Inr k \<Longrightarrow> \<exists>h. d = ''sha256:'' @ h \<and> hexdigest h \<and> k = blob_path h"
proof -
  assume b: "blobKey d = Inr k"
  then obtain a h where "ParseDigest d = Inr (a, h)" by (auto simp: blobKey_def split: sum.splits)
  from ParseDigest_InrD [OF this] b blobKey_hex [of h] show ?thesis by auto
qed

lemma blobKey_isDigest: "isDigest d \<longleftrightarrow> (\<exists>k. blobKey d = Inr k)"
  by (auto simp: isDigest_def blobKey_def split: sum.splits)

lemma blob_path_inject: "hexdigest h \<Longrightarrow> hexdigest h' \<Longrightarrow> blob_path h = blob_path h' \<longleftrightarrow> h = h'"
  by (auto simp: blob_path_def hexdigest_def)

lemma blob_path_base: "hexdigest h \<Longrightarrow> path_base (blob_path h) = h"
  using path_base_append(1) [OF hexdigest_segs(1), of h "''blobs/sha256/'' @ take 2 h"]
  by (simp add: blob_path_def)

subsection \<open>Sanitizing\<close>

definition fix_seg :: "string \<Rightarrow> string" where
  "fix_seg p = (if p = [] \<or> p = ''.'' \<or> p = ''..'' then ''_'' else p)"

lemma sanitizeRepo_fix: "sanitizeRepo r = join_with ''/'' (map fix_seg (slash_segs r))"
  unfolding sanitizeRepo_def fix_seg_def [abs_def] by (rule refl)

lemma clean_fix_seg: "CHR ''/'' \<notin> set p \<Longrightarrow> clean_seg (fix_seg p)"
  using clean_lits(6) by (simp add: fix_seg_def clean_seg_def)

lemma clean_sanitizeRepo: "clean_path (sanitizeRepo r)"
proof -
  have "\<forall>e \<in> set (map fix_seg (slash_segs r)). clean_path e"
    by (auto intro!: clean_path_seg clean_fix_seg dest: slash_segs_no_slash)
  then show ?thesis unfolding sanitizeRepo_fix by (subst clean_path_join) auto
qed

lemma sanitizeRepo_id: "clean_path r \<Longrightarrow> sanitizeRepo r = r"
proof -
  assume "clean_path r"
  then have "map fix_seg (slash_segs r) = slash_segs r"
    by (intro map_idI) (auto simp: clean_path_def fix_seg_def clean_seg_def)
  then show ?thesis by (simp add: sanitizeRepo_fix)
qed

lemma sanitizeRepo_idem: "sanitizeRepo (sanitizeRepo r) = sanitizeRepo r"
  by (simp add: sanitizeRepo_id clean_sanitizeRepo)

lemma sanitize_no_slash: "CHR ''/'' \<notin> set (sanitize s) \<and> CHR 0x5C \<notin> set (sanitize s)"
  by (induction s rule: sanitize.induct) auto

lemma sanitize_hd: "sanitize s \<noteq> [] \<Longrightarrow> hd (sanitize s) = CHR ''.'' \<Longrightarrow> hd s = CHR ''.''"
  by (cases s rule: sanitize.cases) (simp_all split: if_split_asm)

lemma sanitize_eq_Nil [simp]: "sanitize s = [] \<longleftrightarrow> s = []"
  by (cases s rule: sanitize.cases) simp_all

lemma sanitize_idem: "sanitize (sanitize s) = sanitize s"
proof (induction s rule: sanitize.induct)
  case (3 c e cs)
  show ?case
  proof (cases "c = CHR ''/'' \<or> c = CHR 0x5C \<or> c = CHR ''.'' \<and> e = CHR ''.''")
    case True
    then obtain t where t: "sanitize (c # e # cs) = CHR ''_'' # sanitize t" "sanitize (sanitize t) = sanitize t"
      using 3 by (auto split: if_splits)
    then show ?thesis by (cases "sanitize t") auto
  next
    case False
    then have "sanitize (c # e # cs) = c # sanitize (e # cs)" by auto
    moreover have "sanitize (c # sanitize (e # cs)) = c # sanitize (sanitize (e # cs))"
      using False sanitize_hd [of "e # cs"] by (cases "sanitize (e # cs)") auto
    ultimately show ?thesis using 3(3) False by auto
  qed
qed auto

lemma sanitize_not_dotdot: "sanitize s \<noteq> ''..''"
proof
  assume a: "sanitize s = ''..''"
  from sanitize_idem [of s] show False unfolding a by simp
qed

end
