(* ===== verification/CasFacts.thy ===== *)
theory CasFacts
  imports Cas
begin

text \<open>
  The correctness of the storage layer.  The locale \<open>cas_store\<close> extends the object store
  contract by what a native uploader promises about its commit; every fact about the CAS, the
  uploads, the manifests and the tags is proved once inside it.  The filesystem backend
  interprets it.
\<close>

section \<open>Invariants\<close>

definition blobs_plain :: "('s \<Rightarrow> string \<Rightarrow> bool) \<Rightarrow> 's \<Rightarrow> bool" where
  "blobs_plain plain s \<longleftrightarrow> (\<forall>h. hexdigest h \<longrightarrow> plain s (blob_path h))"

text \<open>Content addressing: what is stored under a digest hashes to it.\<close>

definition blobs_addressed :: "(string \<Rightarrow> string option) \<Rightarrow> bool" where
  "blobs_addressed m \<longleftrightarrow> (\<forall>h c. hexdigest h \<longrightarrow> m (blob_path h) = Some c \<longrightarrow> sha256_hex c = h)"

definition cas_inv ::
  "('s \<Rightarrow> string \<Rightarrow> string option) \<Rightarrow> ('s \<Rightarrow> bool) \<Rightarrow> ('s \<Rightarrow> string \<Rightarrow> bool) \<Rightarrow> 's \<Rightarrow> bool" where
  "cas_inv view ok plain s \<longleftrightarrow>
     ok s \<and> blobs_plain plain s \<and> blobs_addressed (view s) \<and> view s ''blobs/sha256'' = None"

text \<open>A tag that names one path segment.\<close>

definition tag_name :: "string \<Rightarrow> bool" where
  "tag_name t \<longleftrightarrow> t \<noteq> [] \<and> t \<noteq> ''.''"

text \<open>No tag dangles: it names a digest whose marker and content blob exist.\<close>

definition tags_ok :: "(string \<Rightarrow> string option) \<Rightarrow> bool" where
  "tags_ok m \<longleftrightarrow>
     (\<forall>repo tag d. tag_name (sanitize tag) \<longrightarrow> m (tagKey repo tag) = Some d \<longrightarrow>
        (\<exists>h. hexdigest h \<and> d = ''sha256:'' @ h \<and> m (manifestKey repo h) \<noteq> None \<and> m (blob_path h) \<noteq> None))"

section \<open>Keys\<close>

lemma manifestKey_join: "hexdigest h \<Longrightarrow>
  manifestKey repo h = join_with ''/'' [''repos'', sanitizeRepo repo, ''manifests'', h]"
  unfolding manifestKey_def
  by (rule path_join_clean) (auto simp: clean_sanitizeRepo clean_lits clean_path_seg hexdigest_segs)

lemma clean_tag: "tag_name (sanitize tag) \<Longrightarrow> clean_seg (sanitize tag)"
  using sanitize_no_slash sanitize_not_dotdot by (simp add: clean_seg_def tag_name_def)

lemma tagKey_join: "tag_name (sanitize tag) \<Longrightarrow>
  tagKey repo tag = join_with ''/'' [''repos'', sanitizeRepo repo, ''tags'', sanitize tag]"
  unfolding tagKey_def
  by (rule path_join_clean) (auto simp: clean_sanitizeRepo clean_lits clean_path_seg clean_tag)

lemma slash_segs_seg: "clean_seg x \<Longrightarrow> slash_segs x = [x]"
  by (simp add: clean_seg_def slash_segs_single)

lemma manifestKey_segs: "hexdigest h \<Longrightarrow>
  slash_segs (manifestKey repo h) = ''repos'' # slash_segs (sanitizeRepo repo) @ [''manifests'', h]"
  by (simp only: manifestKey_join slash_segs_join_concat list.distinct not_False_eq_True if_True)
    (simp add: slash_segs_seg clean_lits hexdigest_segs)

lemma tagKey_segs: "tag_name (sanitize tag) \<Longrightarrow>
  slash_segs (tagKey repo tag) = ''repos'' # slash_segs (sanitizeRepo repo) @ [''tags'', sanitize tag]"
  by (simp only: tagKey_join slash_segs_join_concat list.distinct not_False_eq_True if_True)
    (simp add: slash_segs_seg clean_lits clean_tag)

lemma tagKey_degenerate:
  assumes "\<not> tag_name (sanitize tag)"
  shows "tagKey repo tag = join_with ''/'' [''repos'', sanitizeRepo repo, ''tags'']"
proof -
  have "\<forall>e \<in> set [''repos'', sanitizeRepo repo, ''tags'']. clean_path e"
    by (auto simp: clean_sanitizeRepo clean_lits clean_path_seg)
  then have c: "clean_path (join_with ''/'' [''repos'', sanitizeRepo repo, ''tags''])"
    by (subst clean_path_join) auto
  have ne: "sanitizeRepo repo \<noteq> []" using clean_path_not_Nil clean_sanitizeRepo by blast
  show ?thesis
  proof (cases "sanitize tag = []")
    case True
    with ne c show ?thesis by (simp add: tagKey_def path_join_def path_clean_id)
  next
    case False
    let ?p = "join_with ''/'' [''repos'', sanitizeRepo repo, ''tags'']"
    from False assms have dot: "sanitize tag = ''.''" by (simp add: tag_name_def)
    have "path_clean (?p @ ''/'' @ ''.'') = ?p"
    proof -
      have "slash_segs (?p @ ''/'' @ ''.'') = slash_segs ?p @ [''.'']"
        by (simp only: slash_segs_append) (simp add: slash_segs_def)
      moreover have "clean_segs False (slash_segs ?p @ [''.'']) = slash_segs ?p"
        using clean_segs_id [of "slash_segs ?p"] c by (simp add: clean_segs_def clean_path_def)
      moreover have "\<not> has_prefix (?p @ ''/'' @ ''.'') ''/''" by (simp add: has_prefix_def)
      ultimately show ?thesis
        by (simp only: path_clean_def Let_def slash_segs_def [symmetric] if_False) simp
    qed
    moreover have "join_with ''/'' [''repos'', sanitizeRepo repo, ''tags'', ''.''] = ?p @ ''/'' @ ''.''"
      by simp
    ultimately show ?thesis using ne by (simp add: tagKey_def path_join_def dot)
  qed
qed

lemma clean_manifestKey: "hexdigest h \<Longrightarrow> clean_path (manifestKey repo h)"
  by (simp only: manifestKey_join clean_path_join list.distinct not_False_eq_True)
    (simp add: clean_sanitizeRepo clean_lits clean_path_seg hexdigest_segs)

lemma clean_tagKey: "clean_path (tagKey repo tag)"
proof (cases "tag_name (sanitize tag)")
  case True
  then show ?thesis
    by (simp only: tagKey_join clean_path_join list.distinct not_False_eq_True)
      (simp add: clean_sanitizeRepo clean_lits clean_path_seg clean_tag)
next
  case False
  then show ?thesis
    by (simp only: tagKey_degenerate clean_path_join list.distinct not_False_eq_True)
      (simp add: clean_sanitizeRepo clean_lits clean_path_seg)
qed

definition repo_key :: "string \<Rightarrow> bool" where
  "repo_key k \<longleftrightarrow> has_prefix k ''repos/''"

lemma repo_key_manifest [simp]: "hexdigest h \<Longrightarrow> repo_key (manifestKey repo h)"
  by (simp add: manifestKey_join repo_key_def has_prefix_def)

lemma repo_key_tag [simp]: "repo_key (tagKey repo tag)"
  by (cases "tag_name (sanitize tag)")
    (simp_all add: tagKey_join tagKey_degenerate repo_key_def has_prefix_def)

lemma repo_key_not_blob:
  assumes "repo_key k"
  shows "k \<noteq> blob_path h" "blob_path h \<noteq> k" "\<not> has_prefix k (blob_path h @ ''/'')" "k \<noteq> ''blobs/sha256''"
  using assms by (auto simp: repo_key_def has_prefix_iff blob_path_def)

lemma blob_not_below_blob:
  assumes "hexdigest h" "hexdigest h'"
  shows "\<not> has_prefix (blob_path h) (blob_path h' @ ''/'')"
proof -
  have "length (blob_path h) = length (blob_path h')"
    using assms by (simp add: blob_path_def hexdigest_def)
  then show ?thesis by (auto simp: has_prefix_iff)
qed

lemma hexdigest_not_lit: "hexdigest h \<Longrightarrow> h \<noteq> ''tags''"
  by (auto simp: hexdigest_def)

lemma manifest_not_tag:
  assumes "hexdigest h"
  shows "manifestKey repo h \<noteq> tagKey repo' tag"
proof
  assume "manifestKey repo h = tagKey repo' tag"
  then have eq: "slash_segs (manifestKey repo h) = slash_segs (tagKey repo' tag)" by simp
  show False
  proof (cases "tag_name (sanitize tag)")
    case True
    with eq have "butlast (slash_segs (sanitizeRepo repo) @ [''manifests'', h]) =
        butlast (slash_segs (sanitizeRepo repo') @ [''tags'', sanitize tag])"
      using assms by (simp add: manifestKey_segs tagKey_segs)
    then show False by (simp add: butlast_append)
  next
    case False
    then have "slash_segs (tagKey repo' tag) = ''repos'' # slash_segs (sanitizeRepo repo') @ [''tags'']"
      by (simp only: tagKey_degenerate slash_segs_join_concat list.distinct not_False_eq_True)
        (simp add: slash_segs_seg clean_lits)
    with eq have "last (slash_segs (sanitizeRepo repo) @ [''manifests'', h]) =
        last (slash_segs (sanitizeRepo repo') @ [''tags''])"
      using assms by (simp add: manifestKey_segs)
    then show False using hexdigest_not_lit [OF assms] by simp
  qed
qed

lemma tagKey_inject:
  assumes "tag_name (sanitize t)" "tag_name (sanitize t')"
  shows "tagKey r t = tagKey r' t' \<longleftrightarrow> sanitizeRepo r = sanitizeRepo r' \<and> sanitize t = sanitize t'"
  using assms slash_segs_inject [of "tagKey r t" "tagKey r' t'"] slash_segs_inject [of "sanitizeRepo r" "sanitizeRepo r'"]
  by (auto simp: tagKey_segs)

lemma manifestKey_inject:
  assumes "hexdigest h" "hexdigest h'"
  shows "manifestKey r h = manifestKey r' h' \<longleftrightarrow> sanitizeRepo r = sanitizeRepo r' \<and> h = h'"
  using assms slash_segs_inject [of "manifestKey r h" "manifestKey r' h'"]
    slash_segs_inject [of "sanitizeRepo r" "sanitizeRepo r'"]
  by (auto simp: manifestKey_segs)

lemma manifestKey_sanitized: "manifestKey (sanitizeRepo r) h = manifestKey r h"
  by (simp add: manifestKey_def sanitizeRepo_idem)

lemma tagKey_sanitized: "tagKey (sanitizeRepo r) (sanitize t) = tagKey r t"
  by (simp add: tagKey_def sanitizeRepo_idem sanitize_idem)

lemma trim_space_digest:
  assumes "hexdigest h"
  shows "trim_space (''sha256:'' @ h) = ''sha256:'' @ h"
proof (rule trim_space_id)
  have ne: "h \<noteq> []" and hx: "\<And>x. x \<in> set h \<Longrightarrow> is_hex_char x"
    using assms by (auto simp: hexdigest_def list_all_iff)
  have "last (''sha256:'' @ h) = last h" using ne by (rule last_appendR)
  moreover have "is_hex_char (last h)" using ne hx by simp
  ultimately show "0x20 < (of_char (last (''sha256:'' @ h)) :: nat)" "(of_char (last (''sha256:'' @ h)) :: nat) < 0x80"
    using is_hex_charD(4,5) by simp_all
qed simp_all

section \<open>The storage layer over any store\<close>

text \<open>
  \<open>commit_spec\<close> is what \<open>CommitUpload\<close> relies on for an upload that commits itself: the bytes it
  hashed are those of the session, and they end up under their own digest, or were there.
\<close>

definition stored :: "(string \<Rightarrow> string option) \<Rightarrow> (string \<Rightarrow> string option) \<Rightarrow> string \<Rightarrow> bool" where
  "stored m m' c \<longleftrightarrow>
     (let k = blob_path (sha256_hex c) in m' = m(k \<mapsto> c) \<or> m' = m \<and> m k \<noteq> None)"

definition put_result :: "(string \<Rightarrow> string option) \<Rightarrow> (string \<Rightarrow> string option) \<Rightarrow> string \<Rightarrow> string \<Rightarrow>
    (string \<times> nat) res \<Rightarrow> bool" where
  "put_result m m' c expect r =
     (case r of
        Inl _ \<Rightarrow> m' = m
      | Inr (dg, n) \<Rightarrow> dg = ''sha256:'' @ sha256_hex c \<and> n = length c \<and> (expect = [] \<or> expect = dg) \<and> stored m m' c)"

locale cas_store = object_store_spec "obj S" view inv plain
  for S :: "'s store_if" and view :: "'s \<Rightarrow> string \<Rightarrow> string option"
    and inv :: "'s \<Rightarrow> bool" and plain :: "'s \<Rightarrow> string \<Rightarrow> bool" +
  assumes commit_spec: "native S = Some nu \<Longrightarrow> inv s \<Longrightarrow> blobs_plain plain s \<Longrightarrow>
      nuCommit nu s g i expect = (r, s', g') \<Longrightarrow>
      inv s' \<and> blobs_plain plain s' \<and>
      (\<exists>c. put_result (view s) (view s') c expect r \<and>
           (\<forall>x. r = Inr x \<longrightarrow> (\<exists>t. map_of (sfiles g) (sessionPath i) = Some (c, t))))"
begin

abbreviation cas :: "'s \<Rightarrow> bool" where
  "cas \<equiv> cas_inv view inv plain"

lemma casD: "cas s \<Longrightarrow> inv s" "cas s \<Longrightarrow> blobs_plain plain s" "cas s \<Longrightarrow> blobs_addressed (view s)"
  "cas s \<Longrightarrow> view s ''blobs/sha256'' = None"
  by (simp_all add: cas_inv_def)

lemma stored_addressed: "stored m m' c \<Longrightarrow> blobs_addressed m \<Longrightarrow> blobs_addressed m'"
  by (auto simp: stored_def blobs_addressed_def Let_def blob_path_inject split: if_splits)

lemma blob_path_not_root: "blob_path h \<noteq> ''blobs/sha256''"
  by (simp add: blob_path_def)

lemma stored_cas:
  "cas s \<Longrightarrow> inv s' \<Longrightarrow> blobs_plain plain s' \<Longrightarrow> stored (view s) (view s') c \<Longrightarrow> cas s'"
  using blob_path_not_root [symmetric] stored_addressed
  by (auto simp: cas_inv_def stored_def Let_def)

lemma put_result_cas:
  "cas s \<Longrightarrow> inv s' \<Longrightarrow> blobs_plain plain s' \<Longrightarrow> put_result (view s) (view s') c ex r \<Longrightarrow> cas s'"
  by (auto simp: put_result_def split: sum.splits intro: stored_cas) (auto simp: cas_inv_def)

lemma put_plain_blobs:
  assumes "inv s" "clean_path k" "oPut (obj S) s k c = (r, s')" "blobs_plain plain s"
    and "\<And>h. hexdigest h \<Longrightarrow> \<not> has_prefix k (blob_path h @ ''/'')"
  shows "blobs_plain plain s'"
  using assms put_plain [OF assms(1-3)] clean_blob_path by (auto simp: blobs_plain_def)

lemma PutBlob_spec:
  assumes "cas (bobj b)" "PutBlob S b r expect = (res, b')"
  shows "cas (bobj b') \<and> put_result (view (bobj b)) (view (bobj b')) (fst r) expect res \<and>
    (\<forall>x. res = Inr x \<longrightarrow> snd r = None) \<and> b' = b\<lparr>bobj := bobj b'\<rparr>"
proof -
  let ?c = "fst r" and ?h = "sha256_hex (fst r)"
  have key: "blobKey (''sha256:'' @ ?h) = Inr (blob_path ?h)" by (simp only: blobKey_hex hexdigest_sha)
  have cl: "clean_path (blob_path ?h)" by (simp add: clean_blob_path)
  note inv = casD [OF assms(1)]
  have same: ?thesis if "b' = b" "\<exists>e. res = Inl e"
    using that assms(1) by (auto simp: put_result_def)
  show ?thesis
  proof (cases "sfails (staging b) OpTemp ''blob-'' \<or> snd r \<noteq> None \<or> sfails (staging b) OpCopy ''blob-'' \<or>
      expect \<noteq> [] \<and> expect \<noteq> ''sha256:'' @ ?h")
    case True
    then show ?thesis using assms(2) unfolding PutBlob_def Let_def
      by (intro same) (auto split: if_splits option.splits)
  next
    case False
    then have eq: "(res, b') = (case oStat (obj S) (bobj b) (blob_path ?h) of
        Inr _ \<Rightarrow> (Inr (''sha256:'' @ ?h, length ?c), b)
      | Inl _ \<Rightarrow> (case oPut (obj S) (bobj b) (blob_path ?h) ?c of
          (Some e, s') \<Rightarrow> (Inl e, b\<lparr>bobj := s'\<rparr>)
        | (None, s') \<Rightarrow> (Inr (''sha256:'' @ ?h, length ?c), b\<lparr>bobj := s'\<rparr>)))"
      using assms(2) unfolding PutBlob_def Let_def key by (auto split: sum.splits prod.splits option.splits)
    show ?thesis
    proof (cases "oStat (obj S) (bobj b) (blob_path ?h)")
      case (Inr n)
      have "plain (bobj b) (blob_path ?h)" using inv(2) by (simp add: blobs_plain_def)
      from stat_ok [OF inv(1) cl this Inr] obtain c' where "view (bobj b) (blob_path ?h) = Some c'" by blast
      with Inr eq False assms(1) show ?thesis by (auto simp: put_result_def stored_def Let_def)
    next
      case (Inl e)
      obtain pr s' where p: "oPut (obj S) (bobj b) (blob_path ?h) ?c = (pr, s')" by fastforce
      have i': "inv s'" using put_inv [OF inv(1) cl p] .
      have pl: "blobs_plain plain s'"
        by (rule put_plain_blobs [OF inv(1) cl p inv(2)]) (simp add: blob_not_below_blob)
      show ?thesis
      proof (cases pr)
        case None
        have v: "view s' = (view (bobj b))(blob_path ?h \<mapsto> ?c)" using put_ok [OF inv(1) cl] p None by simp
        then have "stored (view (bobj b)) (view s') ?c" by (simp add: stored_def)
        with Inl eq p None False stored_cas [OF assms(1) i' pl] show ?thesis
          by (auto simp: put_result_def)
      next
        case (Some er)
        have "view s' = view (bobj b)" using put_err [OF inv(1) cl] p Some by simp
        with Inl eq p Some False i' pl assms(1) show ?thesis
          by (auto simp: put_result_def cas_inv_def)
      qed
    qed
  qed
qed

end

text \<open>How far a \<open>PutManifest\<close> got: a failure after any of its writes leaves one of these key spaces.\<close>

definition manifest_progress ::
  "(string \<Rightarrow> string option) \<Rightarrow> (string \<Rightarrow> string option) \<Rightarrow> string \<Rightarrow> string \<Rightarrow> string \<Rightarrow> string \<Rightarrow> bool" where
  "manifest_progress m m' repo ref mt c \<longleftrightarrow>
     m' = m \<or>
     (\<exists>m1. stored m m1 c \<and>
        (let h = sha256_hex c; m2 = m1(manifestKey repo h \<mapsto> mt) in
         m' = m1 \<or> m' = m2 \<or> \<not> isDigest ref \<and> m' = m2(tagKey repo ref \<mapsto> ''sha256:'' @ h)))"

definition manifest_done ::
  "(string \<Rightarrow> string option) \<Rightarrow> (string \<Rightarrow> string option) \<Rightarrow> string \<Rightarrow> string \<Rightarrow> string \<Rightarrow> string \<Rightarrow> bool" where
  "manifest_done m m' repo ref mt c \<longleftrightarrow>
     (\<exists>m1. stored m m1 c \<and>
        (let h = sha256_hex c; m2 = m1(manifestKey repo h \<mapsto> mt) in
         m' = (if isDigest ref then m2 else m2(tagKey repo ref \<mapsto> ''sha256:'' @ h))))"

lemma stored_blob: "stored m m' c \<Longrightarrow> m' (blob_path (sha256_hex c)) \<noteq> None"
  by (auto simp: stored_def Let_def)

lemma stored_other: "stored m m' c \<Longrightarrow> k \<noteq> blob_path (sha256_hex c) \<Longrightarrow> m' k = m k"
  by (auto simp: stored_def Let_def)

lemma stored_mono: "stored m m' c \<Longrightarrow> m k \<noteq> None \<Longrightarrow> m' k \<noteq> None"
  by (auto simp: stored_def Let_def)

lemma tags_okD:
  assumes "tags_ok m" "tag_name (sanitize tag)" "m (tagKey repo tag) = Some d"
  obtains h where "hexdigest h" "d = ''sha256:'' @ h" "m (manifestKey repo h) \<noteq> None" "m (blob_path h) \<noteq> None"
  using assms unfolding tags_ok_def by blast

lemma tags_ok_mono:
  assumes "tags_ok m"
    and "\<And>repo tag. m' (tagKey repo tag) = m (tagKey repo tag)"
    and "\<And>k. m k \<noteq> None \<Longrightarrow> m' k \<noteq> None"
  shows "tags_ok m'"
  unfolding tags_ok_def
proof (intro allI impI)
  fix repo tag d
  assume "tag_name (sanitize tag)" "m' (tagKey repo tag) = Some d"
  with assms(2) have "m (tagKey repo tag) = Some d" by simp
  from tags_okD [OF assms(1) \<open>tag_name (sanitize tag)\<close> this] assms(3)
  show "\<exists>h. hexdigest h \<and> d = ''sha256:'' @ h \<and> m' (manifestKey repo h) \<noteq> None \<and> m' (blob_path h) \<noteq> None"
    by metis
qed

lemma tags_ok_stored: "stored m m' c \<Longrightarrow> tags_ok m \<Longrightarrow> tags_ok m'"
  by (rule tags_ok_mono [of m])
    (simp_all add: stored_other [of m m' c] repo_key_not_blob(1) stored_mono [of m m' c])

lemma tags_ok_marker: "tags_ok m \<Longrightarrow> hexdigest h \<Longrightarrow> tags_ok (m(manifestKey repo h \<mapsto> mt))"
  by (rule tags_ok_mono [of m]) (simp_all add: manifest_not_tag [symmetric])

lemma tags_ok_tag:
  assumes "tags_ok m" "hexdigest h" "tag_name (sanitize tag)" "m (manifestKey repo h) \<noteq> None" "m (blob_path h) \<noteq> None"
  shows "tags_ok (m(tagKey repo tag \<mapsto> ''sha256:'' @ h))"
  unfolding tags_ok_def
proof (intro allI impI)
  fix r t d
  assume t: "tag_name (sanitize t)" "(m(tagKey repo tag \<mapsto> ''sha256:'' @ h)) (tagKey r t) = Some d"
  have mk: "(m(tagKey repo tag \<mapsto> ''sha256:'' @ h)) (manifestKey r h') = m (manifestKey r h')"
    and bk: "(m(tagKey repo tag \<mapsto> ''sha256:'' @ h)) (blob_path h') = m (blob_path h')"
    if "hexdigest h'" for h'
    using manifest_not_tag [OF that] repo_key_not_blob(1,2) [OF repo_key_tag] by (auto split: if_splits)
  show "\<exists>h'. hexdigest h' \<and> d = ''sha256:'' @ h' \<and>
      (m(tagKey repo tag \<mapsto> ''sha256:'' @ h)) (manifestKey r h') \<noteq> None \<and>
      (m(tagKey repo tag \<mapsto> ''sha256:'' @ h)) (blob_path h') \<noteq> None"
  proof (cases "tagKey r t = tagKey repo tag")
    case False
    with t(2) have "m (tagKey r t) = Some d" by simp
    with assms(1) t(1) obtain h' where "hexdigest h'" "d = ''sha256:'' @ h'" "m (manifestKey r h') \<noteq> None"
      "m (blob_path h') \<noteq> None" by (rule tags_okD)
    with mk bk show ?thesis by metis
  next
    case True
    with assms(3) t(1) have "sanitizeRepo r = sanitizeRepo repo" by (simp add: tagKey_inject)
    then have "manifestKey r h = manifestKey repo h"
      using manifestKey_sanitized [of r] manifestKey_sanitized [of repo] by metis
    with t(2) True assms mk bk show ?thesis by auto
  qed
qed

lemma manifest_done_progress: "manifest_done m m' repo ref mt c \<Longrightarrow> manifest_progress m m' repo ref mt c"
  unfolding manifest_done_def manifest_progress_def Let_def
  by (elim exE conjE, rule disjI2, rule exI, rule conjI, assumption) simp

lemma tags_ok_progress:
  assumes "manifest_progress m m' repo ref mt c" "tags_ok m" "isDigest ref \<or> tag_name (sanitize ref)"
  shows "tags_ok m'"
proof -
  let ?h = "sha256_hex c"
  consider "m' = m" | m1 where "stored m m1 c" "m' = m1"
    | m1 where "stored m m1 c" "m' = m1(manifestKey repo ?h \<mapsto> mt)"
    | m1 where "stored m m1 c" "\<not> isDigest ref"
        "m' = m1(manifestKey repo ?h \<mapsto> mt, tagKey repo ref \<mapsto> ''sha256:'' @ ?h)"
    using assms(1) unfolding manifest_progress_def Let_def by blast
  then show ?thesis
  proof cases
    case 4
    have ok: "tags_ok (m1(manifestKey repo ?h \<mapsto> mt))"
      using tags_ok_marker [OF tags_ok_stored [OF 4(1) assms(2)]] by simp
    have "(m1(manifestKey repo ?h \<mapsto> mt)) (blob_path ?h) \<noteq> None"
      using stored_blob [OF 4(1)] by simp
    with ok 4(2) assms(3) show ?thesis unfolding 4(3) by (intro tags_ok_tag) auto
  qed (use assms(2) tags_ok_stored tags_ok_marker in auto)
qed

lemma bobj_invalidate: "bobj (invalidateCatalog b) = bobj b"
  by (simp add: invalidateCatalog_def)

context cas_store
begin

lemma put_repo:
  assumes "cas s" "clean_path k" "repo_key k" "oPut (obj S) s k c = (r, s')"
  shows "cas s'" "r = None \<Longrightarrow> view s' = (view s)(k \<mapsto> c)" "r \<noteq> None \<Longrightarrow> view s' = view s"
proof -
  note inv = casD [OF assms(1)]
  show ok: "view s' = (view s)(k \<mapsto> c)" if "r = None" using put_ok [OF inv(1) assms(2)] assms(4) that by simp
  show er: "view s' = view s" if "r \<noteq> None" using put_err [OF inv(1) assms(2)] assms(4) that by auto
  have same: "view s' (blob_path h) = view s (blob_path h)" "view s' ''blobs/sha256'' = view s ''blobs/sha256''" for h
    using ok er repo_key_not_blob [OF assms(3)] by (cases r; simp)+
  have "blobs_plain plain s'"
    using put_plain_blobs [OF inv(1) assms(2,4) inv(2)] repo_key_not_blob(3) [OF assms(3)] by simp
  then show "cas s'"
    using put_inv [OF inv(1) assms(2,4)] inv(3,4) same by (simp add: cas_inv_def blobs_addressed_def)
qed

lemma del_cas:
  assumes "cas s" "clean_path k" "oDelete (obj S) s k = (r, s')"
  shows "cas s'" "r = None \<Longrightarrow> view s' = (view s)(k := None)" "r \<noteq> None \<Longrightarrow> view s' = view s"
proof -
  note inv = casD [OF assms(1)]
  show ok: "view s' = (view s)(k := None)" if "r = None" using del_ok [OF inv(1) assms(2)] assms(3) that by simp
  show er: "view s' = view s" if "r \<noteq> None" using del_err [OF inv(1) assms(2)] assms(3) that by auto
  have sub: "view s' j = Some x \<Longrightarrow> view s j = Some x" for j x
    using ok er by (cases r) (auto split: if_splits)
  have "blobs_plain plain s'"
    using del_plain [OF inv(1) assms(2,3)] inv(2) by (simp add: blobs_plain_def)
  moreover have "view s' ''blobs/sha256'' = None" using sub inv(4) by (metis not_Some_eq)
  ultimately show "cas s'"
    using del_inv [OF inv(1) assms(2,3)] inv(3) sub by (simp add: cas_inv_def blobs_addressed_def)
qed

lemma PutManifest_spec:
  assumes "cas (bobj b)" "PutManifest S b repo ref mt c = (res, b')"
  shows "cas (bobj b')" "manifest_progress (view (bobj b)) (view (bobj b')) repo ref mt c"
    "res = Inr dg \<Longrightarrow> dg = ''sha256:'' @ sha256_hex c \<and> catalogValid b' = False \<and>
       manifest_done (view (bobj b)) (view (bobj b')) repo ref mt c"
proof -
  let ?h = "sha256_hex c" and ?m = "view (bobj b)"
  obtain r1 b1 where p1: "PutBlob S b (c, None) [] = (r1, b1)" by fastforce
  note s1 = PutBlob_spec [OF assms(1) p1]
  have "cas (bobj b') \<and> manifest_progress ?m (view (bobj b')) repo ref mt c \<and>
    (res = Inr dg \<longrightarrow> dg = ''sha256:'' @ ?h \<and> catalogValid b' = False \<and>
      manifest_done ?m (view (bobj b')) repo ref mt c)"
  proof (cases r1)
    case (Inl e)
    with assms(2) p1 s1 show ?thesis
      by (auto simp: PutManifest_def put_result_def manifest_progress_def)
  next
    case (Inr x)
    then obtain n where x: "r1 = Inr (''sha256:'' @ ?h, n)" "stored ?m (view (bobj b1)) c"
      using s1 by (cases x) (auto simp: put_result_def)
    have hx: "(case ParseDigest (''sha256:'' @ ?h) of Inr (_, h) \<Rightarrow> h | Inl _ \<Rightarrow> []) = ?h"
      by (simp only: ParseDigest_hex hexdigest_sha) simp
    obtain r2 s2 where p2: "oPut (obj S) (bobj b1) (manifestKey repo ?h) mt = (r2, s2)" by fastforce
    note s2 = put_repo [OF _ clean_manifestKey repo_key_manifest p2, OF _ hexdigest_sha hexdigest_sha]
    have c1: "cas (bobj b1)" using s1 by simp
    show ?thesis
    proof (cases r2)
      case (Some e)
      with assms(2) p1 x p2 s2 [OF c1] hx show ?thesis
        by (auto simp: PutManifest_def manifest_progress_def Let_def simp del: append_Cons)
    next
      case None
      let ?m2 = "(view (bobj b1))(manifestKey repo ?h \<mapsto> mt)"
      let ?b2 = "invalidateCatalog (b1\<lparr>bobj := s2\<rparr>)"
      have v2: "view s2 = ?m2" using s2(2) [OF c1] None by simp
      have eq: "(if isDigest ref then (Inr (''sha256:'' @ ?h), ?b2)
          else (case oPut (obj S) s2 (tagKey repo ref) (''sha256:'' @ ?h) of
             (Some e, s3) \<Rightarrow> (Inl e, ?b2\<lparr>bobj := s3\<rparr>)
           | (None, s3) \<Rightarrow> (Inr (''sha256:'' @ ?h), ?b2\<lparr>bobj := s3\<rparr>))) = (res, b')"
        using assms(2) p1 x(1) p2 None hx
        by (cases "isDigest ref") (simp_all add: PutManifest_def Let_def bobj_invalidate del: append_Cons)
      show ?thesis
      proof (cases "isDigest ref")
        case True
        with eq v2 x(2) s2(1) [OF c1] show ?thesis
          by (auto simp: manifest_progress_def manifest_done_def Let_def invalidateCatalog_def simp del: append_Cons)
      next
        case False
        obtain r3 s3 where p3: "oPut (obj S) s2 (tagKey repo ref) (''sha256:'' @ ?h) = (r3, s3)" by fastforce
        note s3 = put_repo [OF s2(1) [OF c1] clean_tagKey repo_key_tag p3]
        from s3(2,3) False eq p3 v2 x(2) s3(1) show ?thesis
          by (cases r3) (auto simp: manifest_progress_def manifest_done_def Let_def invalidateCatalog_def
              simp del: append_Cons)
      qed
    qed
  qed
  then show "cas (bobj b')" "manifest_progress ?m (view (bobj b')) repo ref mt c"
    "res = Inr dg \<Longrightarrow> dg = ''sha256:'' @ ?h \<and> catalogValid b' = False \<and>
      manifest_done ?m (view (bobj b')) repo ref mt c" by auto
qed

lemma DeleteManifest_spec:
  assumes "cas (bobj b)" "DeleteManifest S b repo d = (res, b')"
  shows "cas (bobj b')"
    "res = None \<Longrightarrow> \<exists>h. d = ''sha256:'' @ h \<and> hexdigest h \<and>
       view (bobj b') = (view (bobj b))(manifestKey repo h := None) \<and> catalogValid b' = False"
    "res \<noteq> None \<Longrightarrow> view (bobj b') = view (bobj b)"
proof -
  have "cas (bobj b') \<and> (res = None \<longrightarrow> (\<exists>h. d = ''sha256:'' @ h \<and> hexdigest h \<and>
       view (bobj b') = (view (bobj b))(manifestKey repo h := None) \<and> catalogValid b' = False)) \<and>
    (res \<noteq> None \<longrightarrow> view (bobj b') = view (bobj b))"
  proof (cases "ParseDigest d")
    case (Inl e)
    with assms show ?thesis by (auto simp: DeleteManifest_def)
  next
    case (Inr x)
    then obtain h where x: "d = ''sha256:'' @ h" "hexdigest h" "ParseDigest d = Inr (''sha256'', h)"
      using ParseDigest_InrD by (cases x) blast
    obtain r s' where p: "oDelete (obj S) (bobj b) (manifestKey repo h) = (r, s')" by fastforce
    note dl = del_cas [OF assms(1) clean_manifestKey [OF x(2)] p]
    from assms x dl p show ?thesis
      by (cases r) (auto simp: DeleteManifest_def Let_def invalidateCatalog_def split: sum.splits)
  qed
  then show "cas (bobj b')"
    "res = None \<Longrightarrow> \<exists>h. d = ''sha256:'' @ h \<and> hexdigest h \<and>
       view (bobj b') = (view (bobj b))(manifestKey repo h := None) \<and> catalogValid b' = False"
    "res \<noteq> None \<Longrightarrow> view (bobj b') = view (bobj b)" by auto
qed

end

context cas_store
begin

lemma DeleteBlob_spec:
  assumes "cas (bobj b)" "DeleteBlob S b d = (res, b')"
  shows "cas (bobj b')"
    "res = None \<Longrightarrow> \<exists>h. d = ''sha256:'' @ h \<and> hexdigest h \<and> view (bobj b') = (view (bobj b))(blob_path h := None)"
    "res \<noteq> None \<Longrightarrow> view (bobj b') = view (bobj b)"
proof -
  have "cas (bobj b') \<and> (res = None \<longrightarrow> (\<exists>h. d = ''sha256:'' @ h \<and> hexdigest h \<and>
       view (bobj b') = (view (bobj b))(blob_path h := None))) \<and>
    (res \<noteq> None \<longrightarrow> view (bobj b') = view (bobj b))"
  proof (cases "blobKey d")
    case (Inl e)
    with assms show ?thesis by (auto simp: DeleteBlob_def)
  next
    case (Inr k)
    then obtain h where x: "d = ''sha256:'' @ h" "hexdigest h" "k = blob_path h"
      using blobKey_InrD by blast
    obtain r s' where p: "oDelete (obj S) (bobj b) (blob_path h) = (r, s')" by fastforce
    note dl = del_cas [OF assms(1) clean_blob_path [OF x(2)] p]
    from assms x Inr dl p show ?thesis
      by (cases r) (auto simp: DeleteBlob_def split: sum.splits)
  qed
  then show "cas (bobj b')"
    "res = None \<Longrightarrow> \<exists>h. d = ''sha256:'' @ h \<and> hexdigest h \<and> view (bobj b') = (view (bobj b))(blob_path h := None)"
    "res \<noteq> None \<Longrightarrow> view (bobj b') = view (bobj b)" by auto
qed

text \<open>What a read by digest returns.\<close>

lemma GetBlob_sound:
  assumes "cas (bobj b)" "GetBlob S b d = Inr c"
  shows "d = ''sha256:'' @ sha256_hex c \<and> view (bobj b) (blob_path (sha256_hex c)) = Some c"
proof -
  from assms(2) obtain h where h: "d = ''sha256:'' @ h" "hexdigest h" "oGet (obj S) (bobj b) (blob_path h) = Inr c"
    by (auto simp: GetBlob_def split: sum.splits dest!: blobKey_InrD)
  from get_ok [OF casD(1) [OF assms(1)] clean_blob_path [OF h(2)] h(3)]
  have v: "view (bobj b) (blob_path h) = Some c" .
  moreover have "sha256_hex c = h" using casD(3) [OF assms(1)] v h(2) by (simp add: blobs_addressed_def)
  ultimately show ?thesis using h by simp
qed

lemma GetBlob_not_found:
  assumes "cas (bobj b)" "hexdigest h" "view (bobj b) (blob_path h) = Some c"
  shows "GetBlob S b (''sha256:'' @ h) \<noteq> Inl ErrNotFound"
  using get_nf [OF casD(1) [OF assms(1)], of "blob_path h"] assms
  by (simp only: GetBlob_def blobKey_hex) auto

lemma readManifest_sound:
  assumes "cas (bobj b)" "readManifest S b repo d ft = Inr (c, d', mt)"
  shows "d' = d \<and> d = ''sha256:'' @ sha256_hex c \<and>
    view (bobj b) (manifestKey repo (sha256_hex c)) = Some mt \<and>
    view (bobj b) (blob_path (sha256_hex c)) = Some c"
proof -
  from assms(2) obtain a h where h: "ParseDigest d = Inr (a, h)"
      "oGet (obj S) (bobj b) (manifestKey repo h) = Inr mt" "GetBlob S b d = Inr c" "d' = d"
    by (auto simp: readManifest_def split: sum.splits if_splits)
  from ParseDigest_InrD [OF h(1)] have d: "d = ''sha256:'' @ h" "hexdigest h" by auto
  from GetBlob_sound [OF assms(1) h(3)] d(1) have "h = sha256_hex c" by auto
  with GetBlob_sound [OF assms(1) h(3)] get_ok [OF casD(1) [OF assms(1)] clean_manifestKey [OF d(2)] h(2)] h(4) d
  show ?thesis by auto
qed

lemma readManifest_complete:
  assumes "cas (bobj b)" "hexdigest h" "view (bobj b) (manifestKey repo h) \<noteq> None" "view (bobj b) (blob_path h) \<noteq> None"
  shows "readManifest S b repo (''sha256:'' @ h) ft \<noteq> Inl ErrNotFound"
proof -
  have "oGet (obj S) (bobj b) (manifestKey repo h) \<noteq> Inl ErrNotFound"
    using get_nf [OF casD(1) [OF assms(1)], of "manifestKey repo h"] assms(3) by auto
  moreover have "GetBlob S b (''sha256:'' @ h) \<noteq> Inl ErrNotFound"
    using GetBlob_not_found [OF assms(1,2)] assms(4) by blast
  ultimately show ?thesis
    unfolding readManifest_def ParseDigest_hex [OF assms(2)] by (auto split: sum.splits)
qed

text \<open>Under the tag invariant a resolvable tag is never reported as missing.\<close>

lemma GetManifest_tag_found:
  assumes "cas (bobj b)" "tags_ok (view (bobj b))" "\<not> isDigest tag" "tag_name (sanitize tag)"
    and "view (bobj b) (tagKey repo tag) \<noteq> None"
  shows "GetManifest S b repo tag \<noteq> Inl ErrNotFound"
proof (cases "oGet (obj S) (bobj b) (tagKey repo tag)")
  case (Inl e)
  with get_nf [OF casD(1) [OF assms(1)], of "tagKey repo tag"] assms(3,5) show ?thesis
    by (auto simp: GetManifest_def)
next
  case (Inr d)
  then have "view (bobj b) (tagKey repo tag) = Some d"
    using get_ok [OF casD(1) [OF assms(1)] clean_tagKey] by simp
  from tags_okD [OF assms(2,4) this] obtain h where h: "hexdigest h" "d = ''sha256:'' @ h"
    "view (bobj b) (manifestKey repo h) \<noteq> None" "view (bobj b) (blob_path h) \<noteq> None" .
  from readManifest_complete [OF assms(1) h(1,3,4)] Inr assms(3) h(2) trim_space_digest [OF h(1)]
  show ?thesis by (simp add: GetManifest_def del: append_Cons)
qed

lemma manifest_done_views:
  assumes "manifest_done m m' repo ref mt c"
  shows "m' (manifestKey repo (sha256_hex c)) = Some mt" "m' (blob_path (sha256_hex c)) \<noteq> None"
    "\<not> isDigest ref \<Longrightarrow> m' (tagKey repo ref) = Some (''sha256:'' @ sha256_hex c)"
    "m (blob_path (sha256_hex c)) = None \<or> m (blob_path (sha256_hex c)) = Some c \<Longrightarrow>
     m' (blob_path (sha256_hex c)) = Some c"
proof -
  obtain m1 where m1: "stored m m1 c" "m' = (if isDigest ref then m1(manifestKey repo (sha256_hex c) \<mapsto> mt)
      else m1(manifestKey repo (sha256_hex c) \<mapsto> mt, tagKey repo ref \<mapsto> ''sha256:'' @ sha256_hex c))"
    using assms unfolding manifest_done_def Let_def by blast
  note ne = manifest_not_tag [OF hexdigest_sha, of repo c repo ref]
    repo_key_not_blob(1,2) [OF repo_key_tag] repo_key_not_blob(1,2) [OF repo_key_manifest [OF hexdigest_sha]]
  show "m' (manifestKey repo (sha256_hex c)) = Some mt" using m1(2) ne by simp
  show "m' (blob_path (sha256_hex c)) \<noteq> None" using m1(2) ne stored_blob [OF m1(1)] by simp
  show "\<not> isDigest ref \<Longrightarrow> m' (tagKey repo ref) = Some (''sha256:'' @ sha256_hex c)" using m1(2) by simp
  show "m' (blob_path (sha256_hex c)) = Some c"
    if "m (blob_path (sha256_hex c)) = None \<or> m (blob_path (sha256_hex c)) = Some c"
    using that m1 ne by (auto simp: stored_def Let_def)
qed

lemma manifest_round_trip:
  assumes "cas (bobj b)" "PutManifest S b repo ref mt c = (Inr dg, b')"
    and "view (bobj b) (blob_path (sha256_hex c)) = None \<or> view (bobj b) (blob_path (sha256_hex c)) = Some c"
    and "isDigest ref \<longrightarrow> ref = dg" "GetManifest S b' repo ref = r"
  shows "r = Inr (c, dg, mt) \<or> (\<exists>e. r = Inl e \<and> e \<noteq> ErrNotFound)"
proof -
  note p = PutManifest_spec [OF assms(1,2)]
  from p(3) [OF refl] have d: "dg = ''sha256:'' @ sha256_hex c"
    "manifest_done (view (bobj b)) (view (bobj b')) repo ref mt c" by auto
  note v = manifest_done_views [OF d(2)]
  have rd: "readManifest S b' repo dg ft = Inr (c, dg, mt) \<or>
      (\<exists>e. readManifest S b' repo dg ft = Inl e \<and> e \<noteq> ErrNotFound)" for ft
  proof (cases "readManifest S b' repo dg ft")
    case (Inl e)
    with readManifest_complete [OF p(1) hexdigest_sha, of repo c ft] v(1,2) d(1) show ?thesis by auto
  next
    case (Inr x)
    obtain c' d' mt' where x: "x = (c', d', mt')" by (cases x) auto
    from readManifest_sound [OF p(1)] Inr x have s: "d' = dg" "dg = ''sha256:'' @ sha256_hex c'"
      "view (bobj b') (manifestKey repo (sha256_hex c')) = Some mt'"
      "view (bobj b') (blob_path (sha256_hex c')) = Some c'" by blast+
    from s(2) d(1) have h: "sha256_hex c' = sha256_hex c" by simp
    from s(3) v(1) have "mt' = mt" unfolding h by simp
    moreover from s(4) v(4) [OF assms(3)] have "c' = c" unfolding h by simp
    ultimately show ?thesis using Inr unfolding x s(1) by blast
  qed
  show ?thesis
  proof (cases "isDigest ref")
    case True
    with assms(4,5) rd show ?thesis by (auto simp: GetManifest_def)
  next
    case False
    have tv: "view (bobj b') (tagKey repo ref) = Some dg" using v(3) [OF False] d(1) by simp
    show ?thesis
    proof (cases "oGet (obj S) (bobj b') (tagKey repo ref)")
      case (Inl e)
      with get_nf [OF casD(1) [OF p(1)], of "tagKey repo ref"] tv False assms(5) show ?thesis
        by (auto simp: GetManifest_def)
    next
      case (Inr raw)
      with get_ok [OF casD(1) [OF p(1)] clean_tagKey] tv have "raw = dg" by simp
      with Inr False rd assms(5) trim_space_digest [OF hexdigest_sha, of c] d(1) show ?thesis
        by (auto simp: GetManifest_def simp del: append_Cons)
    qed
  qed
qed

end

context cas_store
begin

lemma AbortUpload_frame: "bobj (snd (AbortUpload S b i)) = bobj b"
  by (auto simp: AbortUpload_def split: option.splits prod.splits)

lemma CommitUpload_spec:
  assumes "cas (bobj b)" "CommitUpload S b u expect = (res, b')"
  shows "cas (bobj b') \<and>
    (\<exists>c. put_result (view (bobj b)) (view (bobj b')) c expect res \<and>
       (\<forall>x. res = Inr x \<longrightarrow> (\<exists>t. map_of (sfiles (staging b)) (upload_path u) = Some (c, t))))"
proof -
  have generic: ?thesis
    if eq: "(case uploadReader (staging b) u of
             Inl e \<Rightarrow> (Inl e, b)
           | Inr rd \<Rightarrow>
               (case PutBlob S b rd expect of
                  (Inl e, b') \<Rightarrow> (Inl e, b')
                | (Inr r, b') \<Rightarrow> (Inr r, snd (AbortUpload S b' (upload_id u))))) = (res, b')"
  proof (cases "uploadReader (staging b) u")
    case (Inl e)
    with eq assms(1) show ?thesis by (auto simp: put_result_def)
  next
    case (Inr rd)
    then obtain t where rd: "map_of (sfiles (staging b)) (upload_path u) = Some (fst rd, t)"
      by (auto simp: uploadReader_def Let_def split: option.splits if_splits)
    obtain r1 b1 where p: "PutBlob S b rd expect = (r1, b1)" by fastforce
    from PutBlob_spec [OF assms(1) p] eq Inr p rd AbortUpload_frame show ?thesis
      by (cases r1) auto
  qed
  show ?thesis
  proof (cases "(u, native S)")
    case (Pair u' nat)
    show ?thesis
    proof (cases "\<exists>i nu. u = FsUpload i \<and> native S = Some nu")
      case True
      then obtain i nu where u: "u = FsUpload i" "native S = Some nu" by blast
      obtain r1 s1 g1 where c: "nuCommit nu (bobj b) (staging b) i expect = (r1, s1, g1)"
        by (metis prod_cases3)
      from commit_spec [OF u(2) casD(1,2) [OF assms(1)] c] obtain c where
        "inv s1" "blobs_plain plain s1" "put_result (view (bobj b)) (view s1) c expect r1"
        "\<forall>x. r1 = Inr x \<longrightarrow> (\<exists>t. map_of (sfiles (staging b)) (sessionPath i) = Some (c, t))" by blast
      with put_result_cas [OF assms(1)] assms(2) u c show ?thesis
        by (auto simp: CommitUpload_def)
    next
      case False
      then show ?thesis
        using assms(2) by (intro generic) (auto simp: CommitUpload_def split: upload.splits option.splits)
    qed
  qed
qed

subsection \<open>Listings\<close>

lemma repoDir_eq:
  assumes "clean_seg sub"
  shows "repoDir repo sub = (''repos/'' @ sanitizeRepo repo @ ''/'' @ sub) @ ''/''"
    "clean_path (''repos/'' @ sanitizeRepo repo @ ''/'' @ sub)"
proof -
  let ?es = "[''repos'', sanitizeRepo repo, sub]"
  have cl: "\<And>e. e \<in> set ?es \<Longrightarrow> clean_path e"
    using assms by (auto simp: clean_sanitizeRepo clean_lits clean_path_seg)
  then have "path_join ?es = join_with ''/'' ?es" by (intro path_join_clean) auto
  then show "repoDir repo sub = (''repos/'' @ sanitizeRepo repo @ ''/'' @ sub) @ ''/''"
    by (simp add: repoDir_def)
  have "clean_path (join_with ''/'' ?es)" by (subst clean_path_join) (use cl in auto)
  then show "clean_path (''repos/'' @ sanitizeRepo repo @ ''/'' @ sub)" by simp
qed

lemma file_key_no_suffix: "clean_seg x \<Longrightarrow> \<not> has_suffix (p @ ''/'' @ x) ''/''"
  by (cases x rule: rev_cases) (auto simp: has_suffix_iff clean_seg_def)

lemma file_bases_set:
  assumes "inv s" "clean_path p" "oList (obj S) s (p @ ''/'') ''/'' = Inr keys"
  shows "set (file_bases keys) = {x. clean_seg x \<and> view s (p @ ''/'' @ x) \<noteq> None}"
proof (intro set_eqI iffI)
  fix x
  assume "x \<in> set (file_bases keys)"
  then obtain k where k: "k \<in> set keys" "\<not> has_suffix k ''/''" "x = path_base k" by (auto simp: file_bases_def)
  from list_sound [OF assms k(1)] obtain y where y: "clean_seg y"
    "k = p @ ''/'' @ y \<and> view s k \<noteq> None \<or> k = p @ ''/'' @ y @ ''/''" by blast
  moreover have "has_suffix (p @ ''/'' @ y @ ''/'') ''/''" by (simp add: has_suffix_def)
  ultimately have "k = p @ ''/'' @ y" "view s k \<noteq> None" using k(2) by auto
  with y(1) k(3) show "x \<in> {x. clean_seg x \<and> view s (p @ ''/'' @ x) \<noteq> None}"
    using path_base_append(1) [OF y(1)] by simp
next
  fix x
  assume "x \<in> {x. clean_seg x \<and> view s (p @ ''/'' @ x) \<noteq> None}"
  then have x: "clean_seg x" "view s (p @ ''/'' @ x) \<noteq> None" by auto
  have "p @ ''/'' @ x \<in> set keys" using list_file [OF assms x] .
  then show "x \<in> set (file_bases keys)"
    using path_base_append(1) [OF x(1), of p] file_key_no_suffix [OF x(1), of p]
    unfolding file_bases_def by force
qed

lemma Tags_spec:
  assumes "inv (bobj b)" "Tags S b repo = Inr ts"
  shows "set ts = {t. clean_seg t \<and> view (bobj b) (tagKey repo t) \<noteq> None \<and> sanitize t = t} \<union>
                  {t. clean_seg t \<and> view (bobj b) (''repos/'' @ sanitizeRepo repo @ ''/tags/'' @ t) \<noteq> None \<and> sanitize t \<noteq> t}"
    "sorted ts"
proof -
  note rd = repoDir_eq [OF clean_lits(5), of repo]
  from assms(2) obtain keys where k: "oList (obj S) (bobj b) (repoDir repo ''tags'') ''/'' = Inr keys"
    "ts = sort (file_bases keys)" by (auto simp: Tags_def split: sum.splits)
  from file_bases_set [OF assms(1) rd(2) k(1) [unfolded rd(1)]]
  have st: "set ts = {t. clean_seg t \<and> view (bobj b) (''repos/'' @ sanitizeRepo repo @ ''/tags/'' @ t) \<noteq> None}"
    using k(2) by simp
  have "tagKey repo t = ''repos/'' @ sanitizeRepo repo @ ''/tags/'' @ t" if "clean_seg t" "sanitize t = t" for t
    using that tagKey_join [of t repo] by (simp add: tag_name_def clean_seg_def)
  with st show "set ts = {t. clean_seg t \<and> view (bobj b) (tagKey repo t) \<noteq> None \<and> sanitize t = t} \<union>
                  {t. clean_seg t \<and> view (bobj b) (''repos/'' @ sanitizeRepo repo @ ''/tags/'' @ t) \<noteq> None \<and> sanitize t \<noteq> t}"
    by (auto simp del: append_Cons)
  show "sorted ts" using k(2) by simp
qed

lemma manifestHexes_spec:
  assumes "inv (bobj b)" "manifestHexes S b repo = Inr hs"
  shows "set hs = {x. clean_seg x \<and> view (bobj b) (''repos/'' @ sanitizeRepo repo @ ''/manifests/'' @ x) \<noteq> None}"
proof -
  note rd = repoDir_eq [OF clean_lits(4), of repo]
  from assms(2) obtain keys where k: "oList (obj S) (bobj b) (repoDir repo ''manifests'') ''/'' = Inr keys"
    "hs = file_bases keys" by (auto simp: manifestHexes_def split: sum.splits)
  from file_bases_set [OF assms(1) rd(2) k(1) [unfolded rd(1)]] k(2) show ?thesis by simp
qed

end

end
