(* ===== verification/FsCas.thy ===== *)
theory FsCas
  imports CasFacts
begin

text \<open>
  The filesystem backend interprets the storage layer's locale; the storage properties of the
  shipped default backend are stated here.
\<close>

section \<open>The filesystem backend\<close>

lemma mkdir_keeps:
  assumes "mkdir_all d (butlast (slash_segs k)) = (r, d1)" "fsInv d" "clean_path k"
  shows "fsInv d1" "fsAbs d1 = fsAbs d" "fsPlain d j \<Longrightarrow> \<not> has_prefix k (j @ ''/'') \<Longrightarrow> fsPlain d1 j"
proof -
  have seg: "list_all clean_seg (butlast (slash_segs k))"
    using assms(3) by (simp add: butlast_clean clean_path_segs)
  show "fsInv d1" by (rule mkdir_all_inv [OF assms(1,2) seg])
  show "fsAbs d1 = fsAbs d" using mkdir_all_frame(1) [OF assms(1)] by (simp add: fun_eq_iff fsAbs_def)
  show "fsPlain d j \<Longrightarrow> \<not> has_prefix k (j @ ''/'') \<Longrightarrow> fsPlain d1 j"
    using mkdir_all_frame(4) [OF assms(1), of "slash_segs j"] prefix_butlast_segs by (auto simp: fsPlain_def)
qed

lemma rename_installs:
  assumes "os_rename_onto d (slash_segs k) c = (r, d')" "fsInv d" "clean_path k"
  shows "fsInv d'" "r = None \<Longrightarrow> fsAbs d' = (fsAbs d)(k \<mapsto> c)" "r \<noteq> None \<Longrightarrow> fsAbs d' = fsAbs d"
    "fsPlain d j \<Longrightarrow> fsPlain d' j"
  using assms
  by (auto simp: os_rename_onto_def fsInv_update_file clean_path_segs fun_eq_iff fsAbs_def update_conv'
      slash_segs_inject fsPlain_def is_dir_def split: if_splits)

lemma fsCommit_spec:
  assumes "fsInv d" "blobs_plain fsPlain d" "fsCommit d g i expect = (r, d', g')"
  shows "fsInv d' \<and> blobs_plain fsPlain d' \<and>
    (\<exists>c. put_result (fsAbs d) (fsAbs d') c expect r \<and>
       (\<forall>x. r = Inr x \<longrightarrow> (\<exists>t. map_of (sfiles g) (sessionPath i) = Some (c, t))))"
proof (cases "d' = d \<and> (\<exists>e. r = Inl e)")
  case True
  with assms show ?thesis by (auto simp: put_result_def)
next
  case False
  then obtain c t where c: "map_of (sfiles g) (sessionPath i) = Some (c, t)"
    using assms(3) by (auto simp: fsCommit_def Let_def split: if_splits option.splits)
  let ?h = "sha256_hex c"
  have key: "blobKey (''sha256:'' @ ?h) = Inr (blob_path ?h)" by (simp only: blobKey_hex hexdigest_sha)
  have cl: "clean_path (blob_path ?h)" by (simp add: clean_blob_path)
  have kp: "keyPath (blob_path ?h) = slash_segs (blob_path ?h)" by (simp add: keyPath_clean cl)
  have g: "\<not> sfails g OpClose (sessionPath i)" "\<not> (sfails g OpOpen (sessionPath i) \<or> sfails g OpCopy (sessionPath i))"
    and ex: "expect = [] \<or> expect = ''sha256:'' @ ?h"
    using assms(3) c False by (auto simp: fsCommit_def Let_def split: if_splits)
  have eq: "(case os_stat d (slash_segs (blob_path ?h)) of
       Inr _ \<Rightarrow> (Inr (''sha256:'' @ ?h, length c), d, snd (stage_remove g (sessionPath i)))
     | Inl _ \<Rightarrow> (case mkdir_all d (butlast (slash_segs (blob_path ?h))) of
          (Some e, d') \<Rightarrow> (Inl e, d', g)
        | (None, d') \<Rightarrow> (case os_rename_onto d' (slash_segs (blob_path ?h)) c of
             (Some e, d'') \<Rightarrow> (Inl e, d'', g)
           | (None, d'') \<Rightarrow> (Inr (''sha256:'' @ ?h, length c), d'',
                g\<lparr>sfiles := AList.delete (sessionPath i) (sfiles g)\<rparr>)))) = (r, d', g')"
    using assms(3) c g ex key kp by (auto simp: fsCommit_def Let_def simp del: append_Cons)
  show ?thesis
  proof (cases "os_stat d (slash_segs (blob_path ?h))")
    case (Inr n)
    have "fsStat d (blob_path ?h) = Inr n" using Inr by (simp add: fsStat_def kp)
    with fsStat_ok [OF this cl] assms(2) have "fsAbs d (blob_path ?h) \<noteq> None" by (auto simp: blobs_plain_def)
    with Inr eq assms(1,2) c ex show ?thesis by (auto simp: put_result_def stored_def Let_def)
  next
    case (Inl e)
    obtain r1 d1 where m: "mkdir_all d (butlast (slash_segs (blob_path ?h))) = (r1, d1)" by fastforce
    note mk = mkdir_keeps [OF m assms(1) cl]
    have pl1: "blobs_plain fsPlain d1"
      using assms(2) mk(3) blob_not_below_blob [OF hexdigest_sha] by (auto simp: blobs_plain_def)
    show ?thesis
    proof (cases r1)
      case (Some e)
      with Inl eq m mk(1,2) pl1 show ?thesis by (auto simp: put_result_def)
    next
      case None
      obtain r2 d2 where n: "os_rename_onto d1 (slash_segs (blob_path ?h)) c = (r2, d2)" by fastforce
      note rn = rename_installs [OF n mk(1) cl]
      have "blobs_plain fsPlain d2" using pl1 rn(4) by (simp add: blobs_plain_def)
      with rn(1-3) Inl eq m None n mk(2) c ex show ?thesis
        by (cases r2) (auto simp: put_result_def stored_def Let_def)
    qed
  qed
qed

interpretation fsc: cas_store fsStore fsAbs fsInv fsPlain
proof (intro cas_store.intro cas_store_axioms.intro)
  show "object_store_spec (obj fsStore) fsAbs fsInv fsPlain"
    using fs.object_store_spec_axioms by (simp add: fsStore_def)
next
  fix nu s g i expect r s' g'
  assume "native fsStore = Some nu" "fsInv s" "blobs_plain fsPlain s" "nuCommit nu s g i expect = (r, s', g')"
  then show "fsInv s' \<and> blobs_plain fsPlain s' \<and>
      (\<exists>c. put_result (fsAbs s) (fsAbs s') c expect r \<and>
         (\<forall>x. r = Inr x \<longrightarrow> (\<exists>t. map_of (sfiles g) (sessionPath i) = Some (c, t))))"
    by (intro fsCommit_spec [of s g i expect r s' g']) (auto simp: fsStore_def fsNative_def)
qed

section \<open>Progress on a disk without failures\<close>

definition healthy :: "disk \<Rightarrow> bool" where
  "healthy d \<longleftrightarrow> fails d = (\<lambda>_ _. False)"

definition fs_free :: "disk \<Rightarrow> string \<Rightarrow> bool" where
  "fs_free d k \<longleftrightarrow> \<not> is_dir d (slash_segs k) \<and> \<not> blocked d (slash_segs k)"

lemma blocked_iff: "blocked d p \<longleftrightarrow> (\<exists>q. strict_prefix q p \<and> map_of (files d) q \<noteq> None)"
proof
  assume "blocked d p"
  then obtain n where "n < length p" "map_of (files d) (take n p) \<noteq> None"
    unfolding blocked_def list_ex_iff by auto
  moreover from this(1) have "strict_prefix (take n p) p" by (auto simp: strict_prefix_def take_is_prefix)
  ultimately show "\<exists>q. strict_prefix q p \<and> map_of (files d) q \<noteq> None" by blast
next
  assume "\<exists>q. strict_prefix q p \<and> map_of (files d) q \<noteq> None"
  then obtain q where q: "strict_prefix q p" "map_of (files d) q \<noteq> None" by blast
  then have "length q < length p" "take (length q) p = q"
    using prefix_length_less [OF q(1)] by (auto simp: strict_prefix_def prefix_def)
  with q(2) show "blocked d p" unfolding blocked_def list_ex_iff
    by (intro bexI [of _ "length q"]) auto
qed

lemma mkdirs_live:
  "healthy d \<Longrightarrow> (\<And>p. p \<in> set ps \<Longrightarrow> map_of (files d) p = None) \<Longrightarrow> fst (mkdirs d ps) = None"
  by (induction d ps rule: mkdirs.induct) (auto simp: healthy_def)

lemma fsPut_live:
  assumes "healthy d" "clean_path k" "fs_free d k"
  shows "\<exists>d'. fsPut d k c = (None, d') \<and> healthy d'"
proof -
  let ?p = "slash_segs k"
  have "map_of (files d) q = None" if "q \<in> set (map (\<lambda>n. take n (butlast ?p)) [0..<Suc (length (butlast ?p))])" for q
  proof (rule ccontr)
    assume "map_of (files d) q \<noteq> None"
    moreover from that have "prefix q (butlast ?p)" by (auto simp: take_is_prefix)
    then have "strict_prefix q ?p"
      using strict_prefix_butlast [of ?p] prefix_order.le_less_trans by (metis slash_segs_not_Nil)
    ultimately show False using assms(3) by (auto simp: fs_free_def blocked_iff)
  qed
  from mkdirs_live [OF assms(1) this] obtain d1 where d1: "mkdir_all d (butlast ?p) = (None, d1)"
    unfolding mkdir_all_def by (metis prod.collapse)
  note fr = mkdir_all_frame [OF d1]
  have "\<not> prefix ?p (butlast ?p)"
    using strict_prefix_butlast [of ?p] by (meson prefix_order.leD slash_segs_not_Nil)
  then have nd: "\<not> is_dir d1 ?p" using fr(4) [of ?p] assms(3) by (auto simp: fs_free_def)
  have nb: "\<not> blocked d1 ?p" using assms(3) fr(1) by (simp add: fs_free_def blocked_def)
  from d1 nd nb fr(2,3) assms(1,2) show ?thesis
    by (simp add: fsPut_def keyPath_clean os_rename_onto_def healthy_def)
qed

lemma fsPut_free:
  assumes "fsPut d k c = (None, d')" "fsInv d" "clean_path k" "clean_path j" "fs_free d j" "j \<noteq> k"
    and "\<not> has_prefix j (k @ ''/'')" "\<not> has_prefix k (j @ ''/'')"
  shows "fs_free d' j"
  using assms(1-3)
proof (cases rule: fsPut_cases)
  case (ok d1)
  have "fsPlain d' j" using fsPut_plain [OF assms(1-3) _ assms(8)] assms(5) by (simp add: fsPlain_def fs_free_def)
  moreover have "\<not> blocked d' (slash_segs j)"
  proof
    assume "blocked d' (slash_segs j)"
    then obtain q where q: "strict_prefix q (slash_segs j)" "map_of (files d') q \<noteq> None"
      unfolding blocked_iff by blast
    show False
    proof (cases "q = slash_segs k")
      case True
      with q(1) have "prefix (slash_segs k) (slash_segs j)" by (auto simp: strict_prefix_def)
      with prefix_segs_iff [OF assms(4,6)] assms(7) show False by simp
    next
      case False
      with q(2) ok(4) mkdir_all_frame(1) [OF ok(1)] have "map_of (files d) q \<noteq> None"
        by (simp add: update_conv')
      with q(1) assms(5) show False by (auto simp: fs_free_def blocked_iff)
    qed
  qed
  ultimately show ?thesis by (simp add: fs_free_def fsPlain_def)
qed simp

lemma fsGet_live:
  assumes "healthy d" "fsInv d" "fsAbs d k = Some c"
  shows "fsGet d k = Inr c"
proof -
  have cl: "clean_path k" and f: "map_of (files d) (slash_segs k) = Some c"
    using assms(3) by (auto simp: fsAbs_def split: if_splits)
  have "\<not> blocked d (slash_segs k)"
  proof
    assume "blocked d (slash_segs k)"
    then obtain q where q: "strict_prefix q (slash_segs k)" "map_of (files d) q \<noteq> None"
      unfolding blocked_iff by blast
    then obtain r where r: "slash_segs k = q @ r" "r \<noteq> []" by (auto simp: strict_prefix_def prefix_def)
    have "slash_segs k \<in> set (dirs d) \<union> fst ` set (files d)" using f map_of_SomeD by force
    from fsInv_cleanD(3) [OF assms(2) this] r have "is_dir d (q @ butlast r)" by (simp add: butlast_append)
    then have "is_dir d q" by (rule fsInv_prefix_dir [OF assms(2)])
    moreover have fq: "q \<in> fst ` set (files d)" using q(2) by (simp add: map_of_eq_None_iff)
    moreover have "q \<noteq> []" using fsInv_cleanD(2) [OF assms(2)] fq by blast
    ultimately show False using assms(2) by (auto simp: fsInv_def is_dir_def)
  qed
  with cl f assms(1) show ?thesis by (simp add: fsGet_def os_read_def keyPath_clean healthy_def)
qed

definition stage_healthy :: "stagedir \<Rightarrow> bool" where
  "stage_healthy g \<longleftrightarrow> sfails g = (\<lambda>_ _. False)"

abbreviation fs_cas :: "disk \<Rightarrow> bool" where
  "fs_cas \<equiv> cas_inv fsAbs fsInv fsPlain"

lemma fsStore_ops [simp]:
  "oPut (obj fsStore) = fsPut" "oGet (obj fsStore) = fsGet" "oStat (obj fsStore) = fsStat"
  "oDelete (obj fsStore) = fsDelete" "oList (obj fsStore) = fsList" "oBound (obj fsStore) = fsBound"
  by (simp_all add: fsStore_def fsObjectStore_def)

lemma PutBlob_live:
  assumes "fs_cas (bobj b)" "healthy (bobj b)" "stage_healthy (staging b)"
    and "fs_free (bobj b) (blob_path (sha256_hex c))"
  shows "\<exists>b1. PutBlob fsStore b (c, None) [] = (Inr (''sha256:'' @ sha256_hex c, length c), b1) \<and>
    healthy (bobj b1) \<and> (bobj b1 = bobj b \<or> fsPut (bobj b) (blob_path (sha256_hex c)) c = (None, bobj b1))"
proof -
  have key: "blobKey (''sha256:'' @ sha256_hex c) = Inr (blob_path (sha256_hex c))"
    by (simp only: blobKey_hex hexdigest_sha)
  obtain d' where d': "fsPut (bobj b) (blob_path (sha256_hex c)) c = (None, d')" "healthy d'"
    using fsPut_live [OF assms(2) clean_blob_path [OF hexdigest_sha] assms(4)] by blast
  show ?thesis
    unfolding PutBlob_def
    using key d' assms(2,3)
    by (cases "fsStat (bobj b) (blob_path (sha256_hex c))")
      (simp_all add: stage_healthy_def Let_def del: append_Cons)
qed

lemma key_forms:
  "hexdigest h \<Longrightarrow> \<exists>x. manifestKey repo h = (''repos/'' @ sanitizeRepo repo @ ''/'') @ CHR ''m'' # x"
  "\<exists>x. tagKey repo tag = (''repos/'' @ sanitizeRepo repo @ ''/'') @ CHR ''t'' # x"
proof -
  show "hexdigest h \<Longrightarrow> \<exists>x. manifestKey repo h = (''repos/'' @ sanitizeRepo repo @ ''/'') @ CHR ''m'' # x"
    by (simp add: manifestKey_join)
  show "\<exists>x. tagKey repo tag = (''repos/'' @ sanitizeRepo repo @ ''/'') @ CHR ''t'' # x"
    by (cases "tag_name (sanitize tag)") (simp_all add: tagKey_join tagKey_degenerate)
qed

lemma marker_tag_apart:
  assumes "hexdigest h"
  shows "\<not> has_prefix (tagKey repo tag) (manifestKey repo h @ ''/'')"
    "\<not> has_prefix (manifestKey repo h) (tagKey repo tag @ ''/'')" "tagKey repo tag \<noteq> manifestKey repo h"
proof -
  obtain x y where "manifestKey repo h = (''repos/'' @ sanitizeRepo repo @ ''/'') @ CHR ''m'' # x"
    "tagKey repo tag = (''repos/'' @ sanitizeRepo repo @ ''/'') @ CHR ''t'' # y"
    using key_forms(1) [OF assms] key_forms(2) by blast
  then show "\<not> has_prefix (tagKey repo tag) (manifestKey repo h @ ''/'')"
    "\<not> has_prefix (manifestKey repo h) (tagKey repo tag @ ''/'')" "tagKey repo tag \<noteq> manifestKey repo h"
    by (auto simp: has_prefix_iff)
qed

lemma blob_repo_apart:
  assumes "repo_key k"
  shows "\<not> has_prefix k (blob_path h @ ''/'')" "\<not> has_prefix (blob_path h) (k @ ''/'')" "k \<noteq> blob_path h"
  using assms by (auto simp: repo_key_def has_prefix_iff blob_path_def)

lemma PutManifest_live:
  assumes cas: "fs_cas (bobj b)" and ok: "healthy (bobj b)" "stage_healthy (staging b)"
    and free: "fs_free (bobj b) (blob_path (sha256_hex c))" "fs_free (bobj b) (manifestKey repo (sha256_hex c))"
      "fs_free (bobj b) (tagKey repo ref)"
  shows "\<exists>b'. PutManifest fsStore b repo ref mt c = (Inr (''sha256:'' @ sha256_hex c), b') \<and> healthy (bobj b')"
proof -
  let ?h = "sha256_hex c" and ?mk = "manifestKey repo (sha256_hex c)" and ?tk = "tagKey repo ref"
  obtain b1 where b1: "PutBlob fsStore b (c, None) [] = (Inr (''sha256:'' @ ?h, length c), b1)" "healthy (bobj b1)"
    "bobj b1 = bobj b \<or> fsPut (bobj b) (blob_path ?h) c = (None, bobj b1)"
    using PutBlob_live [OF cas ok free(1)] by blast
  have inv: "fsInv (bobj b)" "fsInv (bobj b1)"
    using fsc.casD(1) [OF cas] fsc.casD(1) fsc.PutBlob_spec [OF cas b1(1)] by blast+
  have keep: "fs_free (bobj b1) k" if "fs_free (bobj b) k" "clean_path k" "repo_key k" for k
    using b1(3) fsPut_free [OF _ inv(1) clean_blob_path [OF hexdigest_sha] that(2,1) blob_repo_apart(3,1,2) [OF that(3)]]
      that(1) by auto
  note mk = clean_manifestKey [OF hexdigest_sha, of repo c] repo_key_manifest [OF hexdigest_sha, of repo c]
  obtain d2 where d2: "fsPut (bobj b1) ?mk mt = (None, d2)" "healthy d2"
    using fsPut_live [OF b1(2) mk(1) keep [OF free(2) mk]] by blast
  have "fs_free d2 ?tk"
    using fsPut_free [OF d2(1) inv(2) mk(1) clean_tagKey keep [OF free(3) clean_tagKey repo_key_tag]]
      marker_tag_apart [OF hexdigest_sha] by blast
  then obtain d3 where d3: "fsPut d2 ?tk (''sha256:'' @ ?h) = (None, d3)" "healthy d3"
    using fsPut_live [OF d2(2) clean_tagKey] by blast
  have hx: "(case ParseDigest (''sha256:'' @ ?h) of Inr (_, h) \<Rightarrow> h | Inl _ \<Rightarrow> []) = ?h"
    by (simp only: ParseDigest_hex hexdigest_sha) simp
  show ?thesis
    using b1(1) d2 d3 hx
    by (cases "isDigest ref") (simp_all add: PutManifest_def Let_def bobj_invalidate del: append_Cons)
qed

section \<open>Properties of the storage layer\<close>

text \<open>C1. On a disk without failures, where the blob, the marker and the tag key are not taken by
  a directory, a manifest push succeeds and the pull by the same reference returns exactly the
  pushed bytes, their digest and the media type.\<close>

theorem push_pull_manifest:
  assumes "fs_cas (bobj b)" "healthy (bobj b)" "stage_healthy (staging b)"
    and "fs_free (bobj b) (blob_path (sha256_hex c))" "fs_free (bobj b) (manifestKey repo (sha256_hex c))"
      "fs_free (bobj b) (tagKey repo ref)"
    and "fsAbs (bobj b) (blob_path (sha256_hex c)) \<in> {None, Some c}"
    and "isDigest ref \<longrightarrow> ref = ''sha256:'' @ sha256_hex c"
  shows "\<exists>b'. PutManifest fsStore b repo ref mt c = (Inr (''sha256:'' @ sha256_hex c), b') \<and>
              GetManifest fsStore b' repo ref = Inr (c, ''sha256:'' @ sha256_hex c, mt)"
proof -
  let ?dg = "''sha256:'' @ sha256_hex c"
  obtain b' where b': "PutManifest fsStore b repo ref mt c = (Inr ?dg, b')" "healthy (bobj b')"
    using PutManifest_live [OF assms(1-6)] by blast
  note p = fsc.PutManifest_spec [OF assms(1) b'(1)]
  note v = fsc.manifest_done_views [OF p(3) [OF refl, THEN conjunct2, THEN conjunct2]]
  have i': "fsInv (bobj b')" using fsc.casD(1) [OF p(1)] .
  have blob: "fsAbs (bobj b') (blob_path (sha256_hex c)) = Some c" using v(4) assms(7) by auto
  have rd: "readManifest fsStore b' repo ?dg ft = Inr (c, ?dg, mt)" for ft
    unfolding readManifest_def GetBlob_def ParseDigest_hex [OF hexdigest_sha] blobKey_hex [OF hexdigest_sha]
    using fsGet_live [OF b'(2) i' v(1)] fsGet_live [OF b'(2) i' blob] by simp
  have "GetManifest fsStore b' repo ref = Inr (c, ?dg, mt)"
  proof (cases "isDigest ref")
    case True
    with rd assms(8) show ?thesis by (simp add: GetManifest_def)
  next
    case False
    with rd fsGet_live [OF b'(2) i' v(3) [OF False]] trim_space_digest [OF hexdigest_sha, of c]
    show ?thesis by (simp add: GetManifest_def del: append_Cons)
  qed
  with b'(1) show ?thesis by blast
qed

definition blank_disk :: disk where
  "blank_disk = \<lparr>files = [], dirs = [], fails = (\<lambda>_ _. False)\<rparr>"

definition blank_stage :: stagedir where
  "blank_stage = \<lparr>sfiles = [], sfails = (\<lambda>_ _. False)\<rparr>"

lemma blank_facts:
  "fs_cas blank_disk" "healthy blank_disk" "stage_healthy blank_stage" "fs_free blank_disk k"
  "fsAbs blank_disk k = None" "bobj (NewBackend blank_disk g t) = blank_disk"
  "staging (NewBackend blank_disk blank_stage t) = blank_stage"
proof -
  have nd: "is_dir blank_disk p \<longleftrightarrow> p = []" for p by (simp add: is_dir_def blank_disk_def)
  show "fs_cas blank_disk"
    by (auto simp: cas_inv_def fsInv_def tree_ok_def blobs_plain_def blobs_addressed_def fsPlain_def nd fsAbs_def)
      (simp_all add: blank_disk_def)
  show "fs_free blank_disk k" by (simp add: fs_free_def nd blocked_iff) (simp add: blank_disk_def)
  show "healthy blank_disk" "stage_healthy blank_stage" "fsAbs blank_disk k = None"
    "bobj (NewBackend blank_disk g t) = blank_disk" "staging (NewBackend blank_disk blank_stage t) = blank_stage"
    by (simp_all add: healthy_def blank_disk_def stage_healthy_def blank_stage_def fsAbs_def NewBackend_def
        SweepStaleUploads_def Let_def)
qed

lemma not_digest_short: "length r < 71 \<Longrightarrow> \<not> isDigest r"
  by (auto simp: isDigest_iff hexdigest_def)

theorem push_pull_manifest_witness:
  "\<exists>b'. PutManifest fsStore (NewBackend blank_disk blank_stage 0) ''app'' ''v1'' ''mt'' ''{}'' =
          (Inr (''sha256:'' @ sha256_hex ''{}''), b') \<and>
        GetManifest fsStore b' ''app'' ''v1'' = Inr (''{}'', ''sha256:'' @ sha256_hex ''{}'', ''mt'')"
  using push_pull_manifest [of "NewBackend blank_disk blank_stage 0" "''{}''" "''app''" "''v1''" "''mt''"]
    not_digest_short [of "''v1''"]
  by (simp add: blank_facts del: append_Cons)

text \<open>C2. Whatever write of a manifest push fails, no tag is left dangling: every tag of the store
  names a digest whose membership marker and content blob exist, so a pull by tag is never
  answered from a half-written push.\<close>

theorem push_never_dangles:
  assumes "fs_cas (bobj b)" "tags_ok (fsAbs (bobj b))" "isDigest ref \<or> tag_name (sanitize ref)"
    and "PutManifest fsStore b repo ref mt c = (r, b')"
  shows "fs_cas (bobj b') \<and> tags_ok (fsAbs (bobj b')) \<and>
    (\<forall>tag. \<not> isDigest tag \<and> tag_name (sanitize tag) \<and> fsAbs (bobj b') (tagKey repo tag) \<noteq> None \<longrightarrow>
       GetManifest fsStore b' repo tag \<noteq> Inl ErrNotFound)"
  using fsc.PutManifest_spec(1,2) [OF assms(1,4)] tags_ok_progress [OF _ assms(2,3)] fsc.GetManifest_tag_found
  by blast

theorem push_never_dangles_witness:
  "\<exists>r b'. PutManifest fsStore (NewBackend (blank_disk\<lparr>fails := (\<lambda>op _. op = OpRename)\<rparr>) blank_stage 0)
            ''app'' ''v1'' ''mt'' ''{}'' = (r, b') \<and> tags_ok (fsAbs (bobj b'))"
proof -
  let ?d = "blank_disk\<lparr>fails := (\<lambda>op _. op = OpRename)\<rparr>"
  let ?b = "NewBackend ?d blank_stage 0"
  have same: "fsAbs ?d = fsAbs blank_disk" "fsInv ?d = fsInv blank_disk" "fsPlain ?d = fsPlain blank_disk"
    by (simp_all add: fun_eq_iff fsAbs_def fsInv_def tree_ok_def fsPlain_def is_dir_def)
  have "fs_cas ?d" using blank_facts(1) by (simp add: cas_inv_def same blobs_plain_def)
  moreover have "tags_ok (fsAbs ?d)" by (simp add: same tags_ok_def blank_facts)
  moreover have "bobj ?b = ?d" by (simp add: NewBackend_def)
  moreover have "tag_name (sanitize ''v1'')" by (simp add: tag_name_def)
  moreover obtain r b' where "PutManifest fsStore ?b ''app'' ''v1'' ''mt'' ''{}'' = (r, b')" by fastforce
  ultimately show ?thesis using push_never_dangles [of ?b "''v1''" "''app''" "''mt''" "''{}''" r b'] by auto
qed

text \<open>C3. Every mutating operation of the storage layer, successful or not, keeps the
  content-addressing invariant of the store: the object at a digest's key hashes to that digest.\<close>

theorem addressing_preserved:
  assumes "fs_cas (bobj b)"
  shows "fs_cas (bobj (snd (PutBlob fsStore b rd expect))) \<and>
    fs_cas (bobj (snd (CommitUpload fsStore b u expect))) \<and>
    fs_cas (bobj (snd (PutManifest fsStore b repo ref mt c))) \<and>
    fs_cas (bobj (snd (DeleteBlob fsStore b d))) \<and>
    fs_cas (bobj (snd (DeleteManifest fsStore b repo d)))"
proof (intro conjI)
  show "fs_cas (bobj (snd (PutBlob fsStore b rd expect)))"
    using fsc.PutBlob_spec [OF assms] by (metis prod.collapse)
  show "fs_cas (bobj (snd (CommitUpload fsStore b u expect)))"
    using fsc.CommitUpload_spec [OF assms] by (metis prod.collapse)
  show "fs_cas (bobj (snd (PutManifest fsStore b repo ref mt c)))"
    using fsc.PutManifest_spec(1) [OF assms] by (metis prod.collapse)
  show "fs_cas (bobj (snd (DeleteBlob fsStore b d)))"
    using fsc.DeleteBlob_spec(1) [OF assms] by (metis prod.collapse)
  show "fs_cas (bobj (snd (DeleteManifest fsStore b repo d)))"
    using fsc.DeleteManifest_spec(1) [OF assms] by (metis prod.collapse)
qed

theorem addressing_preserved_witness:
  "fs_cas (bobj (snd (PutBlob fsStore (NewBackend blank_disk blank_stage 0) (''abc'', None) [])))"
  using addressing_preserved [of "NewBackend blank_disk blank_stage 0" "(''abc'', None)" "[]"]
  by (simp add: blank_facts)

text \<open>C4. A client never receives bytes that do not match the digest it asked for: whatever
  \<open>GetBlob\<close> or \<open>GetManifest\<close> return hashes to the digest.\<close>

theorem reads_are_verified:
  assumes "fs_cas (bobj b)"
  shows "(\<forall>c. GetBlob fsStore b d = Inr c \<longrightarrow> d = ''sha256:'' @ sha256_hex c) \<and>
    (\<forall>c dg mt. GetManifest fsStore b repo ref = Inr (c, dg, mt) \<longrightarrow>
       dg = ''sha256:'' @ sha256_hex c \<and> (isDigest ref \<longrightarrow> ref = dg) \<and>
       fsAbs (bobj b) (manifestKey repo (sha256_hex c)) = Some mt)"
proof (intro conjI allI impI)
  fix c
  assume "GetBlob fsStore b d = Inr c"
  from fsc.GetBlob_sound [OF assms this] show "d = ''sha256:'' @ sha256_hex c" by blast
next
  fix c dg mt
  assume g: "GetManifest fsStore b repo ref = Inr (c, dg, mt)"
  then obtain r ft where r: "readManifest fsStore b repo r ft = Inr (c, dg, mt)" "isDigest ref \<longrightarrow> r = ref"
    by (auto simp: GetManifest_def split: if_splits sum.splits)
  note s = fsc.readManifest_sound [OF assms r(1)]
  show "dg = ''sha256:'' @ sha256_hex c" using s by blast
  show "ref = dg" if "isDigest ref" using s r(2) that by blast
  show "fsAbs (bobj b) (manifestKey repo (sha256_hex c)) = Some mt" using s by blast
qed

theorem reads_are_verified_witness:
  "\<exists>b c. fs_cas (bobj b) \<and> GetManifest fsStore b ''app'' ''v1'' = Inr (''{}'', c, ''mt'') \<and>
     c = ''sha256:'' @ sha256_hex ''{}''"
proof -
  let ?b = "NewBackend blank_disk blank_stage 0"
  have cas: "fs_cas (bobj ?b)" by (simp add: blank_facts)
  obtain b' where b': "PutManifest fsStore ?b ''app'' ''v1'' ''mt'' ''{}'' = (Inr (''sha256:'' @ sha256_hex ''{}''), b')"
    using PutManifest_live [OF cas, of "''{}''" "''app''" "''v1''" "''mt''"] by (auto simp: blank_facts)
  have cas': "fs_cas (bobj b')" using fsc.PutManifest_spec(1) [OF cas b'] .
  have "healthy (bobj b')"
    using PutManifest_live [OF cas, of "''{}''" "''app''" "''v1''" "''mt''"] b' by (auto simp: blank_facts)
  note v = fsc.manifest_done_views [OF fsc.PutManifest_spec(3) [OF cas b' refl, THEN conjunct2, THEN conjunct2]]
  have "\<exists>c. GetManifest fsStore b' ''app'' ''v1'' = Inr (''{}'', c, ''mt'')"
    using fsc.manifest_round_trip [OF cas b' _ _ refl] not_digest_short [of "''v1''"]
      fsGet_live [OF \<open>healthy (bobj b')\<close> fsc.casD(1) [OF cas'] v(1)]
      fsGet_live [OF \<open>healthy (bobj b')\<close> fsc.casD(1) [OF cas'] v(3)]
      fsGet_live [OF \<open>healthy (bobj b')\<close> fsc.casD(1) [OF cas'] v(4)]
      trim_space_digest [OF hexdigest_sha, of "''{}''"]
    by (simp add: GetManifest_def readManifest_def GetBlob_def ParseDigest_hex [OF hexdigest_sha]
        blobKey_hex [OF hexdigest_sha] blank_facts del: append_Cons)
  then obtain c where c: "GetManifest fsStore b' ''app'' ''v1'' = Inr (''{}'', c, ''mt'')" by blast
  with reads_are_verified [OF cas', of "[]" "''app''" "''v1''"] cas' show ?thesis by blast
qed

text \<open>C5. Committing an upload session stores exactly the session's bytes under their own digest
  and only if the client's expected digest, when given, equals it; a failed commit leaves the key
  space as it was.\<close>

theorem commit_upload_correct:
  assumes "fs_cas (bobj b)" "CommitUpload fsStore b u expect = (res, b')"
  shows "case res of
      Inl e \<Rightarrow> fsAbs (bobj b') = fsAbs (bobj b)
    | Inr (dg, n) \<Rightarrow> (\<exists>c t. map_of (sfiles (staging b)) (upload_path u) = Some (c, t) \<and>
        dg = ''sha256:'' @ sha256_hex c \<and> n = length c \<and> (expect = [] \<or> expect = dg) \<and>
        stored (fsAbs (bobj b)) (fsAbs (bobj b')) c)"
proof -
  from fsc.CommitUpload_spec [OF assms] obtain c where
    "put_result (fsAbs (bobj b)) (fsAbs (bobj b')) c expect res"
    "\<forall>x. res = Inr x \<longrightarrow> (\<exists>t. map_of (sfiles (staging b)) (upload_path u) = Some (c, t))" by blast
  then show ?thesis unfolding put_result_def by (cases res) (auto split: prod.splits)
qed

theorem commit_upload_correct_witness:
  "let b = NewBackend blank_disk \<lparr>sfiles = [(sessionPath ''u1'', ''abc'', 0)], sfails = (\<lambda>_ _. False)\<rparr> 0;
       (res, b') = CommitUpload fsStore b (FsUpload ''u1'') ''sha256:00''
   in res = Inl ErrDigestMismatch \<and> fsAbs (bobj b') = fsAbs (bobj b)"
proof -
  let ?b = "NewBackend blank_disk \<lparr>sfiles = [(sessionPath ''u1'', ''abc'', 0)], sfails = (\<lambda>_ _. False)\<rparr> 0"
  have len: "''sha256:00'' \<noteq> ''sha256:'' @ sha256_hex ''abc''"
  proof
    assume "''sha256:00'' = ''sha256:'' @ sha256_hex ''abc''"
    then have "length ''sha256:00'' = length (''sha256:'' @ sha256_hex ''abc'')" by (rule arg_cong)
    then show False by simp
  qed
  have st: "staging ?b = \<lparr>sfiles = [(sessionPath ''u1'', ''abc'', 0)], sfails = (\<lambda>_ _. False)\<rparr>"
    by (simp add: NewBackend_def SweepStaleUploads_def stale_def DefaultUploadTTL_def)
  obtain res b' where r: "CommitUpload fsStore ?b (FsUpload ''u1'') ''sha256:00'' = (res, b')" by fastforce
  have "res = Inl ErrDigestMismatch"
    using r len by (simp add: CommitUpload_def fsStore_def fsNative_def fsCommit_def st Let_def del: append_Cons)
  with commit_upload_correct [OF _ r] r show ?thesis by (simp add: blank_facts)
qed

text \<open>C6. Keys are confined: for every repository name, reference and digest a client can send,
  the key has no empty, dot or dot-dot segment and stays below \<open>repos/\<close> or \<open>blobs/sha256/\<close>.\<close>

theorem keys_confined:
  "repo_key (tagKey repo tag) \<and> clean_path (tagKey repo tag) \<and>
   (case ParseDigest d of
      Inl _ \<Rightarrow> (\<exists>e. blobKey d = Inl e)
    | Inr (_, h) \<Rightarrow> repo_key (manifestKey repo h) \<and> clean_path (manifestKey repo h) \<and>
        (\<exists>k. blobKey d = Inr k \<and> clean_path k \<and> has_prefix k ''blobs/sha256/''))"
proof (cases "ParseDigest d")
  case (Inl e)
  then show ?thesis by (simp add: clean_tagKey blobKey_def)
next
  case (Inr x)
  then obtain a h where x: "x = (a, h)" "ParseDigest d = Inr (a, h)" by (cases x) auto
  from ParseDigest_InrD [OF x(2)] have h: "d = ''sha256:'' @ h" "hexdigest h" by auto
  have "has_prefix (blob_path h) ''blobs/sha256/''" by (simp add: blob_path_def has_prefix_def)
  with x h clean_blob_path [OF h(2)] clean_manifestKey [OF h(2)] blobKey_hex [OF h(2)] show ?thesis
    by (simp add: clean_tagKey del: append_Cons)
qed

end
