(* ===== verification/Catalog.thy ===== *)
theory Catalog
  imports FsCas
begin

text \<open>
  The repository catalog (\<open>walkRepos\<close>, \<open>Repos\<close>, \<open>invalidateCatalog\<close> of \<open>cas.go\<close>): the walk
  over the key tree finds exactly the repositories that hold a manifest marker, it never runs out
  of its depth bound, and the cached list, when served, is the list a fresh walk would return.
\<close>

section \<open>The set a walk computes\<close>

definition marked :: "(string \<Rightarrow> string option) \<Rightarrow> string \<Rightarrow> bool" where
  "marked m q \<longleftrightarrow> (\<exists>x. clean_seg x \<and> m (q @ ''/'' @ x) \<noteq> None)"

definition found :: "(string \<Rightarrow> string option) \<Rightarrow> string \<Rightarrow> string set" where
  "found m p = {q. (q = p \<or> has_prefix q (p @ ''/'')) \<and> clean_path q \<and> last (slash_segs q) = ''manifests'' \<and> marked m q}"

definition repo_name :: "string \<Rightarrow> string" where
  "repo_name q = trim_suffix (trim_suffix (trim_prefix (q @ ''/'') ''repos/'') ''/'') ''/manifests''"

lemma path_base_segs:
  assumes "clean_path q"
  shows "path_base q = last (slash_segs q)"
proof (cases "slash_segs q" rule: rev_cases)
  case (snoc xs x)
  then have x: "clean_seg x" using assms by (simp add: clean_path_def)
  have q: "q = join_with ''/'' (xs @ [x])" using join_slash_segs [of q] snoc by simp
  show ?thesis
  proof (cases "xs = []")
    case True
    then show ?thesis using q snoc path_base_append(2) [OF x] by simp
  next
    case False
    then have "q = join_with ''/'' xs @ ''/'' @ x" using q by (simp add: join_with_append)
    then show ?thesis using snoc path_base_append(1) [OF x] by simp
  qed
qed simp

lemma has_prefix_trans_dir: "has_prefix q (p @ ''/'' @ x @ ''/'') \<Longrightarrow> has_prefix q (p @ ''/'')"
  by (auto simp: has_prefix_iff)

lemma below_dir_cases:
  assumes "clean_path q" "has_prefix q (p @ ''/'')"
  obtains x where "clean_seg x" "q = p @ ''/'' @ x"
    | x y where "clean_seg x" "q = p @ ''/'' @ x @ ''/'' @ y"
proof -
  obtain r where r: "q = p @ ''/'' @ r" using assms(2) by (auto simp: has_prefix_iff)
  then have "clean_path r" using assms(1) by (simp only: clean_path_append)
  obtain x xs where xs: "slash_segs r = x # xs" by (cases "slash_segs r") auto
  then have x: "clean_seg x" using \<open>clean_path r\<close> by (simp add: clean_path_def)
  have rj: "r = join_with ''/'' (x # xs)" using join_slash_segs [of r] xs by simp
  show ?thesis
  proof (cases xs)
    case Nil
    with rj r x show ?thesis by (intro that(1)) auto
  next
    case (Cons y ys)
    with rj have "r = x @ ''/'' @ join_with ''/'' xs" by simp
    with r x show ?thesis by (intro that(2)) auto
  qed
qed

context cas_store
begin

lemma entry_forms:
  assumes "inv s" "clean_path p" "oList (obj S) s (p @ ''/'') ''/'' = Inr es" "e \<in> set es" "has_suffix e ''/''"
  obtains x where "clean_seg x" "e = (p @ ''/'' @ x) @ ''/''" "clean_path (p @ ''/'' @ x)"
proof -
  from list_sound [OF assms(1-4)] obtain x where x: "clean_seg x"
    "e = p @ ''/'' @ x \<and> view s e \<noteq> None \<or> e = p @ ''/'' @ x @ ''/''" by blast
  moreover have "e \<noteq> p @ ''/'' @ x" using file_key_no_suffix [OF x(1)] assms(5) by blast
  moreover have "clean_path (p @ ''/'' @ x)" using assms(2) x(1) by (simp only: clean_path_append clean_path_seg)
  ultimately show ?thesis using that [of x] by auto
qed

lemma marked_iff_file:
  assumes "inv s" "clean_path p" "oList (obj S) s (p @ ''/'') ''/'' = Inr es"
  shows "marked (view s) p \<longleftrightarrow> list_ex (\<lambda>e. \<not> has_suffix e ''/'') es"
proof
  assume "marked (view s) p"
  then obtain x where x: "clean_seg x" "view s (p @ ''/'' @ x) \<noteq> None" by (auto simp: marked_def)
  from list_file [OF assms x] file_key_no_suffix [OF x(1)] show "list_ex (\<lambda>e. \<not> has_suffix e ''/'') es"
    unfolding list_ex_iff by blast
next
  assume "list_ex (\<lambda>e. \<not> has_suffix e ''/'') es"
  then obtain e where e: "e \<in> set es" "\<not> has_suffix e ''/''" by (auto simp: list_ex_iff)
  from list_sound [OF assms e(1)] obtain x where x: "clean_seg x"
    "e = p @ ''/'' @ x \<and> view s e \<noteq> None \<or> e = p @ ''/'' @ x @ ''/''" by blast
  moreover have "has_suffix (p @ ''/'' @ x @ ''/'') ''/''" by (simp add: has_suffix_def)
  ultimately show "marked (view s) p" using e(2) unfolding marked_def by auto
qed

lemma repo_of_prefix_eq:
  assumes "inv s" "clean_path p" "oList (obj S) s (p @ ''/'') ''/'' = Inr es"
  shows "set (repo_of_prefix (p @ ''/'') es) =
    (if last (slash_segs p) = ''manifests'' \<and> marked (view s) p then {repo_name p} else {})"
  unfolding repo_of_prefix_def repo_name_def trim_trailing path_base_segs [OF assms(2)]
    marked_iff_file [OF assms] by auto

lemma found_step:
  assumes "inv s" "clean_path p" "oList (obj S) s (p @ ''/'') ''/'' = Inr es"
  shows "found (view s) p = (if last (slash_segs p) = ''manifests'' \<and> marked (view s) p then {p} else {}) \<union>
    (\<Union>q \<in> {q. q @ ''/'' \<in> set es}. found (view s) q)"
proof (intro set_eqI iffI)
  fix q
  assume q: "q \<in> found (view s) p"
  show "q \<in> (if last (slash_segs p) = ''manifests'' \<and> marked (view s) p then {p} else {}) \<union>
    (\<Union>q \<in> {q. q @ ''/'' \<in> set es}. found (view s) q)"
  proof (cases "q = p")
    case True
    with q show ?thesis by (simp add: found_def)
  next
    case False
    with q have q': "clean_path q" "has_prefix q (p @ ''/'')" "marked (view s) q" by (auto simp: found_def)
    then obtain z where z: "clean_seg z" "view s (q @ ''/'' @ z) \<noteq> None" by (auto simp: marked_def)
    from q'(1,2) obtain x where x: "clean_seg x" "q = p @ ''/'' @ x \<or> has_prefix q ((p @ ''/'' @ x) @ ''/'')"
      and y: "\<exists>y. q @ ''/'' @ z = p @ ''/'' @ x @ ''/'' @ y"
      by (cases rule: below_dir_cases) (auto simp: has_prefix_iff)
    from y obtain w where w: "q @ ''/'' @ z = p @ ''/'' @ x @ ''/'' @ w" by blast
    from list_sub [OF assms x(1) z(2) [unfolded w]] have "(p @ ''/'' @ x) @ ''/'' \<in> set es" by simp
    moreover have "q \<in> found (view s) (p @ ''/'' @ x)" using q x(2) by (auto simp: found_def)
    ultimately show ?thesis by blast
  qed
next
  fix q
  assume "q \<in> (if last (slash_segs p) = ''manifests'' \<and> marked (view s) p then {p} else {}) \<union>
    (\<Union>q \<in> {q. q @ ''/'' \<in> set es}. found (view s) q)"
  then consider "q = p" "last (slash_segs p) = ''manifests''" "marked (view s) p"
    | q' where "q' @ ''/'' \<in> set es" "q \<in> found (view s) q'" by (auto split: if_splits)
  then show "q \<in> found (view s) p"
  proof cases
    case 1
    with assms(2) show ?thesis by (simp add: found_def)
  next
    case 2
    from entry_forms [OF assms 2(1)] obtain x where "q' = p @ ''/'' @ x" by (auto simp: has_suffix_slash)
    with 2(2) show ?thesis using has_prefix_trans_dir [of q p x] by (auto simp: found_def has_prefix_iff)
  qed
qed

lemma walk_correct:
  "inv s \<Longrightarrow> clean_path p \<Longrightarrow> pre = p @ ''/'' \<Longrightarrow> walkRepos (obj S) n s pre out = Inr out' \<Longrightarrow>
     set out' = set out \<union> repo_name ` found (view s) p"
  "inv s \<Longrightarrow> (\<And>e. e \<in> set es \<Longrightarrow> has_suffix e ''/'' \<Longrightarrow> \<exists>q. clean_path q \<and> e = q @ ''/'') \<Longrightarrow>
     walkEntries (obj S) n s es out = Inr out' \<Longrightarrow>
     set out' = set out \<union> (\<Union>q \<in> {q. q @ ''/'' \<in> set es}. repo_name ` found (view s) q)"
proof (induction "obj S" n s pre out and "obj S" n s es out arbitrary: p out' and out' rule: walkRepos_walkEntries.induct)
  case (2 n s pre out)
  from 2(5) obtain es where es: "oList (obj S) s pre ''/'' = Inr es"
    "walkEntries (obj S) n s es (out @ repo_of_prefix pre es) = Inr out'" by (auto split: sum.splits)
  have l: "oList (obj S) s (p @ ''/'') ''/'' = Inr es" using es(1) 2(4) by simp
  have "\<exists>q. clean_path q \<and> e = q @ ''/''" if "e \<in> set es" "has_suffix e ''/''" for e
    using entry_forms [OF 2(2,3) l that] by blast
  from 2(1) [OF es(1) 2(2) this es(2)] show ?case
    unfolding found_step [OF 2(2,3) l] set_append 2(4) repo_of_prefix_eq [OF 2(2,3) l]
    by (auto simp: image_UN)
next
  case (4 n s e es out)
  note prems = "4.prems"
  have tl: "\<exists>q. clean_path q \<and> x = q @ ''/''" if "x \<in> set es" "has_suffix x ''/''" for x
    using prems(2) [of x] that by simp
  show ?case
  proof (cases "has_suffix e ''/''")
    case False
    then have w: "walkEntries (obj S) n s es out = Inr out'" using prems(3) by simp
    moreover have "{q. q @ ''/'' \<in> set (e # es)} = {q. q @ ''/'' \<in> set es}"
      using False by (auto simp: has_suffix_slash)
    ultimately show ?thesis using 4(1) [OF False prems(1) tl w] by simp
  next
    case True
    then obtain q where q: "clean_path q" "e = q @ ''/''" using prems(2) by auto
    from prems(3) True obtain o1 where o1: "walkRepos (obj S) n s e out = Inr o1"
      "walkEntries (obj S) n s es o1 = Inr out'" by (auto split: sum.splits)
    have "\<not> \<not> has_suffix e ''/''" using True by simp
    note ih = 4(2) [OF this prems(1) q o1(1)] 4(3) [OF this o1(1) prems(1) tl o1(2)]
    moreover have "{q. q @ ''/'' \<in> set (e # es)} = insert q {q. q @ ''/'' \<in> set es}" using q(2) by auto
    ultimately show ?thesis by auto
  qed
qed auto

end

section \<open>The catalog\<close>

definition catalog_set :: "(string \<Rightarrow> string option) \<Rightarrow> string set" where
  "catalog_set m =
     {r. clean_path r \<and> marked m (''repos/'' @ r @ ''/manifests'')} \<union>
     (if marked m ''repos/manifests'' then {''manifests''} else {})"

text \<open>A served cache entry lists the repositories of the current key space.\<close>

definition catalog_ok :: "(string \<Rightarrow> string option) \<Rightarrow> 's backend \<Rightarrow> bool" where
  "catalog_ok m b \<longleftrightarrow> (catalogValid b \<longrightarrow> set (catalogList b) = catalog_set m \<and> sorted (catalogList b))"

lemma trim_prefix_app: "trim_prefix (p @ s) p = s"
  by (simp add: trim_prefix_def has_prefix_def)

lemma trim_suffix_app: "trim_suffix (s @ p) p = s"
  by (simp add: trim_suffix_def has_suffix_def)

lemma repo_name_nested: "repo_name (''repos/'' @ r @ ''/manifests'') = r"
proof -
  have "(''repos/'' @ r @ ''/manifests'') @ ''/'' = ''repos/'' @ ((r @ ''/manifests'') @ ''/'')" by simp
  then show ?thesis unfolding repo_name_def by (simp only: trim_prefix_app trim_suffix_app)
qed

lemma repo_name_stray: "repo_name ''repos/manifests'' = ''manifests''"
  by (simp add: repo_name_def trim_prefix_def has_prefix_def trim_suffix_def has_suffix_def)

lemma found_root: "q \<in> found m ''repos'' \<longleftrightarrow>
   (\<exists>r. q = ''repos/'' @ r @ ''/manifests'' \<and> clean_path r \<and> marked m q) \<or> q = ''repos/manifests'' \<and> marked m q"
proof
  assume q: "q \<in> found m ''repos''"
  have "slash_segs ''repos'' = [''repos'']" by (simp add: slash_segs_def)
  with q have "q \<noteq> ''repos''" by (auto simp: found_def)
  with q obtain w where w: "q = ''repos'' @ ''/'' @ w" by (auto simp: found_def has_prefix_iff)
  with q have "clean_path (''repos'' @ ''/'' @ w)" "last (slash_segs (''repos'' @ ''/'' @ w)) = ''manifests''"
    by (simp_all only: found_def mem_Collect_eq)
  then have c: "clean_path w" "last (slash_segs w) = ''manifests''"
    by (simp_all only: clean_path_append slash_segs_append last_appendR slash_segs_not_Nil not_False_eq_True)
  obtain xs where xs: "slash_segs w = xs @ [''manifests'']"
    using c(2) by (metis append_butlast_last_id slash_segs_not_Nil)
  have wj: "w = join_with ''/'' (xs @ [''manifests''])" using join_slash_segs [of w] xs by simp
  show "(\<exists>r. q = ''repos/'' @ r @ ''/manifests'' \<and> clean_path r \<and> marked m q) \<or> q = ''repos/manifests'' \<and> marked m q"
  proof (cases "xs = []")
    case True
    with wj w q show ?thesis by (simp add: found_def)
  next
    case False
    then have "w = join_with ''/'' xs @ ''/'' @ ''manifests''" using wj by (simp add: join_with_append)
    moreover from this c(1) have "clean_path (join_with ''/'' xs)" by (simp only: clean_path_append)
    ultimately show ?thesis using w q by (auto simp: found_def)
  qed
next
  have lit: "clean_path ''repos''" "clean_path ''manifests''" "slash_segs ''manifests'' = [''manifests'']"
    by (simp_all add: clean_path_seg clean_lits slash_segs_seg)
  assume "(\<exists>r. q = ''repos/'' @ r @ ''/manifests'' \<and> clean_path r \<and> marked m q) \<or> q = ''repos/manifests'' \<and> marked m q"
  then obtain w where w: "q = ''repos'' @ ''/'' @ w" "clean_path w" "last (slash_segs w) = ''manifests''" "marked m q"
  proof (elim disjE exE conjE)
    fix r
    assume r: "q = ''repos/'' @ r @ ''/manifests''" "clean_path r" "marked m q"
    have "clean_path (r @ ''/'' @ ''manifests'')" "last (slash_segs (r @ ''/'' @ ''manifests'')) = ''manifests''"
      using r(2) lit by (simp_all only: clean_path_append slash_segs_append) simp
    then show thesis using r that [of "r @ ''/'' @ ''manifests''"] by simp
  next
    assume "q = ''repos/manifests''" "marked m q"
    then show thesis using lit that [of "''manifests''"] by simp
  qed
  have "clean_path (''repos'' @ ''/'' @ w)" "last (slash_segs (''repos'' @ ''/'' @ w)) = ''manifests''"
    using w(2,3) lit(1) by (simp_all only: clean_path_append slash_segs_append last_appendR slash_segs_not_Nil not_False_eq_True)
  then show "q \<in> found m ''repos''" using w(1,4) unfolding found_def by (auto simp: has_prefix_iff)
qed

lemma names_found: "repo_name ` found m ''repos'' = catalog_set m"
proof (intro set_eqI iffI)
  fix x
  assume "x \<in> repo_name ` found m ''repos''"
  then obtain q where q: "q \<in> found m ''repos''" "x = repo_name q" by blast
  from q(1) show "x \<in> catalog_set m"
    unfolding found_root using q(2) repo_name_nested repo_name_stray by (auto simp: catalog_set_def)
next
  fix x
  assume "x \<in> catalog_set m"
  then consider "clean_path x" "marked m (''repos/'' @ x @ ''/manifests'')" | "x = ''manifests''" "marked m ''repos/manifests''"
    by (auto simp: catalog_set_def split: if_splits)
  then show "x \<in> repo_name ` found m ''repos''"
  proof cases
    case 1
    then have "''repos/'' @ x @ ''/manifests'' \<in> found m ''repos''" unfolding found_root by blast
    then have "repo_name (''repos/'' @ x @ ''/manifests'') \<in> repo_name ` found m ''repos''" by (rule imageI)
    then show ?thesis by (simp only: repo_name_nested)
  next
    case 2
    then have "''repos/manifests'' \<in> found m ''repos''" unfolding found_root by blast
    then have "repo_name ''repos/manifests'' \<in> repo_name ` found m ''repos''" by (rule imageI)
    then show ?thesis using 2 by (simp only: repo_name_stray)
  qed
qed

context cas_store
begin

lemma walk_depth:
  "inv s \<Longrightarrow> clean_path p \<Longrightarrow> pre = p @ ''/'' \<Longrightarrow> 0 < n \<Longrightarrow> oBound (obj S) s + 2 \<le> n + length pre \<Longrightarrow>
     walkRepos (obj S) n s pre out \<noteq> Inl ErrDepth"
  "inv s \<Longrightarrow> (\<And>e. e \<in> set es \<Longrightarrow> has_suffix e ''/'' \<Longrightarrow> (\<exists>q. clean_path q \<and> e = q @ ''/'') \<and>
       length e \<le> oBound (obj S) s \<and> oBound (obj S) s + 2 \<le> n + length e) \<Longrightarrow>
     walkEntries (obj S) n s es out \<noteq> Inl ErrDepth"
proof (induction "obj S" n s pre out and "obj S" n s es out arbitrary: p rule: walkRepos_walkEntries.induct)
  case (2 n s pre out)
  show ?case
  proof (cases "oList (obj S) s pre ''/''")
    case (Inl e)
    then show ?thesis using list_no_depth [of s pre "''/''"] by auto
  next
    case (Inr es)
    have l: "oList (obj S) s (p @ ''/'') ''/'' = Inr es" using Inr 2(4) by simp
    have "(\<exists>q. clean_path q \<and> e = q @ ''/'') \<and> length e \<le> oBound (obj S) s \<and> oBound (obj S) s + 2 \<le> n + length e"
      if e: "e \<in> set es" "has_suffix e ''/''" for e
    proof -
      obtain x where x: "clean_seg x" "e = (p @ ''/'' @ x) @ ''/''" "clean_path (p @ ''/'' @ x)"
        using entry_forms [OF 2(2,3) l e] .
      have "length pre < length e" using x(2) 2(4) by simp
      moreover have "length e \<le> oBound (obj S) s" using bound [OF 2(2,3) l e] .
      ultimately show ?thesis using x(2,3) "2.prems"(5) by auto
    qed
    then show ?thesis using 2(1) [OF Inr 2(2)] Inr by simp
  qed
next
  case (4 n s e es out)
  show ?case
  proof (cases "has_suffix e ''/''")
    case False
    then show ?thesis using 4(1) [OF False "4.prems"(1)] "4.prems"(2) by simp
  next
    case True
    then have nn: "\<not> \<not> has_suffix e ''/''" by simp
    from "4.prems"(2) [of e] True obtain q where q: "clean_path q" "e = q @ ''/''"
      "length e \<le> oBound (obj S) s" "oBound (obj S) s + 2 \<le> n + length e" by auto
    have "walkRepos (obj S) n s e out \<noteq> Inl ErrDepth"
      using 4(2) [OF nn "4.prems"(1) q(1,2) _ q(4)] q(3,4) by linarith
    moreover have "walkEntries (obj S) n s es out' \<noteq> Inl ErrDepth" if "walkRepos (obj S) n s e out = Inr out'" for out'
      using 4(3) [OF nn that "4.prems"(1)] "4.prems"(2) by simp
    ultimately show ?thesis using True by (auto split: sum.splits)
  qed
qed auto

lemma clean_repos: "clean_path ''repos''"
  by (simp add: clean_path_seg clean_lits)

lemma walkCatalog_spec:
  assumes "inv s"
  shows "walkCatalog S s \<noteq> Inl ErrDepth"
    "walkCatalog S s = Inr rs \<Longrightarrow> set rs = catalog_set (view s) \<and> sorted rs"
proof -
  have pre: "''repos/'' = ''repos'' @ ''/''" by simp
  have "walkRepos (obj S) (oBound (obj S) s + 2) s ''repos/'' [] \<noteq> Inl ErrDepth"
    by (rule walk_depth(1) [OF assms clean_repos pre]) auto
  then show "walkCatalog S s \<noteq> Inl ErrDepth" by (auto simp: walkCatalog_def split: sum.splits)
  assume "walkCatalog S s = Inr rs"
  then obtain out where o: "walkRepos (obj S) (oBound (obj S) s + 2) s ''repos/'' [] = Inr out" "rs = sort out"
    by (auto simp: walkCatalog_def split: sum.splits)
  from walk_correct(1) [OF assms clean_repos pre o(1)] o(2) show "set rs = catalog_set (view s) \<and> sorted rs"
    by (simp add: names_found)
qed

lemma Repos_spec:
  assumes "inv (bobj b)" "catalog_ok (view (bobj b)) b" "Repos S b t1 t2 = (r, b')"
  shows "r \<noteq> Inl ErrDepth" "bobj b' = bobj b" "catalog_ok (view (bobj b')) b'"
    "r = Inr rs \<Longrightarrow> set rs = catalog_set (view (bobj b)) \<and> sorted rs"
  using assms walkCatalog_spec [OF assms(1)]
  by (auto simp: Repos_def publishCatalog_def catalog_ok_def catalogFresh_def Let_def split: if_splits sum.splits)

end

section \<open>Keeping the cache coherent\<close>

lemma marked_cong: "(\<And>x. m (q @ ''/'' @ x) = m' (q @ ''/'' @ x)) \<Longrightarrow> marked m q \<longleftrightarrow> marked m' q"
  by (simp add: marked_def)

lemma catalog_set_cong:
  assumes "\<And>k. repo_key k \<Longrightarrow> m k = m' k"
  shows "catalog_set m = catalog_set m'"
proof -
  have "marked m (''repos/'' @ r) \<longleftrightarrow> marked m' (''repos/'' @ r)" for r
    by (rule marked_cong) (simp add: assms repo_key_def has_prefix_def)
  from this [of "_ @ ''/manifests''"] this [of "''manifests''"] show ?thesis by (simp add: catalog_set_def)
qed

lemma stored_repo_key: "stored m m' c \<Longrightarrow> repo_key k \<Longrightarrow> m' k = m k"
  by (rule stored_other) (simp_all add: repo_key_not_blob(1))

lemma put_result_repo_key: "put_result m m' c ex r \<Longrightarrow> repo_key k \<Longrightarrow> m' k = m k"
  by (auto simp: put_result_def stored_repo_key split: sum.splits)

definition same_catalog :: "'s backend \<Rightarrow> 's backend \<Rightarrow> bool" where
  "same_catalog b b' \<longleftrightarrow> catalogValid b' = catalogValid b \<and> catalogList b' = catalogList b"

lemma catalog_ok_same:
  "catalog_ok m b \<Longrightarrow> same_catalog b b' \<Longrightarrow> (\<And>k. repo_key k \<Longrightarrow> m' k = m k) \<Longrightarrow> catalog_ok m' b'"
  using catalog_set_cong [of m' m] by (simp add: catalog_ok_def same_catalog_def)

lemma catalog_ok_invalid: "\<not> catalogValid b \<Longrightarrow> catalog_ok m b"
  by (simp add: catalog_ok_def)

context cas_store
begin

lemma PutBlob_catalog:
  assumes "cas (bobj b)" "catalog_ok (view (bobj b)) b" "PutBlob S b r expect = (res, b')"
  shows "catalog_ok (view (bobj b')) b'"
proof (rule catalog_ok_same [OF assms(2)])
  note p = PutBlob_spec [OF assms(1,3)]
  then have "b' = b\<lparr>bobj := bobj b'\<rparr>" by blast
  then show "same_catalog b b'" unfolding same_catalog_def by (metis backend.select_convs backend.update_convs(1) backend.surjective)
  show "view (bobj b') k = view (bobj b) k" if "repo_key k" for k
    using p put_result_repo_key [OF _ that] by blast
qed

lemma CommitUpload_catalog:
  assumes "cas (bobj b)" "catalog_ok (view (bobj b)) b" "CommitUpload S b u expect = (res, b')"
  shows "catalog_ok (view (bobj b')) b'"
proof (rule catalog_ok_same [OF assms(2)])
  show "view (bobj b') k = view (bobj b) k" if "repo_key k" for k
    using CommitUpload_spec [OF assms(1,3)] put_result_repo_key [OF _ that] by blast
  have pb: "same_catalog b b1" if "PutBlob S b rd expect = (x, b1)" for rd x b1
    using that by (auto simp: PutBlob_def same_catalog_def Let_def split: if_splits option.splits sum.splits prod.splits)
  have ab: "same_catalog b1 (snd (AbortUpload S b1 i))" for b1 i
    by (auto simp: AbortUpload_def same_catalog_def split: option.splits prod.splits)
  show "same_catalog b b'"
    using assms(3) pb ab
    by (auto simp: CommitUpload_def same_catalog_def split: upload.splits option.splits prod.splits sum.splits)
qed

lemma DeleteBlob_catalog:
  assumes "cas (bobj b)" "catalog_ok (view (bobj b)) b" "DeleteBlob S b d = (res, b')"
  shows "catalog_ok (view (bobj b')) b'"
proof (rule catalog_ok_same [OF assms(2)])
  show "same_catalog b b'"
    using assms(3) by (auto simp: DeleteBlob_def same_catalog_def split: sum.splits prod.splits)
  show "view (bobj b') k = view (bobj b) k" if "repo_key k" for k
    using DeleteBlob_spec [OF assms(1,3)] repo_key_not_blob(1) [OF that] by (cases res) auto
qed

lemma PutManifest_catalog:
  assumes "cas (bobj b)" "catalog_ok (view (bobj b)) b" "PutManifest S b repo ref mt c = (res, b')"
  shows "catalog_ok (view (bobj b')) b'"
proof -
  obtain r1 b1 where p1: "PutBlob S b (c, None) [] = (r1, b1)" by fastforce
  note s1 = PutBlob_spec [OF assms(1) p1]
  have c1: "catalog_ok (view (bobj b1)) b1" by (rule PutBlob_catalog [OF assms(1,2) p1])
  show ?thesis
  proof (cases "\<exists>h. hexdigest h \<and> (\<exists>e s2. oPut (obj S) (bobj b1) (manifestKey repo h) mt = (Some e, s2) \<and> b' = b1\<lparr>bobj := s2\<rparr>)")
    case True
    then obtain h e s2 where h: "hexdigest h" "oPut (obj S) (bobj b1) (manifestKey repo h) mt = (Some e, s2)"
      "b' = b1\<lparr>bobj := s2\<rparr>" by blast
    have "view s2 = view (bobj b1)"
      using put_repo(3) [OF _ clean_manifestKey [OF h(1)] repo_key_manifest [OF h(1)] h(2)] s1 by blast
    with h(3) c1 show ?thesis by (simp add: catalog_ok_def)
  next
    case False
    then have no: "b' \<noteq> b1\<lparr>bobj := s2\<rparr>"
      if "oPut (obj S) (bobj b1) (manifestKey repo (sha256_hex c)) mt = (Some e, s2)" for e s2
      using that hexdigest_sha by blast
    have "b' = b1 \<or> \<not> catalogValid b'"
      using assms(3) p1 s1 ParseDigest_hex [OF hexdigest_sha, of c] no
      by (auto simp: PutManifest_def Let_def put_result_def invalidateCatalog_def simp del: append_Cons
          split: sum.splits prod.splits option.splits if_splits)
    then show ?thesis using c1 catalog_ok_invalid by auto
  qed
qed

lemma DeleteManifest_catalog:
  assumes "cas (bobj b)" "catalog_ok (view (bobj b)) b" "DeleteManifest S b repo d = (res, b')"
  shows "catalog_ok (view (bobj b')) b'"
proof (cases res)
  case None
  with DeleteManifest_spec(2) [OF assms(1,3)] show ?thesis by (auto simp: catalog_ok_def)
next
  case (Some e)
  then have "same_catalog b b'"
    using assms(3) by (auto simp: DeleteManifest_def same_catalog_def Let_def split: sum.splits prod.splits option.splits)
  then show ?thesis using DeleteManifest_spec(3) [OF assms(1,3)] Some assms(2)
    by (simp add: catalog_ok_def same_catalog_def)
qed

end

end
