(* ===== verification/Gc.thy ===== *)
theory Gc
  imports Catalog
begin

text \<open>
  Mark-and-sweep garbage collection of the blob store (\<open>gc.go\<close>).  The mark loop keeps Go's
  work list, visited set and reachable set; \<open>pm\<close> is \<open>json.Unmarshal\<close> into \<open>gcManifest\<close>.  The
  specification is the inductive set of digests reachable from the markers and tags; the mark
  phase computes exactly it, and terminates on every finite store.
\<close>

section \<open>The collector\<close>

record gcManifest =
  gmConfig :: gcDescriptor
  gmLayers :: "gcDescriptor list"
  gmManifests :: "gcDescriptor list"
  gmSubject :: "gcDescriptor option"

definition readTag :: "'s store_if \<Rightarrow> 's backend \<Rightarrow> string \<Rightarrow> string \<Rightarrow> string res" where
  "readTag S b repo tag =
     (case oGet (obj S) (bobj b) (tagKey repo tag) of Inl e \<Rightarrow> Inl e | Inr raw \<Rightarrow> Inr (trim_space raw))"

definition parseManifestBlob ::
  "(string \<Rightarrow> gcManifest option) \<Rightarrow> 's store_if \<Rightarrow> 's backend \<Rightarrow> string \<Rightarrow> gcManifest res" where
  "parseManifestBlob pm S b digest =
     (case GetBlob S b digest of
        Inl e \<Rightarrow> Inl e
      | Inr data \<Rightarrow> (case pm (take gcManifestReadLimit data) of None \<Rightarrow> Inl ErrNotManifest | Some m \<Rightarrow> Inr m))"

definition tag_roots :: "'s store_if \<Rightarrow> 's backend \<Rightarrow> string \<Rightarrow> string list \<Rightarrow> string list" where
  "tag_roots S b repo tags =
     concat (map (\<lambda>tag. case readTag S b repo tag of Inl _ \<Rightarrow> [] | Inr d \<Rightarrow> [d]) tags)"

fun gcRoots :: "'s store_if \<Rightarrow> 's backend \<Rightarrow> string list \<Rightarrow> string list \<Rightarrow> string list res" where
  "gcRoots S b [] queue = Inr queue"
| "gcRoots S b (repo # repos) queue =
     (case manifestHexes S b repo of
        Inl e \<Rightarrow> Inl e
      | Inr hexes \<Rightarrow>
          (case Tags S b repo of
             Inl e \<Rightarrow> Inl e
           | Inr tags \<Rightarrow>
               gcRoots S b repos (queue @ filter isDigest (map (\<lambda>h. ''sha256:'' @ h) hexes) @
                 filter isDigest (tag_roots S b repo tags))))"

text \<open>Config and layers are kept but not followed; index entries and the subject are followed.\<close>

definition gm_leaves :: "gcManifest \<Rightarrow> string list" where
  "gm_leaves m = filter isDigest (dDigest (gmConfig m) # map dDigest (gmLayers m))"

definition gm_children :: "gcManifest \<Rightarrow> string list" where
  "gm_children m =
     filter isDigest (map dDigest (gmManifests m) @ (case gmSubject m of None \<Rightarrow> [] | Some d \<Rightarrow> [dDigest d]))"

partial_function (option) gcMark ::
  "(string \<Rightarrow> gcManifest option) \<Rightarrow> 's store_if \<Rightarrow> 's backend \<Rightarrow> string list \<Rightarrow> string list \<Rightarrow> string list \<Rightarrow>
   string list res option" where
  "gcMark pm S b queue visited reachable =
     (if queue = [] then Some (Inr reachable)
      else
        let d = last queue; q = butlast queue in
        if d \<in> set visited then gcMark pm S b q visited reachable
        else
          (case parseManifestBlob pm S b d of
             Inl e \<Rightarrow>
               if e = ErrNotFound \<or> e = ErrNotManifest then gcMark pm S b q (d # visited) (d # reachable)
               else Some (Inl e)
           | Inr m \<Rightarrow>
               gcMark pm S b (q @ gm_children m) (d # visited)
                 (gm_children m @ gm_leaves m @ d # reachable)))"

fun gcSweep :: "'s object_store \<Rightarrow> 's \<Rightarrow> string list \<Rightarrow> string list \<Rightarrow> nat \<Rightarrow> (nat \<times> serr option) \<times> 's" where
  "gcSweep O' s [] reachable freed = ((freed, None), s)"
| "gcSweep O' s (key # keys) reachable freed =
     (let digest = ''sha256:'' @ path_base key in
      if has_suffix key ''/'' \<or> \<not> isDigest digest \<or> digest \<in> set reachable
      then gcSweep O' s keys reachable freed
      else
        (case oDelete O' s key of
           (Some e, s') \<Rightarrow> ((freed, Some e), s')
         | (None, s') \<Rightarrow> gcSweep O' s' keys reachable (freed + 1)))"

text \<open>\<open>GC\<close> returns the number of blobs freed and an error; \<open>t1\<close>, \<open>t2\<close> are the catalog's clock readings.\<close>

definition GC ::
  "(string \<Rightarrow> gcManifest option) \<Rightarrow> 's store_if \<Rightarrow> 's backend \<Rightarrow> int \<Rightarrow> int \<Rightarrow>
   ((nat \<times> serr option) \<times> 's backend) option" where
  "GC pm S b t1 t2 =
     (case Repos S b t1 t2 of
        (Inl e, b1) \<Rightarrow> Some ((0, Some e), b1)
      | (Inr repos, b1) \<Rightarrow>
          (case gcRoots S b1 repos [] of
             Inl e \<Rightarrow> Some ((0, Some e), b1)
           | Inr queue \<Rightarrow>
               (case gcMark pm S b1 queue [] [] of
                  None \<Rightarrow> None
                | Some (Inl e) \<Rightarrow> Some ((0, Some e), b1)
                | Some (Inr reachable) \<Rightarrow>
                    (case oList (obj S) (bobj b1) ''blobs/sha256/'' [] of
                       Inl e \<Rightarrow> Some ((0, Some e), b1)
                     | Inr keys \<Rightarrow>
                         (case gcSweep (obj S) (bobj b1) keys reachable 0 of
                            (r, s') \<Rightarrow> Some (r, b1\<lparr>bobj := s'\<rparr>))))))"

section \<open>What is reachable\<close>

inductive gc_reach :: "(string \<Rightarrow> gcManifest option) \<Rightarrow> 's store_if \<Rightarrow> 's backend \<Rightarrow> string set \<Rightarrow> string \<Rightarrow> bool"
  for pm S b roots where
  root: "d \<in> roots \<Longrightarrow> gc_reach pm S b roots d"
| child: "gc_reach pm S b roots d \<Longrightarrow> parseManifestBlob pm S b d = Inr m \<Longrightarrow> d' \<in> set (gm_children m) \<Longrightarrow>
    gc_reach pm S b roots d'"

definition gc_kept :: "(string \<Rightarrow> gcManifest option) \<Rightarrow> 's store_if \<Rightarrow> 's backend \<Rightarrow> string set \<Rightarrow> string \<Rightarrow> bool" where
  "gc_kept pm S b roots d \<longleftrightarrow>
     gc_reach pm S b roots d \<or>
     (\<exists>d' m. gc_reach pm S b roots d' \<and> parseManifestBlob pm S b d' = Inr m \<and> d \<in> set (gm_leaves m))"

lemma gc_reach_kept: "gc_reach pm S b roots d \<Longrightarrow> gc_kept pm S b roots d"
  by (simp add: gc_kept_def)

definition mark_inv ::
  "(string \<Rightarrow> gcManifest option) \<Rightarrow> 's store_if \<Rightarrow> 's backend \<Rightarrow> string set \<Rightarrow> string list \<Rightarrow> string list \<Rightarrow> string list \<Rightarrow> bool" where
  "mark_inv pm S b roots q v r \<longleftrightarrow>
     roots \<subseteq> set q \<union> set v \<and> set v \<subseteq> set r \<and> (\<forall>d \<in> set q \<union> set v. gc_reach pm S b roots d) \<and>
     (\<forall>d \<in> set r. gc_kept pm S b roots d) \<and>
     (\<forall>d m. d \<in> set v \<longrightarrow> parseManifestBlob pm S b d = Inr m \<longrightarrow>
        set (gm_children m) \<subseteq> set q \<union> set v \<and> set (gm_leaves m) \<subseteq> set r)"

lemma mark_invD:
  assumes "mark_inv pm S b roots q v r"
  shows "roots \<subseteq> set q \<union> set v" "set v \<subseteq> set r" "d \<in> set q \<union> set v \<Longrightarrow> gc_reach pm S b roots d"
    "d \<in> set r \<Longrightarrow> gc_kept pm S b roots d"
    "d \<in> set v \<Longrightarrow> parseManifestBlob pm S b d = Inr m \<Longrightarrow> set (gm_children m) \<subseteq> set q \<union> set v"
    "d \<in> set v \<Longrightarrow> parseManifestBlob pm S b d = Inr m \<Longrightarrow> set (gm_leaves m) \<subseteq> set r"
  using assms unfolding mark_inv_def by blast+

lemma mark_invI:
  assumes "roots \<subseteq> set q \<union> set v" "set v \<subseteq> set r" "\<And>d. d \<in> set q \<union> set v \<Longrightarrow> gc_reach pm S b roots d"
    "\<And>d. d \<in> set r \<Longrightarrow> gc_kept pm S b roots d"
    "\<And>d m. d \<in> set v \<Longrightarrow> parseManifestBlob pm S b d = Inr m \<Longrightarrow> set (gm_children m) \<subseteq> set q \<union> set v"
    "\<And>d m. d \<in> set v \<Longrightarrow> parseManifestBlob pm S b d = Inr m \<Longrightarrow> set (gm_leaves m) \<subseteq> set r"
  shows "mark_inv pm S b roots q v r"
  unfolding mark_inv_def using assms by (intro conjI allI ballI impI) blast+

lemma mark_inv_done:
  assumes "mark_inv pm S b roots [] v r"
  shows "set r = {d. gc_kept pm S b roots d}"
proof -
  have v: "d \<in> set v" if "gc_reach pm S b roots d" for d
    using that
  proof induction
    case (root d)
    with mark_invD(1) [OF assms] show ?case by auto
  next
    case (child d m d')
    with mark_invD(5) [OF assms child.IH child.hyps(2)] show ?case by auto
  qed
  show ?thesis
  proof (intro set_eqI iffI)
    fix d
    assume "d \<in> {d. gc_kept pm S b roots d}"
    then show "d \<in> set r"
      using v mark_invD(2) [OF assms] mark_invD(6) [OF assms] unfolding gc_kept_def by blast
  qed (use mark_invD(4) [OF assms] in simp)
qed

lemma mark_inv_skip:
  assumes "mark_inv pm S b roots q v r" "q \<noteq> []" "last q \<in> set v"
  shows "mark_inv pm S b roots (butlast q) v r"
proof -
  have "set q \<union> set v = set (butlast q) \<union> set v" using assms(3) set_last_butlast [OF assms(2)] by auto
  then show ?thesis using assms(1) by (simp add: mark_inv_def)
qed

lemma mark_inv_leaf:
  assumes "mark_inv pm S b roots q v r" "q \<noteq> []" "parseManifestBlob pm S b (last q) = Inl e"
  shows "mark_inv pm S b roots (butlast q) (last q # v) (last q # r)"
proof -
  note d = mark_invD [OF assms(1)]
  have eq: "set (butlast q) \<union> set (last q # v) = set q \<union> set v" using set_last_butlast [OF assms(2)] by auto
  have l: "gc_reach pm S b roots (last q)" using d(3) assms(2) by simp
  show ?thesis
  proof (rule mark_invI, unfold eq)
    show "gc_kept pm S b roots x" if "x \<in> set (last q # r)" for x
      using that d(4) gc_reach_kept [OF l] by auto
    show "set (gm_children m) \<subseteq> set q \<union> set v" if "x \<in> set (last q # v)" "parseManifestBlob pm S b x = Inr m" for x m
      using that d(5) assms(3) by auto
    show "set (gm_leaves m) \<subseteq> set (last q # r)" if "x \<in> set (last q # v)" "parseManifestBlob pm S b x = Inr m" for x m
      using that d(6) [of x m] assms(3) by auto
  qed (use d(1-3) in auto)
qed

lemma mark_inv_node:
  assumes "mark_inv pm S b roots q v r" "q \<noteq> []" "parseManifestBlob pm S b (last q) = Inr m"
  shows "mark_inv pm S b roots (butlast q @ gm_children m) (last q # v) (gm_children m @ gm_leaves m @ last q # r)"
proof -
  note d = mark_invD [OF assms(1)]
  have eq: "set (butlast q @ gm_children m) \<union> set (last q # v) = set q \<union> set v \<union> set (gm_children m)"
    using set_last_butlast [OF assms(2)] by auto
  have l: "gc_reach pm S b roots (last q)" using d(3) assms(2) by simp
  have ch: "gc_reach pm S b roots x" if "x \<in> set (gm_children m)" for x
    using gc_reach.child [OF l assms(3) that] .
  have lv: "gc_kept pm S b roots x" if "x \<in> set (gm_leaves m)" for x
    unfolding gc_kept_def using l assms(3) that by blast
  show ?thesis
  proof (rule mark_invI, unfold eq)
    show "gc_reach pm S b roots x" if "x \<in> set q \<union> set v \<union> set (gm_children m)" for x
      using that d(3) [of x] ch by blast
    show "gc_kept pm S b roots x" if "x \<in> set (gm_children m @ gm_leaves m @ last q # r)" for x
      using that d(4) lv gc_reach_kept [OF l] gc_reach_kept [OF ch] by auto
    show "set (gm_children m') \<subseteq> set q \<union> set v \<union> set (gm_children m)"
      if "x \<in> set (last q # v)" "parseManifestBlob pm S b x = Inr m'" for x m'
      using that d(5) [of x m'] assms(3) by auto
    show "set (gm_leaves m') \<subseteq> set (gm_children m @ gm_leaves m @ last q # r)"
      if "x \<in> set (last q # v)" "parseManifestBlob pm S b x = Inr m'" for x m'
      using that d(6) [of x m'] assms(3) by auto
  qed (use d(1,2) in auto)
qed

section \<open>Marking terminates and computes the reachable set\<close>

definition manifest_digests :: "(string \<Rightarrow> gcManifest option) \<Rightarrow> 's store_if \<Rightarrow> 's backend \<Rightarrow> string set" where
  "manifest_digests pm S b = {d. \<exists>m. parseManifestBlob pm S b d = Inr m}"

definition mark_measure ::
  "(string \<Rightarrow> gcManifest option) \<Rightarrow> 's store_if \<Rightarrow> 's backend \<Rightarrow> ((string list \<times> string list) \<times> (string list \<times> string list)) set" where
  "mark_measure pm S b =
     measures [\<lambda>(q, v). card (manifest_digests pm S b - set v), \<lambda>(q, v). length q]"

lemma mark_measure_skip: "q \<noteq> [] \<Longrightarrow> ((butlast q, v), (q, v)) \<in> mark_measure pm S b"
  by (simp add: mark_measure_def)

lemma mark_measure_leaf:
  "q \<noteq> [] \<Longrightarrow> parseManifestBlob pm S b d = Inl e \<Longrightarrow> ((butlast q, d # v), (q, v)) \<in> mark_measure pm S b"
proof -
  assume "q \<noteq> []" "parseManifestBlob pm S b d = Inl e"
  moreover from this(2) have "d \<notin> manifest_digests pm S b" by (simp add: manifest_digests_def)
  then have "manifest_digests pm S b - set (d # v) = manifest_digests pm S b - set v" by auto
  ultimately show ?thesis by (simp add: mark_measure_def)
qed

lemma mark_measure_node:
  assumes "finite (manifest_digests pm S b)" "parseManifestBlob pm S b d = Inr m" "d \<notin> set v"
  shows "((q', d # v), (q, v)) \<in> mark_measure pm S b"
proof -
  have "manifest_digests pm S b - set (d # v) \<subset> manifest_digests pm S b - set v"
    using assms(2,3) by (auto simp: manifest_digests_def)
  then have "card (manifest_digests pm S b - set (d # v)) < card (manifest_digests pm S b - set v)"
    using assms(1) by (intro psubset_card_mono) auto
  then show ?thesis by (simp add: mark_measure_def)
qed

lemma gcMark_correct:
  assumes "finite (manifest_digests pm S b)" "mark_inv pm S b roots q v r"
  shows "\<exists>res. gcMark pm S b q v r = Some res \<and> (\<forall>R. res = Inr R \<longrightarrow> set R = {d. gc_kept pm S b roots d})"
  using assms(2)
proof (induction "(q, v)" arbitrary: q v r rule: wf_induct [of "mark_measure pm S b"])
  case 1
  show ?case by (simp add: mark_measure_def)
next
  case (2 q v r)
  note IH = 2(1) [rule_format]
  show ?case
  proof (cases "q = []")
    case True
    with mark_inv_done 2(2) show ?thesis by (simp add: gcMark.simps)
  next
    case False
    show ?thesis
    proof (cases "last q \<in> set v")
      case True
      with IH [OF mark_measure_skip [OF False] refl mark_inv_skip [OF 2(2) False True]] False show ?thesis
        by (subst gcMark.simps) (simp add: Let_def)
    next
      case nv: False
      show ?thesis
      proof (cases "parseManifestBlob pm S b (last q)")
        case (Inl e)
        with IH [OF mark_measure_leaf [OF False Inl] refl mark_inv_leaf [OF 2(2) False Inl]] False nv show ?thesis
          by (subst gcMark.simps) (simp add: Let_def)
      next
        case (Inr m)
        with IH [OF mark_measure_node [OF assms(1) Inr nv] refl mark_inv_node [OF 2(2) False Inr]] False nv show ?thesis
          by (subst gcMark.simps) (simp add: Let_def)
      qed
    qed
  qed
qed

lemma mark_inv_start: "mark_inv pm S b (set q) q [] []"
  by (rule mark_invI) (auto intro: gc_reach.root)

section \<open>Sweeping\<close>

definition gc_dead :: "string list \<Rightarrow> string \<Rightarrow> bool" where
  "gc_dead reachable k \<longleftrightarrow> \<not> has_suffix k ''/'' \<and> isDigest (''sha256:'' @ path_base k) \<and>
     ''sha256:'' @ path_base k \<notin> set reachable"

context cas_store
begin

lemma finite_manifests: "cas (bobj b) \<Longrightarrow> finite (manifest_digests pm S b)"
proof -
  assume c: "cas (bobj b)"
  have "manifest_digests pm S b \<subseteq> (\<lambda>k. ''sha256:'' @ path_base k) ` {k. view (bobj b) k \<noteq> None}"
  proof
    fix d
    assume "d \<in> manifest_digests pm S b"
    then obtain data where "GetBlob S b d = Inr data"
      by (auto simp: manifest_digests_def parseManifestBlob_def split: sum.splits)
    from GetBlob_sound [OF c this]
    show "d \<in> (\<lambda>k. ''sha256:'' @ path_base k) ` {k. view (bobj b) k \<noteq> None}"
      by (intro image_eqI [of _ _ "blob_path (sha256_hex data)"]) (auto simp: blob_path_base)
  qed
  then show ?thesis using finite_keys [OF casD(1) [OF c]] finite_subset by blast
qed

lemma gcSweep_spec:
  "cas s \<Longrightarrow> (\<And>k. k \<in> set keys \<Longrightarrow> clean_path k) \<Longrightarrow> gcSweep (obj S) s keys R n = ((m, e), s') \<Longrightarrow>
   cas s' \<and> (\<forall>k. \<not> (k \<in> set keys \<and> gc_dead R k) \<longrightarrow> view s' k = view s k) \<and>
   (e = None \<longrightarrow> (\<forall>k \<in> set keys. gc_dead R k \<longrightarrow> view s' k = None))"
proof (induction "obj S" s keys R n arbitrary: m e s' rule: gcSweep.induct)
  case (2 s key keys R n)
  have ck: "clean_path key" using "2.prems"(2) by simp
  show ?case
  proof (cases "gc_dead R key")
    case False
    then have "has_suffix key ''/'' \<or> \<not> isDigest (''sha256:'' @ path_base key) \<or> ''sha256:'' @ path_base key \<in> set R"
      by (auto simp: gc_dead_def)
    with 2(1) [OF refl this] "2.prems" False show ?thesis by (simp add: Let_def)
  next
    case True
    then have nd: "\<not> (has_suffix key ''/'' \<or> \<not> isDigest (''sha256:'' @ path_base key) \<or> ''sha256:'' @ path_base key \<in> set R)"
      by (auto simp: gc_dead_def)
    obtain r s1 where d: "oDelete (obj S) s key = (r, s1)" by fastforce
    note dl = del_cas [OF "2.prems"(1) ck d]
    show ?thesis
    proof (cases r)
      case (Some er)
      with nd "2.prems"(3) d have "s' = s1" "e \<noteq> None" by (auto simp: Let_def)
      with dl Some show ?thesis by auto
    next
      case None
      with nd "2.prems"(3) d have sw: "gcSweep (obj S) s1 keys R (n + 1) = ((m, e), s')" by (simp add: Let_def)
      have IH: "cas s' \<and> (\<forall>k. \<not> (k \<in> set keys \<and> gc_dead R k) \<longrightarrow> view s' k = view s1 k) \<and>
          (e = None \<longrightarrow> (\<forall>k \<in> set keys. gc_dead R k \<longrightarrow> view s' k = None))"
        using 2(2) [OF refl nd d [symmetric] None dl(1) _ sw] "2.prems"(2) by simp
      have v1: "view s1 = (view s)(key := None)" using dl(2) None by simp
      show ?thesis using IH v1 True by (auto split: if_splits)
    qed
  qed
qed simp

end

section \<open>The whole collection\<close>

definition marker_roots :: "(string \<Rightarrow> string option) \<Rightarrow> string set" where
  "marker_roots m = {d. \<exists>h repo. d = ''sha256:'' @ h \<and> hexdigest h \<and> m (manifestKey repo h) \<noteq> None}"

definition tag_targets :: "(string \<Rightarrow> string option) \<Rightarrow> string set" where
  "tag_targets m = {d. \<exists>raw repo tag. d = trim_space raw \<and> m (tagKey repo tag) = Some raw}"

lemma gc_reach_mono: "gc_reach pm S b R d \<Longrightarrow> R \<subseteq> R' \<Longrightarrow> gc_reach pm S b R' d"
  by (induction rule: gc_reach.induct) (auto intro: gc_reach.intros)

lemma gc_kept_mono: "gc_kept pm S b R d \<Longrightarrow> R \<subseteq> R' \<Longrightarrow> gc_kept pm S b R' d"
  unfolding gc_kept_def using gc_reach_mono by blast

lemma parse_same: "bobj b' = bobj b \<Longrightarrow> parseManifestBlob pm S b' = parseManifestBlob pm S b"
  by (rule ext) (simp only: parseManifestBlob_def GetBlob_def)

lemma gc_reach_same:
  assumes "bobj b' = bobj b"
  shows "gc_reach pm S b' R d \<longleftrightarrow> gc_reach pm S b R d"
proof
  show "gc_reach pm S b' R d \<Longrightarrow> gc_reach pm S b R d"
    by (induction rule: gc_reach.induct) (auto intro: gc_reach.intros simp: parse_same [OF assms])
  show "gc_reach pm S b R d \<Longrightarrow> gc_reach pm S b' R d"
    by (induction rule: gc_reach.induct) (auto intro: gc_reach.intros simp: parse_same [OF assms])
qed

lemma gc_kept_same:
  assumes "bobj b' = bobj b"
  shows "gc_kept pm S b' R d \<longleftrightarrow> gc_kept pm S b R d"
  unfolding gc_kept_def gc_reach_same [OF assms] parse_same [OF assms] ..

context cas_store
begin

lemma manifestKey_path: "hexdigest h \<Longrightarrow> manifestKey repo h = ''repos/'' @ sanitizeRepo repo @ ''/manifests/'' @ h"
  by (simp add: manifestKey_join)

lemma gcRoots_spec:
  assumes "inv (bobj b)"
  shows "gcRoots S b repos q = Inr q' \<Longrightarrow> set q \<subseteq> marker_roots (view (bobj b)) \<union> tag_targets (view (bobj b)) \<Longrightarrow>
    set q \<subseteq> set q' \<and> set q' \<subseteq> marker_roots (view (bobj b)) \<union> tag_targets (view (bobj b)) \<and>
    (\<forall>repo h. repo \<in> set repos \<and> hexdigest h \<and> view (bobj b) (manifestKey repo h) \<noteq> None \<longrightarrow> ''sha256:'' @ h \<in> set q')"
proof (induction repos arbitrary: q)
  case (Cons repo repos)
  let ?m = "view (bobj b)"
  from Cons.prems(1) obtain hexes tags where h: "manifestHexes S b repo = Inr hexes" "Tags S b repo = Inr tags"
    and g: "gcRoots S b repos (q @ filter isDigest (map (\<lambda>h. ''sha256:'' @ h) hexes) @
              filter isDigest (tag_roots S b repo tags)) = Inr q'"
    by (auto split: sum.splits simp del: append_Cons)
  let ?q = "q @ filter isDigest (map (\<lambda>h. ''sha256:'' @ h) hexes) @ filter isDigest (tag_roots S b repo tags)"
  note hs = manifestHexes_spec [OF assms h(1)]
  have "set (filter isDigest (map (\<lambda>h. ''sha256:'' @ h) hexes)) \<subseteq> marker_roots ?m"
  proof
    fix d
    assume "d \<in> set (filter isDigest (map (\<lambda>h. ''sha256:'' @ h) hexes))"
    then obtain x where x: "x \<in> set hexes" "d = ''sha256:'' @ x" "hexdigest x"
      by (auto simp: isDigest_iff simp del: append_Cons)
    then show "d \<in> marker_roots ?m"
      using hs by (auto simp: marker_roots_def manifestKey_path simp del: append_Cons)
  qed
  moreover have "set (filter isDigest (tag_roots S b repo tags)) \<subseteq> tag_targets ?m"
  proof
    fix d
    assume "d \<in> set (filter isDigest (tag_roots S b repo tags))"
    then obtain t where "readTag S b repo t = Inr d" by (auto simp: tag_roots_def split: sum.splits)
    then obtain raw where raw: "oGet (obj S) (bobj b) (tagKey repo t) = Inr raw" "d = trim_space raw"
      by (auto simp: readTag_def split: sum.splits)
    from get_ok [OF assms clean_tagKey raw(1)] raw(2) show "d \<in> tag_targets ?m" by (auto simp: tag_targets_def)
  qed
  ultimately have "set ?q \<subseteq> marker_roots ?m \<union> tag_targets ?m" using Cons.prems(2) by auto
  from Cons.IH [OF g this] have IH: "set ?q \<subseteq> set q'" "set q' \<subseteq> marker_roots ?m \<union> tag_targets ?m"
    "\<forall>r h. r \<in> set repos \<and> hexdigest h \<and> ?m (manifestKey r h) \<noteq> None \<longrightarrow> ''sha256:'' @ h \<in> set q'" by blast+
  have new: "''sha256:'' @ x \<in> set q'" if "hexdigest x" "?m (manifestKey repo x) \<noteq> None" for x
  proof -
    have "x \<in> set hexes" using hs that hexdigest_segs(1) [OF that(1)] by (simp add: manifestKey_path)
    then have "''sha256:'' @ x \<in> set ?q" using that(1) by (auto simp: isDigest_iff simp del: append_Cons)
    then show ?thesis using IH(1) by blast
  qed
  show ?case
  proof (intro conjI allI impI)
    show "set q \<subseteq> set q'" using IH(1) by auto
    show "set q' \<subseteq> marker_roots ?m \<union> tag_targets ?m" by (rule IH(2))
    fix r h
    assume "r \<in> set (repo # repos) \<and> hexdigest h \<and> ?m (manifestKey r h) \<noteq> None"
    then show "''sha256:'' @ h \<in> set q'" using IH(3) new by (cases "r = repo") (auto simp del: append_Cons)
  qed
qed simp

lemma marker_in_catalog:
  assumes "hexdigest h" "m (manifestKey repo h) \<noteq> None"
  shows "sanitizeRepo repo \<in> catalog_set m"
proof -
  have "(''repos/'' @ sanitizeRepo repo @ ''/manifests'') @ ''/'' @ h = manifestKey repo h"
    using assms(1) by (simp add: manifestKey_path)
  with assms hexdigest_segs(1) have "marked m (''repos/'' @ sanitizeRepo repo @ ''/manifests'')"
    unfolding marked_def by metis
  then show ?thesis by (simp add: catalog_set_def clean_sanitizeRepo)
qed

lemma GC_spec:
  assumes cas: "cas (bobj b)" and cat: "catalog_ok (view (bobj b)) b"
  shows "\<exists>n e b'. GC pm S b t1 t2 = Some ((n, e), b') \<and> cas (bobj b') \<and> catalog_ok (view (bobj b')) b' \<and>
    (\<forall>k. \<not> has_prefix k ''blobs/sha256/'' \<longrightarrow> view (bobj b') k = view (bobj b) k) \<and>
    (\<forall>h. hexdigest h \<and> gc_kept pm S b (marker_roots (view (bobj b))) (''sha256:'' @ h) \<longrightarrow>
       view (bobj b') (blob_path h) = view (bobj b) (blob_path h)) \<and>
    (\<forall>h. e = None \<and> hexdigest h \<and>
       \<not> gc_kept pm S b (marker_roots (view (bobj b)) \<union> tag_targets (view (bobj b))) (''sha256:'' @ h) \<longrightarrow>
       view (bobj b') (blob_path h) = None)"
proof -
  let ?m = "view (bobj b)"
  note inv = casD [OF cas]
  obtain r1 b1 where rp: "Repos S b t1 t2 = (r1, b1)" by fastforce
  note R = Repos_spec [OF inv(1) cat rp]
  have quit: ?thesis if "GC pm S b t1 t2 = Some ((0, Some e), b1)" for e
    using that R(2,3) cas by simp
  show ?thesis
  proof (cases "\<exists>repos q. r1 = Inr repos \<and> gcRoots S b1 repos [] = Inr q")
    case False
    show ?thesis
    proof (cases r1)
      case (Inl e)
      then show ?thesis using rp by (intro quit [of e]) (simp add: GC_def)
    next
      case (Inr repos)
      with False obtain e where "gcRoots S b1 repos [] = Inl e" by (cases "gcRoots S b1 repos []") auto
      with Inr show ?thesis using rp by (intro quit [of e]) (simp add: GC_def)
    qed
  next
    case True
    then obtain repos q where q: "r1 = Inr repos" "gcRoots S b1 repos [] = Inr q" by blast
    have i1: "cas (bobj b1)" "inv (bobj b1)" using cas inv(1) R(2) by auto
    note G = gcRoots_spec [OF i1(2) q(2), unfolded R(2)]
    have mk: "marker_roots ?m \<subseteq> set q"
    proof
      fix d
      assume "d \<in> marker_roots ?m"
      then obtain h repo where h: "d = ''sha256:'' @ h" "hexdigest h" "?m (manifestKey repo h) \<noteq> None"
        by (auto simp: marker_roots_def)
      have "sanitizeRepo repo \<in> set repos" using marker_in_catalog [of h ?m] h R(4) [OF q(1)] by blast
      moreover have "?m (manifestKey (sanitizeRepo repo) h) \<noteq> None" using h(3) manifestKey_sanitized by simp
      ultimately show "d \<in> set q" using G h(1,2) by auto
    qed
    have up: "set q \<subseteq> marker_roots ?m \<union> tag_targets ?m" using G by auto
    from gcMark_correct [OF finite_manifests [OF i1(1)] mark_inv_start, of pm q] obtain res where
      res: "gcMark pm S b1 q [] [] = Some res" "\<forall>L. res = Inr L \<longrightarrow> set L = {d. gc_kept pm S b1 (set q) d}" by blast
    show ?thesis
    proof (cases "\<exists>L keys. res = Inr L \<and> oList (obj S) (bobj b1) ''blobs/sha256/'' [] = Inr keys")
      case False
      show ?thesis
      proof (cases res)
        case (Inl e)
        then show ?thesis using rp q res(1) by (intro quit [of e]) (simp add: GC_def)
      next
        case (Inr L)
        with False obtain e where "oList (obj S) (bobj b1) ''blobs/sha256/'' [] = Inl e"
          by (cases "oList (obj S) (bobj b1) ''blobs/sha256/'' []") auto
        with Inr show ?thesis using rp q res(1) by (intro quit [of e]) (simp add: GC_def)
      qed
    next
      case True
      then obtain L keys where L: "res = Inr L" "oList (obj S) (bobj b1) ''blobs/sha256/'' [] = Inr keys" by blast
      have cb: "clean_path ''blobs/sha256''"
        using clean_path_append [of "''blobs''" "''sha256''"] by (simp add: clean_path_seg clean_lits)
      have ks: "set keys = {k. ?m k \<noteq> None \<and> has_prefix k ''blobs/sha256/''}"
        using list_all [OF i1(2) cb] L(2) inv(4) R(2) by simp
      obtain n e s' where sw: "gcSweep (obj S) (bobj b1) keys L 0 = ((n, e), s')" by (metis prod.collapse)
      have "\<And>k. k \<in> set keys \<Longrightarrow> clean_path k" using ks dom_clean [OF inv(1)] by auto
      note W = gcSweep_spec [OF i1(1) this sw]
      have g: "GC pm S b t1 t2 = Some ((n, e), b1\<lparr>bobj := s'\<rparr>)"
        using rp q res(1) L sw by (simp add: GC_def)
      have kept: "d \<in> set L \<longleftrightarrow> gc_kept pm S b (set q) d" for d
        using res(2) L(1) gc_kept_same [OF R(2)] by auto
      have dead: "gc_dead L (blob_path h) \<longleftrightarrow> ''sha256:'' @ h \<notin> set L" if "hexdigest h" for h
      proof -
        have "\<not> has_suffix (blob_path h) ''/''"
          using file_key_no_suffix [OF hexdigest_segs(1) [OF that], of "''blobs/sha256/'' @ take 2 h"] by (simp add: blob_path_def)
        then show ?thesis using that by (auto simp: gc_dead_def blob_path_base isDigest_iff simp del: append_Cons)
      qed
      have outside: "view s' k = ?m k" if "\<not> has_prefix k ''blobs/sha256/''" for k
        using W that ks R(2) by auto
      have safe: "view s' (blob_path h) = ?m (blob_path h)"
        if "hexdigest h" "gc_kept pm S b (marker_roots ?m) (''sha256:'' @ h)" for h
      proof -
        have "\<not> gc_dead L (blob_path h)" using dead [OF that(1)] kept gc_kept_mono [OF that(2) mk] by simp
        then show ?thesis using W R(2) by auto
      qed
      have freed: "view s' (blob_path h) = None"
        if "e = None" "hexdigest h" "\<not> gc_kept pm S b (marker_roots ?m \<union> tag_targets ?m) (''sha256:'' @ h)" for h
      proof -
        have dd: "gc_dead L (blob_path h)" using dead [OF that(2)] kept gc_kept_mono [OF _ up] that(3) by blast
        have "has_prefix (blob_path h) ''blobs/sha256/''" by (simp add: blob_path_def has_prefix_def)
        then show ?thesis using W that(1) dd ks R(2) by (cases "?m (blob_path h)") auto
      qed
      have "catalog_ok (view s') (b1\<lparr>bobj := s'\<rparr>)"
        by (rule catalog_ok_same [OF R(3)])
          (auto simp: same_catalog_def R(2) repo_key_def has_prefix_iff intro!: outside)
      with g W outside safe freed show ?thesis by auto
    qed
  qed
qed

end

section \<open>The backend as a state machine\<close>

text \<open>
  Requests against a filesystem backend, interleaved with arbitrary changes of what the operating
  system lets fail.
\<close>

inductive backend_step :: "(string \<Rightarrow> gcManifest option) \<Rightarrow> disk backend \<Rightarrow> disk backend \<Rightarrow> bool" for pm where
  put_blob: "PutBlob fsStore b r expect = (x, b') \<Longrightarrow> backend_step pm b b'"
| delete_blob: "DeleteBlob fsStore b d = (x, b') \<Longrightarrow> backend_step pm b b'"
| new_upload: "NewUpload fsStore b i now = (x, b') \<Longrightarrow> backend_step pm b b'"
| write_upload: "WriteUpload b u r now = (x, b') \<Longrightarrow> backend_step pm b b'"
| abort_upload: "AbortUpload fsStore b i = (x, b') \<Longrightarrow> backend_step pm b b'"
| commit_upload: "CommitUpload fsStore b u expect = (x, b') \<Longrightarrow> backend_step pm b b'"
| put_manifest: "PutManifest fsStore b repo ref mt c = (x, b') \<Longrightarrow> backend_step pm b b'"
| delete_manifest: "DeleteManifest fsStore b repo d = (x, b') \<Longrightarrow> backend_step pm b b'"
| catalog: "Repos fsStore b t1 t2 = (x, b') \<Longrightarrow> backend_step pm b b'"
| collect: "GC pm fsStore b t1 t2 = Some (x, b') \<Longrightarrow> backend_step pm b b'"
| faults: "backend_step pm b (b\<lparr>bobj := (bobj b)\<lparr>fails := f\<rparr>, staging := (staging b)\<lparr>sfails := g\<rparr>\<rparr>)"

inductive_cases backend_stepE [elim]: "backend_step pm b b'"

definition backend_ok :: "disk backend \<Rightarrow> bool" where
  "backend_ok b \<longleftrightarrow> fs_cas (bobj b) \<and> catalog_ok (fsAbs (bobj b)) b"

lemma upload_frames:
  "NewUpload S b i now = (x, b') \<Longrightarrow> bobj b' = bobj b \<and> same_catalog b b'"
  "WriteUpload b u r now = (y, b') \<Longrightarrow> bobj b' = bobj b \<and> same_catalog b b'"
  "AbortUpload S b i = (z, b') \<Longrightarrow> bobj b' = bobj b \<and> same_catalog b b'"
  by (auto simp: NewUpload_def WriteUpload_def AbortUpload_def same_catalog_def split: prod.splits option.splits)

lemma backend_ok_same: "backend_ok b \<Longrightarrow> bobj b' = bobj b \<and> same_catalog b b' \<Longrightarrow> backend_ok b'"
  by (simp add: backend_ok_def catalog_ok_def same_catalog_def)

lemma faults_same:
  "fsAbs (d\<lparr>fails := f\<rparr>) = fsAbs d" "fsInv (d\<lparr>fails := f\<rparr>) = fsInv d" "fsPlain (d\<lparr>fails := f\<rparr>) = fsPlain d"
  by (simp_all add: fun_eq_iff fsAbs_def fsInv_def tree_ok_def fsPlain_def is_dir_def)

lemma backend_ok_faults:
  "backend_ok b \<Longrightarrow> backend_ok (b\<lparr>bobj := (bobj b)\<lparr>fails := f\<rparr>, staging := g\<rparr>)"
  by (simp add: backend_ok_def cas_inv_def faults_same blobs_plain_def catalog_ok_def)

lemma backend_okD: "backend_ok b \<Longrightarrow> fs_cas (bobj b)" "backend_ok b \<Longrightarrow> catalog_ok (fsAbs (bobj b)) b"
  "backend_ok b \<Longrightarrow> fsInv (bobj b)"
  by (simp_all add: backend_ok_def cas_inv_def)

lemma backend_step_ok: "backend_step pm b b' \<Longrightarrow> backend_ok b \<Longrightarrow> backend_ok b'"
proof (induction rule: backend_step.induct)
  case (put_blob b r expect x b')
  note h = backend_okD [OF put_blob.prems]
  show ?case using fsc.PutBlob_spec [OF h(1) put_blob.hyps] fsc.PutBlob_catalog [OF h(1,2) put_blob.hyps]
    by (simp add: backend_ok_def)
next
  case (delete_blob b d x b')
  note h = backend_okD [OF delete_blob.prems]
  show ?case using fsc.DeleteBlob_spec(1) [OF h(1) delete_blob.hyps] fsc.DeleteBlob_catalog [OF h(1,2) delete_blob.hyps]
    by (simp add: backend_ok_def)
next
  case (commit_upload b u expect x b')
  note h = backend_okD [OF commit_upload.prems]
  show ?case using fsc.CommitUpload_spec [OF h(1) commit_upload.hyps] fsc.CommitUpload_catalog [OF h(1,2) commit_upload.hyps]
    by (simp add: backend_ok_def)
next
  case (put_manifest b repo ref mt c x b')
  note h = backend_okD [OF put_manifest.prems]
  show ?case using fsc.PutManifest_spec(1) [OF h(1) put_manifest.hyps] fsc.PutManifest_catalog [OF h(1,2) put_manifest.hyps]
    by (simp add: backend_ok_def)
next
  case (delete_manifest b repo d x b')
  note h = backend_okD [OF delete_manifest.prems]
  show ?case using fsc.DeleteManifest_spec(1) [OF h(1) delete_manifest.hyps]
      fsc.DeleteManifest_catalog [OF h(1,2) delete_manifest.hyps] by (simp add: backend_ok_def)
next
  case (catalog b t1 t2 x b')
  note h = backend_okD [OF catalog.prems]
  show ?case using fsc.Repos_spec(2,3) [OF h(3,2) catalog.hyps] h(1) by (simp add: backend_ok_def)
next
  case (collect b t1 t2 x b')
  note h = backend_okD [OF collect.prems]
  show ?case using fsc.GC_spec [OF h(1,2), of pm t1 t2] collect.hyps by (auto simp: backend_ok_def)
next
  case (faults b f g)
  then show ?case by (rule backend_ok_faults)
qed (use upload_frames backend_ok_same in blast)+

lemma backend_reachable_ok:
  assumes "(backend_step pm)\<^sup>*\<^sup>* (NewBackend d g now) b" "fs_cas d"
  shows "backend_ok b"
  using assms(1)
proof induction
  case base
  show ?case using assms(2) by (simp add: backend_ok_def NewBackend_def catalog_ok_def)
next
  case (step b b')
  then show ?case by (blast intro: backend_step_ok)
qed

section \<open>Properties\<close>





end
