(* ===== verification/GoStd.thy ===== *)
theory GoStd
  imports Prelude
begin

text \<open>
  More of Go's standard library: substring search (\<open>strings.Index\<close>, \<open>strings.LastIndex\<close>),
  decimal integers (\<open>strconv.ParseInt\<close>, \<open>strconv.Atoi\<close>, \<open>strconv.Itoa\<close>) and the binary search
  of \<open>sort.Search\<close>, each with the facts the handlers rely on.
\<close>

section \<open>Substrings\<close>

fun str_index :: "string \<Rightarrow> string \<Rightarrow> nat option" where
  "str_index sub [] = (if sub = [] then Some 0 else None)"
| "str_index sub (c # cs) =
     (if has_prefix (c # cs) sub then Some 0 else map_option Suc (str_index sub cs))"

fun str_last_index :: "string \<Rightarrow> string \<Rightarrow> nat option" where
  "str_last_index sub [] = (if sub = [] then Some 0 else None)"
| "str_last_index sub (c # cs) =
     (case str_last_index sub cs of
        Some i \<Rightarrow> Some (Suc i)
      | None \<Rightarrow> if has_prefix (c # cs) sub then Some 0 else None)"

lemma str_index_SomeD:
  "str_index sub s = Some i \<Longrightarrow> s = take i s @ sub @ drop (i + length sub) s \<and> i + length sub \<le> length s"
proof (induction s arbitrary: i)
  case (Cons c cs)
  show ?case
  proof (cases "has_prefix (c # cs) sub")
    case True
    then obtain t where "c # cs = sub @ t" by (auto simp: has_prefix_iff)
    moreover from True Cons.prems have "i = 0" by simp
    ultimately show ?thesis by (metis append_eq_conv_conj append_self_conv2 length_append le_add1 add_0 take0)
  next
    case False
    with Cons.prems obtain j where "str_index sub cs = Some j" "i = Suc j" by auto
    with Cons.IH [of j] show ?thesis by simp
  qed
qed (auto split: if_splits)

lemma str_last_index_SomeD:
  "str_last_index sub s = Some i \<Longrightarrow> s = take i s @ sub @ drop (i + length sub) s \<and> i + length sub \<le> length s"
proof (induction s arbitrary: i)
  case (Cons c cs)
  show ?case
  proof (cases "str_last_index sub cs")
    case None
    with Cons.prems have "has_prefix (c # cs) sub" "i = 0" by (auto split: if_splits)
    then obtain t where "c # cs = sub @ t" by (auto simp: has_prefix_iff)
    with \<open>i = 0\<close> show ?thesis by (metis append_eq_conv_conj append_self_conv2 length_append le_add1 add_0 take0)
  next
    case (Some j)
    with Cons.prems have "i = Suc j" by simp
    with Cons.IH [OF Some] show ?thesis by simp
  qed
qed (auto split: if_splits)

text \<open>The occurrence found by \<open>LastIndex\<close> is the last: no later position starts one.\<close>

lemma str_last_index_None: "str_last_index sub s = None \<Longrightarrow> j \<le> length s \<Longrightarrow> \<not> has_prefix (drop j s) sub"
proof (induction s arbitrary: j)
  case (Cons c cs)
  then show ?case by (cases j) (auto split: option.splits if_splits)
qed (auto simp: has_prefix_def split: if_splits)

lemma str_last_index_last:
  "str_last_index sub s = Some i \<Longrightarrow> i < j \<Longrightarrow> j \<le> length s \<Longrightarrow> \<not> has_prefix (drop j s) sub"
proof (induction s arbitrary: i j)
  case (Cons c cs)
  obtain j' where j: "j = Suc j'" using Cons.prems(2) by (cases j) auto
  show ?case
  proof (cases "str_last_index sub cs")
    case None
    then show ?thesis using str_last_index_None [OF None, of j'] Cons.prems(3) j by simp
  next
    case (Some k)
    then show ?thesis using Cons.IH [OF Some, of j'] Cons.prems j by simp
  qed
qed (auto split: if_splits)

section \<open>Decimal integers\<close>

definition is_digit :: "char \<Rightarrow> bool" where
  "is_digit c \<longleftrightarrow> c \<in> set ''0123456789''"

definition digit_val :: "char \<Rightarrow> int" where
  "digit_val c = of_char c - 48"

definition digits_val :: "string \<Rightarrow> int" where
  "digits_val s = foldl (\<lambda>a c. 10 * a + digit_val c) 0 s"

text \<open>\<open>strconv.ParseInt(s, 10, bits)\<close>: an optional sign, at least one digit, in range; None is an error.\<close>

definition parse_int :: "nat \<Rightarrow> string \<Rightarrow> int option" where
  "parse_int bits s =
     (let neg = has_prefix s ''-''; ds = (if neg \<or> has_prefix s ''+'' then tl s else s);
          v = (if neg then - digits_val ds else digits_val ds)
      in if ds = [] \<or> \<not> list_all is_digit ds then None
         else if v < - (2 ^ (bits - 1)) \<or> v \<ge> 2 ^ (bits - 1) then None
         else Some v)"

fun nat_digits :: "nat \<Rightarrow> string" where
  "nat_digits n = (if n < 10 then [''0123456789'' ! n] else nat_digits (n div 10) @ [''0123456789'' ! (n mod 10)])"

definition itoa :: "int \<Rightarrow> string" where
  "itoa i = (if i < 0 then CHR ''-'' # nat_digits (nat (- i)) else nat_digits (nat i))"

declare nat_digits.simps [simp del]

lemma digit_nth:
  assumes "n < 10"
  shows "digit_val (''0123456789'' ! n) = int n" "is_digit (''0123456789'' ! n)"
proof -
  have "n \<in> set [0, 1, 2, 3, 4, 5, 6, 7, 8, 9]" using assms by auto
  then show "digit_val (''0123456789'' ! n) = int n" by (auto simp: digit_val_def)
  have "''0123456789'' ! n \<in> set ''0123456789''" using assms by (intro nth_mem) simp
  then show "is_digit (''0123456789'' ! n)" unfolding is_digit_def .
qed

lemma nat_digits_props: "nat_digits n \<noteq> [] \<and> list_all is_digit (nat_digits n) \<and> digits_val (nat_digits n) = int n"
proof (induction n rule: nat_digits.induct)
  case (1 n)
  show ?case
  proof (cases "n < 10")
    case True
    then show ?thesis by (subst (1 2 3) nat_digits.simps) (simp add: digit_nth digits_val_def)
  next
    case False
    have "digits_val (xs @ [c]) = 10 * digits_val xs + digit_val c" for xs c by (simp add: digits_val_def)
    moreover have "10 * int (n div 10) + int (n mod 10) = int n" by presburger
    ultimately show ?thesis using 1 [OF False] False
      by (subst (1 2 3) nat_digits.simps) (simp add: digit_nth)
  qed
qed

lemma is_digit_not_sign: "is_digit c \<Longrightarrow> c \<noteq> CHR ''-'' \<and> c \<noteq> CHR ''+''"
  by (auto simp: is_digit_def)

lemma parse_itoa:
  assumes "- (2 ^ (bits - 1)) \<le> i" "i < 2 ^ (bits - 1)"
  shows "parse_int bits (itoa i) = Some i"
proof (cases "i < 0")
  case True
  then show ?thesis
    using assms nat_digits_props [of "nat (- i)"]
    by (simp add: itoa_def parse_int_def has_prefix_def Let_def)
next
  case False
  obtain c cs where cs: "nat_digits (nat i) = c # cs" "is_digit c"
    using nat_digits_props [of "nat i"] by (cases "nat_digits (nat i)") auto
  then have "c \<noteq> CHR ''-''" "c \<noteq> CHR ''+''" using is_digit_not_sign by auto
  then show ?thesis
    using False assms nat_digits_props [of "nat i"] cs(1)
    by (simp add: itoa_def parse_int_def has_prefix_def Let_def)
qed

lemma parse_int_range: "parse_int bits s = Some i \<Longrightarrow> - (2 ^ (bits - 1)) \<le> i \<and> i < 2 ^ (bits - 1)"
  by (auto simp: parse_int_def Let_def split: if_splits)

section \<open>Binary search\<close>

text \<open>The loop of \<open>sort.Search\<close>: the least index in the interval whose element satisfies \<open>f\<close>.\<close>

function bsearch :: "(nat \<Rightarrow> bool) \<Rightarrow> nat \<Rightarrow> nat \<Rightarrow> nat" where
  "bsearch f i j =
     (if i < j then let h = (i + j) div 2 in if \<not> f h then bsearch f (h + 1) j else bsearch f i h else i)"
  by auto
termination
proof (relation "measure (\<lambda>(f, i, j). j - i)", goal_cases)
  case 1
  show ?case by simp
next
  case (2 f i j h)
  then have "i \<le> h" "h < j" by presburger+
  then show ?case by simp
next
  case (3 f i j h)
  then have "i \<le> h" "h < j" by presburger+
  then show ?case by simp
qed

declare bsearch.simps [simp del]

lemma bsearch_spec:
  assumes "i \<le> j" "\<forall>a b. i \<le> a \<and> a \<le> b \<and> b < j \<and> f a \<longrightarrow> f b"
  shows "i \<le> bsearch f i j \<and> bsearch f i j \<le> j \<and> (\<forall>k. i \<le> k \<and> k < bsearch f i j \<longrightarrow> \<not> f k) \<and>
    (\<forall>k. bsearch f i j \<le> k \<and> k < j \<longrightarrow> f k)"
  using assms
proof (induction f i j rule: bsearch.induct)
  case (1 f i j)
  show ?case
  proof (cases "i < j")
    case False
    then have "bsearch f i j = i" by (subst bsearch.simps) simp
    with False "1.prems"(1) show ?thesis by auto
  next
    case True
    define h where "h = (i + j) div 2"
    have h: "i \<le> h" "h < j" using True unfolding h_def by presburger+
    show ?thesis
    proof (cases "f h")
      case False
      then have eq: "bsearch f i j = bsearch f (h + 1) j" using True unfolding h_def by (subst bsearch.simps) (simp only: if_True Let_def not_False_eq_True)
      have below: "\<not> f k" if "i \<le> k" "k \<le> h" for k using False "1.prems"(2) [rule_format, of k h] that h by blast
      have "h + 1 \<le> j" using h by simp
      note R = 1(1) [OF True h_def False this]
      have "\<forall>a b. h + 1 \<le> a \<and> a \<le> b \<and> b < j \<and> f a \<longrightarrow> f b"
        using "1.prems"(2) h(1) by (meson add_leD1 order_trans)
      from R [OF this]
      have IH: "h + 1 \<le> bsearch f (h + 1) j" "bsearch f (h + 1) j \<le> j"
        "\<And>k. h + 1 \<le> k \<Longrightarrow> k < bsearch f (h + 1) j \<Longrightarrow> \<not> f k"
        "\<And>k. bsearch f (h + 1) j \<le> k \<Longrightarrow> k < j \<Longrightarrow> f k" by blast+
      have "\<not> f k" if "i \<le> k" "k < bsearch f (h + 1) j" for k
        using below [of k] IH(3) [of k] that by (cases "k \<le> h") auto
      moreover have "i \<le> bsearch f (h + 1) j" using IH(1) h by simp
      ultimately show ?thesis unfolding eq using IH(2,4) by blast
    next
      case True': True
      then have eq: "bsearch f i j = bsearch f i h" using True unfolding h_def by (subst bsearch.simps) (simp only: if_True Let_def not_True_eq_False if_False)
      have above: "f k" if "h \<le> k" "k < j" for k using True' "1.prems"(2) [rule_format, of h k] that h by blast
      have "\<not> \<not> f h" using True' by simp
      note R = 1(2) [OF True h_def this h(1)]
      have "\<forall>a b. i \<le> a \<and> a \<le> b \<and> b < h \<and> f a \<longrightarrow> f b"
        using "1.prems"(2) h(2) by (meson less_trans)
      from R [OF this]
      have IH: "i \<le> bsearch f i h" "bsearch f i h \<le> h" "\<And>k. i \<le> k \<Longrightarrow> k < bsearch f i h \<Longrightarrow> \<not> f k"
        "\<And>k. bsearch f i h \<le> k \<Longrightarrow> k < h \<Longrightarrow> f k" by blast+
      have "f k" if "bsearch f i h \<le> k" "k < j" for k
        using above [of k] IH(4) [of k] that by (cases "k < h") auto
      moreover have "bsearch f i h \<le> j" using IH(2) h by simp
      ultimately show ?thesis unfolding eq using IH(1,3) by blast
    qed
  qed
qed

end
