(* ===== verification/Http.thy ===== *)
theory Http
  imports GoStd
begin

text \<open>
  The pure helpers of the registry (\<open>pkg/registry/registry.go\<close>): the decomposition of a request path,
  the \<open>Range\<close> header, the pagination of sorted listings and the \<open>Link\<close> header with its query escape.
\<close>

section \<open>Request paths\<close>

datatype pathkind = BlobUploadKind | BlobKind | ManifestKind | ReferrersKind | TagsKind | NoKind

text \<open>The four results of \<open>parsePath\<close>: name, kind, reference and \<open>ok\<close>.\<close>

type_synonym parsed_path = "string \<times> pathkind \<times> string \<times> bool"

definition split_last :: "string \<Rightarrow> string \<Rightarrow> pathkind \<Rightarrow> parsed_path option" where
  "split_last sep rest kind =
     map_option (\<lambda>i. let name = take i rest; ref = drop (i + length sep) rest
                     in (name, kind, ref, name \<noteq> [] \<and> ref \<noteq> []))
       (str_last_index sep rest)"

definition parsePath :: "string \<Rightarrow> parsed_path" where
  "parsePath p =
     (let rest = trim_prefix p ''/v2/'' in
      if rest = p then ([], NoKind, [], False)
      else case str_index ''/blobs/uploads'' rest of
        Some i \<Rightarrow>
          (let name = take i rest
           in (name, BlobUploadKind, trim_prefix (drop (i + length ''/blobs/uploads'') rest) ''/'', name \<noteq> []))
      | None \<Rightarrow>
          if has_suffix rest ''/tags/list'' then
            (let name = trim_suffix rest ''/tags/list'' in (name, TagsKind, [], name \<noteq> []))
          else case split_last ''/referrers/'' rest ReferrersKind of
            Some r \<Rightarrow> r
          | None \<Rightarrow>
              (case split_last ''/blobs/'' rest BlobKind of
                 Some r \<Rightarrow> r
               | None \<Rightarrow>
                   (case split_last ''/manifests/'' rest ManifestKind of
                      Some r \<Rightarrow> r
                    | None \<Rightarrow> ([], NoKind, [], False))))"

section \<open>The Range header\<close>

text \<open>The results of \<open>parseRange\<close>: start, length, \<open>hasRange\<close> and \<open>satisfiable\<close>, over int64 values.\<close>

definition parseRange :: "string \<Rightarrow> int \<Rightarrow> int \<times> int \<times> bool \<times> bool" where
  "parseRange header sz =
     (if \<not> has_prefix header ''bytes='' then (0, 0, False, False)
      else
        let spec = trim_prefix header ''bytes='' in
        if CHR '','' \<in> set spec then (0, 0, False, False)
        else case index_byte CHR ''-'' spec of
          None \<Rightarrow> (0, 0, False, False)
        | Some dash \<Rightarrow>
            let startStr = trim_space (take dash spec); endStr = trim_space (drop (dash + 1) spec) in
            if startStr = [] then
              (case parse_int 64 endStr of
                 None \<Rightarrow> (0, 0, False, False)
               | Some n0 \<Rightarrow>
                   if n0 \<le> 0 then (0, 0, False, False)
                   else
                     let n = (if n0 > sz then sz else n0) in
                     if sz = 0 then (0, 0, True, False) else (sz - n, n, True, True))
            else
              (case parse_int 64 startStr of
                 None \<Rightarrow> (0, 0, False, False)
               | Some start \<Rightarrow>
                   if start < 0 then (0, 0, False, False)
                   else if start \<ge> sz then (0, 0, True, False)
                   else if endStr = [] then (start, sz - 1 - start + 1, True, True)
                   else
                     (case parse_int 64 endStr of
                        None \<Rightarrow> (0, 0, False, False)
                      | Some e \<Rightarrow>
                          if e < start then (0, 0, False, False)
                          else
                            let end' = (if e < sz - 1 then e else sz - 1)
                            in (start, end' - start + 1, True, True))))"

section \<open>Pagination\<close>

text \<open>A Go map from a query key to its values, as an association list.\<close>

type_synonym query = "(string \<times> string list) list"

definition firstValue :: "query \<Rightarrow> string \<Rightarrow> string" where
  "firstValue q key = (case map_of q key of Some (v # _) \<Rightarrow> v | _ \<Rightarrow> [])"

definition parseN :: "string \<Rightarrow> int \<times> bool" where
  "parseN s =
     (if s = [] then (0, False)
      else case parse_int 64 s of None \<Rightarrow> (0, False) | Some n \<Rightarrow> (n, True))"

text \<open>\<open>sort.SearchStrings\<close>: the first index whose element is not smaller.\<close>

definition SearchStrings :: "string list \<Rightarrow> string \<Rightarrow> nat" where
  "SearchStrings items x = bsearch (\<lambda>i. items ! i \<ge> x) 0 (length items)"

function skip_le :: "string list \<Rightarrow> string \<Rightarrow> nat \<Rightarrow> nat" where
  "skip_le items l i = (if i < length items \<and> items ! i \<le> l then skip_le items l (i + 1) else i)"
  by pat_completeness auto
termination by (relation "measure (\<lambda>(items, _, i). length items - i)") auto

declare skip_le.simps [simp del]

definition paginate :: "string list \<Rightarrow> query \<Rightarrow> string list \<times> string" where
  "paginate items0 q =
     (let last' = firstValue q ''last'';
          items = (if last' \<noteq> [] then drop (skip_le items0 last' (SearchStrings items0 last')) items0 else items0);
          (n, ok) = parseN (firstValue q ''n'')
      in if \<not> ok \<or> n \<le> 0 \<or> n \<ge> int (length items) then (items, [])
         else let page = take (nat n) items in (page, last page))"

section \<open>The Link header\<close>

definition unreserved :: "char \<Rightarrow> bool" where
  "unreserved c \<longleftrightarrow>
     (let n = of_char c :: nat in
      (97 \<le> n \<and> n \<le> 122) \<or> (65 \<le> n \<and> n \<le> 90) \<or> (48 \<le> n \<and> n \<le> 57) \<or> c \<in> set ''-_.~'')"

definition upper_hex :: "nat \<Rightarrow> char" where
  "upper_hex n = ''0123456789ABCDEF'' ! n"

definition escape_byte :: "char \<Rightarrow> string" where
  "escape_byte c =
     (if unreserved c then [c]
      else if c = CHR '' '' then ''+''
      else [CHR ''%'', upper_hex (of_char c div 16), upper_hex (of_char c mod 16)])"

definition QueryEscape :: "string \<Rightarrow> string" where
  "QueryEscape s = concat (map escape_byte s)"

text \<open>\<open>url.Values.Encode\<close> sorts by key, so \<open>last\<close> comes before \<open>n\<close>.\<close>

definition linkNext :: "string \<Rightarrow> string \<Rightarrow> string \<Rightarrow> string" where
  "linkNext base n last' =
     ''<'' @ base @ ''?last='' @ QueryEscape last' @
     (if n \<noteq> [] then ''&n='' @ QueryEscape n else []) @ ''>; rel='' @ [CHR 0x22] @ ''next'' @ [CHR 0x22]"

fun unhex :: "char \<Rightarrow> nat" where
  "unhex c =
     (let n = of_char c :: nat in
      if 48 \<le> n \<and> n \<le> 57 then n - 48 else if 97 \<le> n \<and> n \<le> 102 then n - 87 else n - 55)"

text \<open>\<open>url.QueryUnescape\<close> on well-formed input, with which the next request reads the query back.\<close>

fun QueryUnescape :: "string \<Rightarrow> string" where
  "QueryUnescape (c # a # b # cs) =
     (if c = CHR ''%'' then char_of (16 * unhex a + unhex b) # QueryUnescape cs
      else (if c = CHR ''+'' then CHR '' '' else c) # QueryUnescape (a # b # cs))"
| "QueryUnescape (c # cs) = (if c = CHR ''+'' then CHR '' '' else c) # QueryUnescape cs"
| "QueryUnescape [] = []"

section \<open>Facts\<close>

lemma parse_range_bounds:
  assumes "parseRange header sz = (start, len, hasRange, satisfiable)" "0 \<le> sz"
  shows "satisfiable \<Longrightarrow> hasRange \<and> 0 \<le> start \<and> 0 < len \<and> start + len \<le> sz"
    "\<not> satisfiable \<Longrightarrow> start = 0 \<and> len = 0"
  using assms by (auto simp: parseRange_def Let_def split: if_splits option.splits)

text \<open>A satisfiable \<open>Range\<close> always lies inside the content: the start is not negative, the length is
  positive and the last byte is below the size, whatever the header holds; an unsatisfiable one has no
  bytes to serve.\<close>

theorem range_within_content:
  assumes "parseRange header sz = (start, len, hasRange, satisfiable)" "0 \<le> sz"
  shows "(satisfiable \<longrightarrow> hasRange \<and> 0 \<le> start \<and> 0 < len \<and> start + len \<le> sz) \<and>
         (\<not> satisfiable \<longrightarrow> start = 0 \<and> len = 0)"
  using parse_range_bounds [OF assms] by blast

theorem range_within_content_witness:
  "parseRange ''bytes=2-100'' 10 = (2, 8, True, True) \<and> (0::int) \<le> 2 \<and> (2::int) + 8 \<le> 10"
proof -
  have r: "parseRange ''bytes=2-100'' 10 = (2, 8, True, True)" by code_simp
  then show ?thesis using range_within_content [OF r] by simp
qed

lemma skip_le_eq: "skip_le items l i = i + length (takeWhile (\<lambda>x. x \<le> l) (drop i items))"
proof (induction items l i rule: skip_le.induct)
  case (1 items l i)
  show ?case
  proof (cases "i < length items \<and> items ! i \<le> l")
    case True
    then have "drop i items = items ! i # drop (i + 1) items" by (simp add: Cons_nth_drop_Suc)
    with True 1 show ?thesis by (simp add: skip_le.simps [of items l i])
  next
    case False
    then show ?thesis
      by (cases "i < length items") (simp_all add: skip_le.simps [of items l i] Cons_nth_drop_Suc [symmetric])
  qed
qed

lemma SearchStrings_spec:
  assumes "sorted items"
  shows "SearchStrings items x \<le> length items" "\<And>k. k < SearchStrings items x \<Longrightarrow> items ! k < x"
proof -
  have *: "\<forall>a b. 0 \<le> a \<and> a \<le> b \<and> b < length items \<and> items ! a \<ge> x \<longrightarrow> items ! b \<ge> x"
    by (auto intro: order_trans [OF _ sorted_nth_mono [OF assms]])
  note s = bsearch_spec [OF le0 *]
  from s show "SearchStrings items x \<le> length items" unfolding SearchStrings_def by blast
  from s show "\<And>k. k < SearchStrings items x \<Longrightarrow> items ! k < x"
    unfolding SearchStrings_def by (metis le0 not_le)
qed

text \<open>The search and the loop after it drop exactly the entries up to \<open>last\<close>.\<close>

lemma drop_search:
  assumes "sorted items"
  shows "drop (skip_le items l (SearchStrings items l)) items = filter (\<lambda>x. l < x) items"
proof -
  let ?k = "SearchStrings items l"
  note s = SearchStrings_spec [OF assms, where x = l]
  have so: "sorted (drop ?k items)" using assms by (rule sorted_wrt_drop)
  have "filter (\<lambda>x. l < x) (take ?k items) = []"
    using s by (auto simp: filter_empty_conv in_set_conv_nth less_le_not_le)
  then have "filter (\<lambda>x. l < x) items = filter (\<lambda>x. l < x) (drop ?k items)"
    by (metis append_take_drop_id filter_append append_self_conv2)
  also have "\<dots> = dropWhile (\<lambda>x. x \<le> l) (drop ?k items)"
  proof -
    have *: "sorted xs \<Longrightarrow> filter (\<lambda>x. l < x) xs = dropWhile (\<lambda>x. x \<le> l) xs" for xs
    proof (induction xs)
      case (Cons a xs)
      show ?case
      proof (cases "a \<le> l")
        case False
        then have "\<forall>x \<in> set (a # xs). l < x" using Cons.prems by (auto simp: not_le intro: less_le_trans)
        then have "filter (\<lambda>x. l < x) (a # xs) = a # xs" by (simp only: filter_id_conv)
        with False show ?thesis by simp
      qed (use Cons in auto)
    qed simp
    show ?thesis by (rule * [OF so])
  qed
  also have "\<dots> = drop (skip_le items l ?k) items"
    by (simp add: skip_le_eq dropWhile_eq_drop add.commute)
  finally show ?thesis by simp
qed

text \<open>The reference: the entries above \<open>last\<close>, cut after \<open>n\<close>.\<close>

definition page_ref :: "string list \<Rightarrow> string \<Rightarrow> int option \<Rightarrow> string list" where
  "page_ref items l n =
     (let rest = (if l = [] then items else filter (\<lambda>x. l < x) items)
      in case n of Some k \<Rightarrow> if k \<le> 0 then rest else take (nat k) rest | None \<Rightarrow> rest)"

lemma paginate_ref:
  assumes "sorted items"
  shows "fst (paginate items q) = page_ref items (firstValue q ''last'')
           (case parseN (firstValue q ''n'') of (n, ok) \<Rightarrow> if ok then Some n else None)"
  using drop_search [OF assms]
  by (auto simp: paginate_def page_ref_def Let_def split: prod.splits)

text \<open>A client follows the \<open>Link\<close> headers: it asks for \<open>n\<close> entries and passes each \<open>next\<close> as \<open>last\<close>.\<close>

definition page_query :: "nat \<Rightarrow> string \<Rightarrow> query" where
  "page_query n l = (''n'', [itoa (int n)]) # (if l = [] then [] else [(''last'', [l])])"

fun follow_pages :: "nat \<Rightarrow> string list \<Rightarrow> nat \<Rightarrow> string \<Rightarrow> string list option" where
  "follow_pages 0 items n l = None"
| "follow_pages (Suc k) items n l =
     (let (page, nxt) = paginate items (page_query n l)
      in if nxt = [] then Some page else map_option (\<lambda>rest. page @ rest) (follow_pages k items n nxt))"

lemma parseN_itoa: "int n < 2 ^ 63 \<Longrightarrow> parseN (itoa (int n)) = (int n, True)"
  using parse_itoa [of 64 "int n"] nat_digits_props [of n] by (simp add: parseN_def itoa_def)

lemma firstValue_page:
  "firstValue (page_query n l) ''n'' = itoa (int n)" "firstValue (page_query n l) ''last'' = l"
  by (simp_all add: page_query_def firstValue_def)

lemma paginate_page:
  assumes "sorted items" "0 < n" "int n < 2 ^ 63"
  shows "paginate items (page_query n l) =
    (let rest = (if l = [] then items else filter (\<lambda>x. l < x) items)
     in if n \<ge> length rest then (rest, []) else (take n rest, last (take n rest)))"
  using drop_search [OF assms(1), of l] assms(2,3)
  by (simp add: paginate_def firstValue_page parseN_itoa Let_def)

lemma sorted_le_last: "sorted ys \<Longrightarrow> y \<in> set ys \<Longrightarrow> y \<le> last ys"
  by (induction ys) auto

lemma filter_above_last:
  assumes "sorted xs" "distinct xs" "0 < n" "n < length xs"
  shows "filter (\<lambda>x. last (take n xs) < x) xs = drop n xs"
proof -
  have "last (take n xs) \<in> set (take n xs)" using assms(3,4) by (intro last_in_set) auto
  have le: "sorted (take n xs @ drop n xs)" "distinct (take n xs @ drop n xs)" using assms by simp_all
  have a: "x \<le> last (take n xs)" if "x \<in> set (take n xs)" for x
    using le(1) that unfolding sorted_append by (blast intro: sorted_le_last)
  have b: "last (take n xs) < x" if "x \<in> set (drop n xs)" for x
    using le that \<open>last (take n xs) \<in> set (take n xs)\<close>
    unfolding sorted_append distinct_append by (auto simp only: order.strict_iff_order)
  have "filter (\<lambda>x. last (take n xs) < x) (take n xs @ drop n xs) = drop n xs"
  proof -
    have "filter (\<lambda>x. last (take n xs) < x) (take n xs) = []"
      unfolding filter_empty_conv using a not_less by blast
    moreover have "filter (\<lambda>x. last (take n xs) < x) (drop n xs) = drop n xs"
      unfolding filter_id_conv using b by blast
    ultimately show ?thesis by (simp only: filter_append append_self_conv2)
  qed
  then show ?thesis by simp
qed

lemma filter_above_filter: "filter (\<lambda>x. (l'::string) < x) (filter (\<lambda>x. l < x) xs) = filter (\<lambda>x. l' < x) xs"
  if "l < l'" using that by (auto simp: filter_filter intro: filter_cong)

text \<open>C13. On a sorted listing without duplicates, asking for \<open>n\<close> entries and following every \<open>Link\<close>
  returns, page by page, exactly the listing: nothing is skipped or repeated at a page boundary, and the
  links end after at most one request per entry.\<close>

theorem pages_enumerate:
  assumes "sorted items" "distinct items" "[] \<notin> set items" "0 < n" "int n < 2 ^ 63" "length items < fuel"
  shows "follow_pages fuel items n [] = Some items"
proof -
  have *: "\<And>l. (length rest < fuel \<Longrightarrow>
      rest = (if l = [] then items else filter (\<lambda>x. l < x) items) \<Longrightarrow>
      follow_pages fuel items n l = Some rest)" for rest fuel
  proof (induction fuel arbitrary: rest)
    case (Suc k)
    have so: "sorted rest" "distinct rest" "set rest \<subseteq> set items"
      using assms(1,2) Suc.prems(2) by (auto simp: sorted_wrt_filter)
    note pp = paginate_page [OF assms(1,4,5), of l, folded Suc.prems(2)]
    show ?case
    proof (cases "n \<ge> length rest")
      case True
      then show ?thesis using pp by (simp add: Let_def)
    next
      case False
      let ?nx = "last (take n rest)"
      have mem: "?nx \<in> set rest"
        by (rule in_set_takeD, rule last_in_set) (use False assms(4) in auto)
      then have ne: "?nx \<noteq> []" using so(3) assms(3) by auto
      have "filter (\<lambda>x. ?nx < x) items = filter (\<lambda>x. ?nx < x) rest"
      proof (cases "l = []")
        case False
        then have "l < ?nx" using mem Suc.prems(2) by auto
        moreover have "rest = filter (\<lambda>x. l < x) items" using False Suc.prems(2) by simp
        ultimately show ?thesis using filter_above_filter [of l ?nx items] by metis
      qed (use Suc.prems(2) in simp)
      also have "\<dots> = drop n rest" using filter_above_last [OF so(1,2) assms(4)] False by simp
      finally have d: "drop n rest = (if ?nx = [] then items else filter (\<lambda>x. ?nx < x) items)"
        using ne by simp
      have "length (drop n rest) < k" using Suc.prems(1) False assms(4) by simp
      from Suc.IH [OF this d] show ?thesis using pp False ne by (simp add: Let_def)
    qed
  qed simp
  show ?thesis by (rule *) (use assms(6) in simp_all)
qed

theorem pages_enumerate_witness:
  "sorted [''a'', ''b'', ''c''] \<and> follow_pages 4 [''a'', ''b'', ''c''] 2 [] = Some [''a'', ''b'', ''c'']"
proof -
  have "sorted [''a'', ''b'', ''c'']" "distinct [''a'', ''b'', ''c'']" by code_simp+
  then show ?thesis using pages_enumerate [of "[''a'', ''b'', ''c'']" 2 4] by simp
qed

lemma escape_cases: "escape_byte c = [c] \<and> c \<noteq> CHR ''%'' \<and> c \<noteq> CHR ''+'' \<or> escape_byte c = ''+'' \<and> c = CHR '' '' \<or>
   escape_byte c = [CHR ''%'', upper_hex (of_char c div 16), upper_hex (of_char c mod 16)]"
  by (auto simp: escape_byte_def unreserved_def)

lemma unhex_upper: "n < 16 \<Longrightarrow> unhex (upper_hex n) = n"
proof -
  assume "n < 16"
  then have "n \<in> set [0..<16]" by simp
  moreover have "list_all (\<lambda>n. unhex (upper_hex n) = n) [0..<16]" by code_simp
  ultimately show ?thesis unfolding list_all_iff by blast
qed

lemma unescape_Cons: "c \<noteq> CHR ''%'' \<Longrightarrow> QueryUnescape (c # cs) = (if c = CHR ''+'' then CHR '' '' else c) # QueryUnescape cs"
  by (cases cs rule: remdups_adj.cases) simp_all

lemma of_char_256: "of_char c < (256::nat)"
  using of_char_mod_256 [of c, where 'a = nat] mod_less_divisor [of 256 "of_char c :: nat"] by simp

lemma upper_hex_safe: "n < 16 \<Longrightarrow> upper_hex n \<notin> set ''&=>?# ''"
proof -
  assume "n < 16"
  then have "n \<in> set [0..<16]" by simp
  moreover have "list_all (\<lambda>n. upper_hex n \<notin> set ''&=>?# '') [0..<16]" by code_simp
  ultimately show ?thesis unfolding list_all_iff by blast
qed

lemma escape_safe: "set (escape_byte c) \<inter> set ''&=>?# '' = {}"
proof -
  have "upper_hex (of_char c div 16) \<notin> set ''&=>?# ''" "upper_hex (of_char c mod 16) \<notin> set ''&=>?# ''"
    using of_char_256 [of c] by (auto intro!: upper_hex_safe simp del: set_simps simp: less_mult_imp_div_less)
  moreover have "unreserved c \<Longrightarrow> c \<notin> set ''&=>?# ''" by (auto simp: unreserved_def)
  ultimately show ?thesis by (cases "unreserved c"; cases "c = CHR '' ''") (auto simp: escape_byte_def)
qed

lemma unescape_escape_byte: "QueryUnescape (escape_byte c @ cs) = c # QueryUnescape cs"
  using escape_cases [of c]
proof (elim disjE conjE)
  assume e: "escape_byte c = [CHR ''%'', upper_hex (of_char c div 16), upper_hex (of_char c mod 16)]"
  have "16 * unhex (upper_hex (of_char c div 16)) + unhex (upper_hex (of_char c mod 16)) = of_char c"
    using of_char_256 [of c] by (simp add: unhex_upper less_mult_imp_div_less del: unhex.simps)
  then show ?thesis by (simp add: e)
qed (simp_all add: unescape_Cons)

lemma query_escape_inverse: "QueryUnescape (QueryEscape s) = s \<and> set (QueryEscape s) \<inter> set ''&=>?# '' = {}"
proof (induction s)
  case (Cons c s)
  have "QueryEscape (c # s) = escape_byte c @ QueryEscape s" by (simp add: QueryEscape_def)
  then show ?case using Cons escape_safe [of c] unescape_escape_byte [of c] by (simp only: set_append) blast
qed (simp add: QueryEscape_def)

text \<open>The \<open>Link\<close> header carries the \<open>last\<close> value of the next page so that it is read back unchanged, for
  every byte string: the escaped text ends at the first separator, has none of the bytes that end a query
  value, and unescapes to the value.\<close>

theorem query_escape_roundtrip:
  "\<exists>v rest. linkNext base n l = ''<'' @ base @ ''?last='' @ v @ rest \<and> hd rest \<in> set ''&>'' \<and>
     set v \<inter> set ''&=>?# '' = {} \<and> QueryUnescape v = l"
proof (intro exI conjI)
  show "linkNext base n l = ''<'' @ base @ ''?last='' @ QueryEscape l @
    ((if n \<noteq> [] then ''&n='' @ QueryEscape n else []) @ ''>; rel='' @ [CHR 0x22] @ ''next'' @ [CHR 0x22])"
    by (simp add: linkNext_def)
qed (use query_escape_inverse [of l] in simp_all)

end
