(* ===== verification/Registry.thy ===== *)
theory Registry
  imports Gc Http
begin

text \<open>
  The HTTP handlers of the OCI registry (\<open>pkg/registry/registry.go\<close>, \<open>pkg/registry/mirror.go\<close>) over the
  storage backend. A handler takes the response being written and the backend and returns both. The
  upstream of a pull-through mirror or a re-export source (\<open>imageSource\<close>) is a parameter.
\<close>

section \<open>Requests and responses\<close>

datatype http_method = GET | HEAD | POST | PUT | PATCH | DELETE | OtherMethod

text \<open>
  The body of a request is the sequence of chunks its reads deliver, ended by EOF or by an error. The
  fresh upload id and the clock readings of the handler are inputs of the request.
\<close>

record request =
  rqMethod :: http_method
  rqPath :: string
  rqQuery :: query
  rqRange :: string
  rqContentType :: string
  rqChunks :: "string list"
  rqReadErr :: "serr option"
  rqContentLength :: int
  rqFreshId :: string
  rqNow :: int
  rqNow2 :: int

datatype emsg = Msg string | ErrText serr | TooLargeMsg int | DigestMsg string string | UnwritableMsg serr

datatype payload = NoBody | Raw string | ErrorBody string emsg | TagsBody string "string list"
  | ReposBody "string list" | RefsBody "descriptor list"

record response =
  status :: nat
  headers :: "(string \<times> string) list"
  payload :: payload

definition set_header :: "string \<Rightarrow> string \<Rightarrow> response \<Rightarrow> response" where
  "set_header k v w = w\<lparr>headers := AList.update k v (headers w)\<rparr>"

definition reply :: "nat \<Rightarrow> payload \<Rightarrow> response \<Rightarrow> response" where
  "reply code p w = w\<lparr>status := code, payload := p\<rparr>"

definition writeError :: "response \<Rightarrow> nat \<Rightarrow> string \<Rightarrow> emsg \<Rightarrow> response" where
  "writeError w code ecode msg = reply code (ErrorBody ecode msg) (set_header ''Content-Type'' ''application/json'' w)"

definition writeJSON :: "response \<Rightarrow> nat \<Rightarrow> payload \<Rightarrow> response" where
  "writeJSON w code v = reply code v (set_header ''Content-Type'' ''application/json'' w)"

definition writeJSONRaw :: "response \<Rightarrow> nat \<Rightarrow> payload \<Rightarrow> response" where
  "writeJSONRaw w code v =
     reply code v (if map_of (headers w) ''Content-Type'' \<in> {None, Some []}
                   then set_header ''Content-Type'' ''application/json'' w else w)"

section \<open>The registry\<close>

record image_source =
  srcManifest :: "string \<Rightarrow> string \<Rightarrow> (string \<times> string \<times> string) res"
  srcBlob :: "string \<Rightarrow> string \<Rightarrow> (reader \<times> int) res"
  srcCaches :: bool

text \<open>\<open>seekable\<close> says whether the blob readers of the store implement \<open>io.Seeker\<close>.\<close>

record registry =
  hasStore :: bool
  maxBlobSize :: int
  source :: "image_source option"
  sourceReadOnly :: bool
  seekable :: bool

definition defaultMaxBlobSize :: int where
  "defaultMaxBlobSize = 10 * 2 ^ 30"

definition maxManifestSize :: nat where
  "maxManifestSize = 32 * 2 ^ 20"

definition WithMaxBlobSize :: "int \<Rightarrow> registry \<Rightarrow> registry" where
  "WithMaxBlobSize n r = r\<lparr>maxBlobSize := (if n \<le> 0 then defaultMaxBlobSize else n)\<rparr>"

definition WithMirror :: "image_source option \<Rightarrow> registry \<Rightarrow> registry" where
  "WithMirror m r = (case m of None \<Rightarrow> r | Some _ \<Rightarrow> r\<lparr>source := m\<rparr>)"

definition NewRegistry :: "bool \<Rightarrow> bool \<Rightarrow> (registry \<Rightarrow> registry) list \<Rightarrow> registry" where
  "NewRegistry st seek opts =
     foldl (\<lambda>r opt. opt r)
       \<lparr>hasStore = st, maxBlobSize = defaultMaxBlobSize, source = None, sourceReadOnly = False, seekable = seek\<rparr> opts"

definition readOnly :: "registry \<Rightarrow> bool" where
  "readOnly r \<longleftrightarrow> \<not> hasStore r \<or> sourceReadOnly r"

definition rejectReadOnly :: "response \<Rightarrow> response" where
  "rejectReadOnly w = writeError w 405 ''UNSUPPORTED''
     (Msg ''registry is read-only in re-export mode; change images in the local Docker/containerd store instead'')"

definition blobTooLarge :: "registry \<Rightarrow> response \<Rightarrow> response" where
  "blobTooLarge r w = writeError w 413 ''BLOB_UPLOAD_INVALID'' (TooLargeMsg (maxBlobSize r))"

text \<open>\<open>cappedReader\<close>: the chunk that crosses the ceiling is still delivered, together with the error.\<close>

fun cap_chunks :: "int \<Rightarrow> string list \<Rightarrow> serr option \<Rightarrow> reader" where
  "cap_chunks remaining [] err = ([], err)"
| "cap_chunks remaining (p # ps) err =
     (if remaining - int (length p) < 0 then (p, Some ErrTooLarge)
      else case cap_chunks (remaining - int (length p)) ps err of (s, e) \<Rightarrow> (p @ s, e))"

definition capBody :: "registry \<Rightarrow> request \<Rightarrow> reader" where
  "capBody r req = cap_chunks (maxBlobSize r) (rqChunks req) (rqReadErr req)"

text \<open>The answer of \<open>writeStoreUnwritable\<close>, when it gives one.\<close>

definition writeStoreUnwritable :: "response \<Rightarrow> serr \<Rightarrow> response option" where
  "writeStoreUnwritable w err =
     (if err \<noteq> ErrPermission then None
      else Some (writeError w 503 ''UNAVAILABLE'' (UnwritableMsg err)))"

definition blobPutError :: "registry \<Rightarrow> response \<Rightarrow> serr \<Rightarrow> response" where
  "blobPutError r w err =
     (if err = ErrDigestMismatch then writeError w 400 ''DIGEST_INVALID'' (ErrText err)
      else if err = ErrTooLarge then blobTooLarge r w
      else case writeStoreUnwritable w err of
        Some w' \<Rightarrow> w'
      | None \<Rightarrow> writeError w 500 ''UNKNOWN'' (ErrText err))"

definition hDigest :: string where
  "hDigest = ''Docker-Content-Digest''"

section \<open>Blobs\<close>

text \<open>What remains to be read after \<open>seekForward\<close>, and whether it succeeded.\<close>

definition seekForward :: "bool \<Rightarrow> string \<Rightarrow> nat \<Rightarrow> bool \<times> string" where
  "seekForward seek content offset =
     (if offset = 0 then (True, content)
      else if seek then (True, drop offset content)
      else (offset \<le> length content, drop offset content))"

definition serveLocalBlob ::
  "'s store_if \<Rightarrow> registry \<Rightarrow> response \<Rightarrow> 's backend \<Rightarrow> request \<Rightarrow> string \<Rightarrow> nat \<Rightarrow> response" where
  "serveLocalBlob S r w0 b req digest n =
     (let w = set_header ''Accept-Ranges'' ''bytes''
                (set_header ''Content-Type'' ''application/octet-stream'' (set_header hDigest digest w0));
          (start, len, hasRange, satisfiable) = parseRange (rqRange req) (int n)
      in if hasRange \<and> \<not> satisfiable then
           writeError (set_header ''Content-Range'' (''bytes */'' @ itoa (int n)) w) 416 ''RANGE_INVALID''
             (Msg ''requested range not satisfiable'')
         else if rqMethod req = HEAD then
           reply 200 NoBody (set_header ''Content-Length'' (itoa (int n)) w)
         else case GetBlob S b digest of
           Inl _ \<Rightarrow> writeError w 404 ''BLOB_UNKNOWN'' (Msg ''blob unknown'')
         | Inr content \<Rightarrow>
             if hasRange then
               (case seekForward (seekable r) content (nat start) of
                  (False, rest) \<Rightarrow> reply 200 (Raw rest) (set_header ''Content-Length'' (itoa (int n)) w)
                | (True, rest) \<Rightarrow>
                    reply 206 (Raw (take (nat len) rest))
                      (set_header ''Content-Range''
                         (''bytes '' @ itoa start @ ''-'' @ itoa (start + len - 1) @ ''/'' @ itoa (int n))
                         (set_header ''Content-Length'' (itoa len) w)))
             else reply 200 (Raw content) (set_header ''Content-Length'' (itoa (int n)) w))"

text \<open>
  \<open>serveBlobFromSource\<close> re-dispatches to \<open>handleBlob\<close> once the blob is cached, and \<open>handleBlob\<close> calls it on
  a miss: the two are mutually recursive, with the depth as fuel; \<open>None\<close> is a call still open at that depth.
  The inner \<open>option\<close> of \<open>serveBlobFromSource\<close> is its boolean result with the response.
\<close>

fun handleBlobRead ::
    "nat \<Rightarrow> 's store_if \<Rightarrow> registry \<Rightarrow> response \<Rightarrow> 's backend \<Rightarrow> request \<Rightarrow> string \<Rightarrow> string \<Rightarrow> (response \<times> 's backend) option"
  and serveBlobFromSource ::
    "nat \<Rightarrow> 's store_if \<Rightarrow> registry \<Rightarrow> response \<Rightarrow> 's backend \<Rightarrow> request \<Rightarrow> string \<Rightarrow> string \<Rightarrow>
     (response option \<times> 's backend) option" where
  "handleBlobRead fuel S r w b req name digest =
     (case (if readOnly r then Inl ErrNotFound else StatBlob S b digest) of
        Inr n \<Rightarrow> Some (serveLocalBlob S r w b req digest n, b)
      | Inl _ \<Rightarrow>
          (case serveBlobFromSource fuel S r w b req name digest of
             None \<Rightarrow> None
           | Some (Some w', b') \<Rightarrow> Some (w', b')
           | Some (None, b') \<Rightarrow> Some (writeError w 404 ''BLOB_UNKNOWN'' (Msg ''blob unknown''), b')))"
| "serveBlobFromSource fuel S r w b req name digest =
     (case source r of
        None \<Rightarrow> Some (None, b)
      | Some src \<Rightarrow>
          (case srcBlob src name digest of
             Inl _ \<Rightarrow> Some (None, b)
           | Inr (rc, size') \<Rightarrow>
               if srcCaches src \<and> hasStore r then
                 (case PutBlob S b rc digest of
                    (Inl _, b') \<Rightarrow> Some (None, b')
                  | (Inr _, b') \<Rightarrow>
                      (case fuel of
                         0 \<Rightarrow> None
                       | Suc fuel' \<Rightarrow>
                           map_option (\<lambda>(w', b''). (Some w', b'')) (handleBlobRead fuel' S r w b' req name digest)))
               else
                 let w' = set_header ''Accept-Ranges'' ''bytes'' (set_header ''Content-Length'' (itoa size')
                       (set_header ''Content-Type'' ''application/octet-stream'' (set_header hDigest digest w)))
                 in Some (Some (reply 200 (if rqMethod req \<noteq> HEAD then Raw (fst rc) else NoBody) w'), b)))"

declare handleBlobRead.simps [simp del] serveBlobFromSource.simps [simp del]

definition handleBlob ::
  "nat \<Rightarrow> 's store_if \<Rightarrow> registry \<Rightarrow> response \<Rightarrow> 's backend \<Rightarrow> request \<Rightarrow> string \<Rightarrow> string \<Rightarrow>
   (response \<times> 's backend) option" where
  "handleBlob fuel S r w b req name digest =
     (if rqMethod req = HEAD \<or> rqMethod req = GET then handleBlobRead fuel S r w b req name digest
      else if rqMethod req = DELETE then
        if readOnly r then Some (rejectReadOnly w, b)
        else Some (case DeleteBlob S b digest of
            (Some e, b') \<Rightarrow>
              (if e = ErrNotFound then writeError w 404 ''BLOB_UNKNOWN'' (Msg ''blob unknown'')
               else writeError w 500 ''UNKNOWN'' (ErrText e), b')
          | (None, b') \<Rightarrow> (reply 202 NoBody w, b'))
      else Some (writeError w 405 ''UNSUPPORTED'' (Msg ''method not allowed''), b))"

section \<open>Uploads\<close>

definition blob_created :: "response \<Rightarrow> string \<Rightarrow> string \<Rightarrow> response" where
  "blob_created w name d =
     reply 201 NoBody (set_header hDigest d (set_header ''Location'' (''/v2/'' @ name @ ''/blobs/'' @ d) w))"

definition uploadPost ::
  "'s store_if \<Rightarrow> registry \<Rightarrow> response \<Rightarrow> 's backend \<Rightarrow> request \<Rightarrow> string \<Rightarrow> response \<times> 's backend" where
  "uploadPost S r w b req name =
     (let mount = firstValue (rqQuery req) ''mount''; digest = firstValue (rqQuery req) ''digest'' in
      if mount \<noteq> [] \<and> \<not> isl (StatBlob S b mount) then (blob_created w name mount, b)
      else if digest \<noteq> [] then
        (case PutBlob S b (capBody r req) digest of
           (Inl e, b') \<Rightarrow> (blobPutError r w e, b')
         | (Inr (got, _), b') \<Rightarrow> (blob_created w name got, b'))
      else
        (case NewUpload S b (rqFreshId req) (rqNow req) of
           (Inl e, b') \<Rightarrow> (writeError w 500 ''UNKNOWN'' (ErrText e), b')
         | (Inr u, b') \<Rightarrow>
             (reply 202 NoBody (set_header ''Range'' ''0-0'' (set_header ''Docker-Upload-UUID'' (upload_id u)
                (set_header ''Location'' (''/v2/'' @ name @ ''/blobs/uploads/'' @ upload_id u) w))), b')))"

definition uploadPatch ::
  "'s store_if \<Rightarrow> registry \<Rightarrow> response \<Rightarrow> 's backend \<Rightarrow> request \<Rightarrow> string \<Rightarrow> string \<Rightarrow> response \<times> 's backend" where
  "uploadPatch S r w b req name uploadID =
     (case GetUpload S b uploadID of
        Inl _ \<Rightarrow> (writeError w 404 ''BLOB_UPLOAD_UNKNOWN'' (Msg ''upload unknown''), b)
      | Inr u \<Rightarrow>
          (case WriteUpload b u (capBody r req) (rqNow req) of
             (Inl e, b1) \<Rightarrow>
               if e = ErrTooLarge then (blobTooLarge r w, snd (AbortUpload S b1 uploadID))
               else (writeError w 500 ''UNKNOWN'' (ErrText e), b1)
           | (Inr tot, b1) \<Rightarrow>
               if int tot > maxBlobSize r then (blobTooLarge r w, snd (AbortUpload S b1 uploadID))
               else
                 (reply 202 NoBody (set_header ''Range'' (''0-'' @ itoa (int tot - 1))
                    (set_header ''Docker-Upload-UUID'' uploadID
                      (set_header ''Location'' (''/v2/'' @ name @ ''/blobs/uploads/'' @ uploadID) w))), b1)))"

definition uploadCommit ::
  "'s store_if \<Rightarrow> registry \<Rightarrow> response \<Rightarrow> 's backend \<Rightarrow> string \<Rightarrow> upload \<Rightarrow> string \<Rightarrow> response \<times> 's backend" where
  "uploadCommit S r w b name u digest =
     (case CommitUpload S b u digest of
        (Inl e, b') \<Rightarrow> (blobPutError r w e, b')
      | (Inr (got, _), b') \<Rightarrow> (blob_created w name got, b'))"

definition uploadPut ::
  "'s store_if \<Rightarrow> registry \<Rightarrow> response \<Rightarrow> 's backend \<Rightarrow> request \<Rightarrow> string \<Rightarrow> string \<Rightarrow> response \<times> 's backend" where
  "uploadPut S r w b req name uploadID =
     (let digest = firstValue (rqQuery req) ''digest'' in
      if digest = [] then (writeError w 400 ''DIGEST_INVALID'' (Msg ''missing digest''), b)
      else case GetUpload S b uploadID of
        Inl _ \<Rightarrow> (writeError w 404 ''BLOB_UPLOAD_UNKNOWN'' (Msg ''upload unknown''), b)
      | Inr u \<Rightarrow>
          if rqContentLength req \<noteq> 0 then
            (case WriteUpload b u (capBody r req) (rqNow req) of
               (Inl e, b1) \<Rightarrow>
                 if e = ErrTooLarge then (blobTooLarge r w, snd (AbortUpload S b1 uploadID))
                 else (case writeStoreUnwritable w e of
                         Some w' \<Rightarrow> (w', b1)
                       | None \<Rightarrow> (writeError w 500 ''UNKNOWN'' (ErrText e), b1))
             | (Inr tot, b1) \<Rightarrow>
                 if int tot > maxBlobSize r then (blobTooLarge r w, snd (AbortUpload S b1 uploadID))
                 else uploadCommit S r w b1 name u digest)
          else uploadCommit S r w b name u digest)"

definition handleBlobUpload ::
  "'s store_if \<Rightarrow> registry \<Rightarrow> response \<Rightarrow> 's backend \<Rightarrow> request \<Rightarrow> string \<Rightarrow> string \<Rightarrow> response \<times> 's backend" where
  "handleBlobUpload S r w b req name uploadID =
     (if readOnly r then (rejectReadOnly w, b)
      else case rqMethod req of
        POST \<Rightarrow> uploadPost S r w b req name
      | PATCH \<Rightarrow> uploadPatch S r w b req name uploadID
      | PUT \<Rightarrow> uploadPut S r w b req name uploadID
      | DELETE \<Rightarrow> (reply 204 NoBody w, snd (AbortUpload S b uploadID))
      | _ \<Rightarrow> (writeError w 405 ''UNSUPPORTED'' (Msg ''method not allowed''), b))"

section \<open>Manifests\<close>

definition ociManifest :: string where
  "ociManifest = ''application/vnd.oci.image.manifest.v1+json''"

text \<open>\<open>json.Unmarshal\<close> of the \<open>mediaType\<close> field is the parameter \<open>um\<close>.\<close>

definition detectMediaType :: "(string \<Rightarrow> string option) \<Rightarrow> string \<Rightarrow> string" where
  "detectMediaType um body =
     (case um body of Some mt \<Rightarrow> if mt \<noteq> [] then mt else ociManifest | None \<Rightarrow> ociManifest)"

text \<open>\<open>io.ReadAll (io.LimitReader body limit)\<close>.\<close>

definition read_limited :: "nat \<Rightarrow> request \<Rightarrow> string res" where
  "read_limited limit req =
     (let s = concat (rqChunks req) in
      if length s \<ge> limit then Inr (take limit s)
      else case rqReadErr req of Some e \<Rightarrow> Inl e | None \<Rightarrow> Inr s)"

definition manifest_reply :: "response \<Rightarrow> http_method \<Rightarrow> string \<Rightarrow> string \<Rightarrow> string \<Rightarrow> response" where
  "manifest_reply w meth content digest mediaType =
     (let w' = set_header ''Content-Length'' (itoa (int (length content))) (set_header hDigest digest
                 (set_header ''Content-Type'' (if mediaType = [] then ociManifest else mediaType) w))
      in reply 200 (if meth = HEAD then NoBody else Raw content) w')"

definition serveManifestFromSource ::
  "'s store_if \<Rightarrow> registry \<Rightarrow> response \<Rightarrow> 's backend \<Rightarrow> request \<Rightarrow> string \<Rightarrow> string \<Rightarrow> response option \<times> 's backend" where
  "serveManifestFromSource S r w b req name ref =
     (case source r of
        None \<Rightarrow> (None, b)
      | Some src \<Rightarrow>
          (case srcManifest src name ref of
             Inl _ \<Rightarrow> (None, b)
           | Inr (body, mt, digest) \<Rightarrow>
               (let mediaType = (if mt = [] then ociManifest else mt);
                    b' = (if srcCaches src \<and> hasStore r then snd (PutManifest S b name ref mediaType body) else b)
                in (Some (manifest_reply w (rqMethod req) body digest mediaType), b'))))"

definition manifestRead ::
  "'s store_if \<Rightarrow> registry \<Rightarrow> response \<Rightarrow> 's backend \<Rightarrow> request \<Rightarrow> string \<Rightarrow> string \<Rightarrow> response \<times> 's backend" where
  "manifestRead S r w b req name ref =
     (case (if readOnly r then Inl ErrNotFound else GetManifest S b name ref) of
        Inr (content, digest, mediaType) \<Rightarrow> (manifest_reply w (rqMethod req) content digest mediaType, b)
      | Inl _ \<Rightarrow>
          (case serveManifestFromSource S r w b req name ref of
             (Some w', b') \<Rightarrow> (w', b')
           | (None, b') \<Rightarrow> (writeError w 404 ''MANIFEST_UNKNOWN'' (Msg ''manifest unknown''), b')))"

definition manifestPut ::
  "(string \<Rightarrow> string option) \<Rightarrow> 's store_if \<Rightarrow> response \<Rightarrow> 's backend \<Rightarrow> request \<Rightarrow> string \<Rightarrow> string \<Rightarrow>
   response \<times> 's backend" where
  "manifestPut um S w b req name ref =
     (case read_limited (maxManifestSize + 1) req of
        Inl e \<Rightarrow> (writeError w 500 ''UNKNOWN'' (ErrText e), b)
      | Inr body \<Rightarrow>
          if length body > maxManifestSize then
            (writeError w 413 ''MANIFEST_INVALID'' (TooLargeMsg (int maxManifestSize)), b)
          else
            let mediaType = (if rqContentType req = [] then detectMediaType um body else rqContentType req) in
            (case PutManifest S b name ref mediaType body of
               (Inl e, b') \<Rightarrow>
                 (case writeStoreUnwritable w e of
                    Some w' \<Rightarrow> (w', b')
                  | None \<Rightarrow> (writeError w 500 ''UNKNOWN'' (ErrText e), b'))
             | (Inr digest, b') \<Rightarrow>
                 if isDigest ref \<and> ref \<noteq> digest then
                   (writeError w 400 ''DIGEST_INVALID'' (DigestMsg ref digest), b')
                 else
                   (reply 201 NoBody (set_header hDigest digest
                      (set_header ''Location'' (''/v2/'' @ name @ ''/manifests/'' @ digest) w)), b')))"

definition handleManifest ::
  "(string \<Rightarrow> string option) \<Rightarrow> 's store_if \<Rightarrow> registry \<Rightarrow> response \<Rightarrow> 's backend \<Rightarrow> request \<Rightarrow> string \<Rightarrow> string \<Rightarrow>
   response \<times> 's backend" where
  "handleManifest um S r w b req name ref =
     (if rqMethod req = HEAD \<or> rqMethod req = GET then manifestRead S r w b req name ref
      else if rqMethod req = PUT then
        if readOnly r then (rejectReadOnly w, b) else manifestPut um S w b req name ref
      else if rqMethod req = DELETE then
        if readOnly r then (rejectReadOnly w, b)
        else (case DeleteManifest S b name ref of
            (Some _, b') \<Rightarrow> (writeError w 404 ''MANIFEST_UNKNOWN'' (Msg ''manifest unknown''), b')
          | (None, b') \<Rightarrow> (reply 202 NoBody w, b'))
      else (writeError w 405 ''UNSUPPORTED'' (Msg ''method not allowed''), b))"

section \<open>Listings\<close>

definition ociIndex :: string where
  "ociIndex = ''application/vnd.oci.image.index.v1+json''"

text \<open>\<open>json.Unmarshal\<close> of a referrer manifest is the parameter \<open>rm\<close>.\<close>

definition handleReferrers ::
  "(string \<Rightarrow> referrerManifest option) \<Rightarrow> 's store_if \<Rightarrow> registry \<Rightarrow> response \<Rightarrow> 's backend \<Rightarrow> request \<Rightarrow>
   string \<Rightarrow> string \<Rightarrow> response" where
  "handleReferrers rm S r w b req name digest =
     (if rqMethod req \<noteq> GET then writeError w 405 ''UNSUPPORTED'' (Msg ''method not allowed'')
      else case (if readOnly r then Inr [] else Referrers rm S b name digest) of
        Inl e \<Rightarrow>
          if e = ErrNotFound then writeError w 404 ''NAME_UNKNOWN'' (Msg ''repository unknown'')
          else writeError w 400 ''DIGEST_INVALID'' (ErrText e)
      | Inr refs \<Rightarrow>
          let at = firstValue (rqQuery req) ''artifactType'';
              refs' = (if at \<noteq> [] then filter (\<lambda>d. ociArtifactType d = at) refs else refs);
              w' = (if at \<noteq> [] then set_header ''OCI-Filters-Applied'' ''artifactType'' w else w)
          in writeJSONRaw (set_header ''Content-Type'' ociIndex w') 200 (RefsBody refs'))"

definition link_header :: "string \<Rightarrow> request \<Rightarrow> string \<Rightarrow> response \<Rightarrow> response" where
  "link_header base req nxt w =
     (if nxt \<noteq> [] then set_header ''Link'' (linkNext base (firstValue (rqQuery req) ''n'') nxt) w else w)"

definition handleTags ::
  "'s store_if \<Rightarrow> registry \<Rightarrow> response \<Rightarrow> 's backend \<Rightarrow> request \<Rightarrow> string \<Rightarrow> response" where
  "handleTags S r w b req name =
     (if rqMethod req \<noteq> GET then writeError w 405 ''UNSUPPORTED'' (Msg ''method not allowed'')
      else if readOnly r then writeJSON w 200 (TagsBody name [])
      else case Tags S b name of
        Inl e \<Rightarrow> writeError w 500 ''UNKNOWN'' (ErrText e)
      | Inr tags \<Rightarrow>
          (case paginate tags (rqQuery req) of (page, nxt) \<Rightarrow>
             writeJSON (link_header (''/v2/'' @ name @ ''/tags/list'') req nxt w) 200 (TagsBody name page)))"

definition handleCatalog ::
  "'s store_if \<Rightarrow> registry \<Rightarrow> response \<Rightarrow> 's backend \<Rightarrow> request \<Rightarrow> response \<times> 's backend" where
  "handleCatalog S r w b req =
     (if rqMethod req \<noteq> GET then (writeError w 405 ''UNSUPPORTED'' (Msg ''method not allowed''), b)
      else if readOnly r then (writeJSON w 200 (ReposBody []), b)
      else case Repos S b (rqNow req) (rqNow2 req) of
        (Inl e, b') \<Rightarrow> (writeError w 500 ''UNKNOWN'' (ErrText e), b')
      | (Inr repos, b') \<Rightarrow>
          (case paginate repos (rqQuery req) of (page, nxt) \<Rightarrow>
             (writeJSON (link_header ''/v2/_catalog'' req nxt w) 200 (ReposBody page), b')))"

section \<open>Dispatch\<close>

definition new_response :: response where
  "new_response = \<lparr>status = 200, headers = [(''Docker-Distribution-API-Version'', ''registry/2.0'')], payload = NoBody\<rparr>"

text \<open>The two JSON decoders the handlers call.\<close>

record decoders =
  decMediaType :: "string \<Rightarrow> string option"
  decReferrer :: "string \<Rightarrow> referrerManifest option"

definition ServeHTTP ::
  "nat \<Rightarrow> decoders \<Rightarrow> 's store_if \<Rightarrow> registry \<Rightarrow> 's backend \<Rightarrow> request \<Rightarrow> (response \<times> 's backend) option" where
  "ServeHTTP fuel dec S r b req =
     (let w = new_response in
      if rqPath req = ''/v2/'' \<or> rqPath req = ''/v2'' then Some (reply 200 (Raw ''{}'') w, b)
      else if rqPath req = ''/v2/_catalog'' then Some (handleCatalog S r w b req)
      else case parsePath (rqPath req) of
        (name, kind, ref, ok) \<Rightarrow>
          if \<not> ok then Some (writeError w 404 ''NAME_UNKNOWN'' (Msg ''unrecognized path''), b)
          else case kind of
            BlobUploadKind \<Rightarrow> Some (handleBlobUpload S r w b req name ref)
          | BlobKind \<Rightarrow> handleBlob fuel S r w b req name ref
          | ManifestKind \<Rightarrow> Some (handleManifest (decMediaType dec) S r w b req name ref)
          | ReferrersKind \<Rightarrow> Some (handleReferrers (decReferrer dec) S r w b req name ref, b)
          | TagsKind \<Rightarrow> Some (handleTags S r w b req name, b)
          | NoKind \<Rightarrow> Some (writeError w 404 ''NAME_UNKNOWN'' (Msg ''unrecognized path''), b))"

section \<open>Every request is a sequence of storage steps\<close>

lemmas response_defs = reply_def set_header_def writeError_def writeJSON_def writeJSONRaw_def rejectReadOnly_def
  blobTooLarge_def blob_created_def manifest_reply_def link_header_def

abbreviation steps :: "(string \<Rightarrow> gcManifest option) \<Rightarrow> disk backend \<Rightarrow> disk backend \<Rightarrow> bool" where
  "steps pm \<equiv> (backend_step pm)\<^sup>*\<^sup>*"

lemma steps1: "backend_step pm b b' \<Longrightarrow> steps pm b b'"
  by (rule r_into_rtranclp)

lemma steps_ok: "steps pm b b' \<Longrightarrow> backend_ok b \<Longrightarrow> backend_ok b'"
  by (induction rule: rtranclp_induct) (auto intro: backend_step_ok)

lemma steps_snd:
  "steps pm b (snd (PutManifest fsStore b repo ref mt c))" "steps pm b (snd (AbortUpload fsStore b i))"
  "steps pm b (snd (DeleteManifest fsStore b repo d))" "steps pm b (snd (DeleteBlob fsStore b d))"
  "steps pm b (snd (PutBlob fsStore b rd x))"
  by (metis steps1 backend_step.intros(7) prod.collapse) (metis steps1 backend_step.intros(5) prod.collapse,
    metis steps1 backend_step.intros(8) prod.collapse, metis steps1 backend_step.intros(2) prod.collapse,
    metis steps1 backend_step.intros(1) prod.collapse)

lemma steps_write_abort:
  "WriteUpload b u rd now = (x, b1) \<Longrightarrow> steps pm b (snd (AbortUpload fsStore b1 i))"
  using steps1 [OF backend_step.write_upload] steps_snd(2) by (rule rtranclp_trans)

lemma uploadCommit_steps: "steps pm b (snd (uploadCommit fsStore r w b name u digest))"
  by (cases "CommitUpload fsStore b u digest")
    (auto simp: uploadCommit_def intro: steps1 backend_step.commit_upload split: sum.splits)

lemma uploadPost_steps: "steps pm b (snd (uploadPost fsStore r w b req name))"
  by (auto simp: uploadPost_def Let_def intro: steps1 backend_step.put_blob backend_step.new_upload
      split: sum.splits prod.splits)

lemma uploadPatch_steps: "steps pm b (snd (uploadPatch fsStore r w b req name i))"
  by (auto simp: uploadPatch_def Let_def intro: steps1 backend_step.write_upload steps_write_abort
      split: sum.splits prod.splits)

lemma uploadPut_steps: "steps pm b (snd (uploadPut fsStore r w b req name i))"
proof -
  have *: "steps pm b (snd (uploadCommit fsStore r w b1 name u d))" if "WriteUpload b u rd now = (x, b1)" for b1 u d rd now x
    using steps1 [OF backend_step.write_upload [OF that]] uploadCommit_steps by (rule rtranclp_trans)
  show ?thesis
    by (auto simp: uploadPut_def Let_def uploadCommit_steps intro: steps1 backend_step.write_upload steps_write_abort *
        split: sum.splits prod.splits option.splits)
qed

lemma handleBlobUpload_steps: "steps pm b (snd (handleBlobUpload fsStore r w b req name i))"
  by (simp add: handleBlobUpload_def uploadPost_steps uploadPatch_steps uploadPut_steps steps_snd split: http_method.split)

lemma serve_from_source_steps:
  assumes "\<And>b w1 b1 m. n = Suc m \<Longrightarrow> handleBlobRead m fsStore r w b req name digest = Some (w1, b1) \<Longrightarrow> steps pm b b1"
    and "serveBlobFromSource n fsStore r w b req name digest = Some (w2, b2)"
  shows "steps pm b b2"
proof (cases "\<exists>src rc k x b' m. source r = Some src \<and> srcBlob src name digest = Inr (rc, k) \<and>
    srcCaches src \<and> hasStore r \<and> PutBlob fsStore b rc digest = (Inr x, b') \<and> n = Suc m")
  case True
  then obtain src rc k x b' m where h: "source r = Some src" "srcBlob src name digest = Inr (rc, k)"
    "srcCaches src" "hasStore r" "PutBlob fsStore b rc digest = (Inr x, b')" "n = Suc m" by blast
  then obtain w' where "handleBlobRead m fsStore r w b' req name digest = Some (w', b2)"
    using assms(2) by (auto simp: serveBlobFromSource.simps)
  from assms(1) [OF h(6) this] show ?thesis
    using steps1 [OF backend_step.put_blob [OF h(5)], of pm] by (meson rtranclp_trans)
next
  case False
  then show ?thesis using assms(2)
    by (auto simp: serveBlobFromSource.simps Let_def intro: steps1 backend_step.put_blob
        split: option.splits sum.splits prod.splits if_splits nat.splits)
qed

lemma read_steps_from_serve:
  assumes "handleBlobRead n S r w b req name digest = Some (w1, b1)"
  shows "b1 = b \<or> (\<exists>w2. serveBlobFromSource n S r w b req name digest = Some (w2, b1))"
  using assms by (auto simp: handleBlobRead.simps split: sum.splits option.splits if_splits)

lemma handleBlobRead_steps:
  "handleBlobRead n fsStore r w b req name digest = Some (w1, b1) \<Longrightarrow> steps pm b b1"
proof (induction n arbitrary: b w1 b1)
  case 0
  from read_steps_from_serve [OF 0] show ?case
    using serve_from_source_steps [of 0 r w req name digest pm b _ b1] by auto
next
  case (Suc n)
  from read_steps_from_serve [OF Suc.prems] show ?case
    using serve_from_source_steps [of "Suc n" r w req name digest pm b _ b1] Suc.IH by auto
qed

lemma handleBlob_steps: "handleBlob n fsStore r w b req name digest = Some (w', b') \<Longrightarrow> steps pm b b'"
  by (auto simp: handleBlob_def intro: handleBlobRead_steps steps1 backend_step.delete_blob
      split: if_splits prod.splits option.splits)

lemma serveManifestFromSource_steps: "steps pm b (snd (serveManifestFromSource fsStore r w b req name ref))"
  unfolding serveManifestFromSource_def Let_def
  by (simp add: steps_snd split: option.split sum.split prod.split)

lemma manifestRead_steps: "steps pm b (snd (manifestRead fsStore r w b req name ref))"
  using serveManifestFromSource_steps [of pm b r w req name ref] unfolding manifestRead_def
  by (cases "serveManifestFromSource fsStore r w b req name ref"; cases "fst (serveManifestFromSource fsStore r w b req name ref)")
    (simp_all split: sum.split prod.split)

lemma manifestPut_steps: "steps pm b (snd (manifestPut um fsStore w b req name ref))"
proof -
  have "snd (manifestPut um fsStore w b req name ref) = b \<or>
    (\<exists>mt body. snd (manifestPut um fsStore w b req name ref) = snd (PutManifest fsStore b name ref mt body))"
  proof (cases "read_limited (maxManifestSize + 1) req")
    case (Inr body)
    let ?mt = "if rqContentType req = [] then detectMediaType um body else rqContentType req"
    obtain x b' where x: "PutManifest fsStore b name ref ?mt body = (x, b')" by (meson surj_pair)
    show ?thesis
    proof (cases "length body > maxManifestSize")
      case False
      have "snd (manifestPut um fsStore w b req name ref) = b'"
        unfolding manifestPut_def Inr sum.case if_not_P [OF False] Let_def x prod.case
        by (simp split: sum.split option.split)
      then show ?thesis using x by (metis snd_conv)
    qed (unfold manifestPut_def Inr, simp)
  next
    case (Inl e)
    show ?thesis unfolding manifestPut_def Inl by simp
  qed
  then show ?thesis using steps_snd(1) by (metis rtranclp.rtrancl_refl)
qed

lemma handleManifest_steps: "steps pm b (snd (handleManifest um fsStore r w b req name ref))"
proof -
  have "steps pm b (snd (case DeleteManifest fsStore b name ref of
      (Some _, b') \<Rightarrow> (writeError w 404 ''MANIFEST_UNKNOWN'' (Msg ''manifest unknown''), b')
    | (None, b') \<Rightarrow> (reply 202 NoBody w, b')))"
    using steps_snd(3) [of pm b name ref]
    by (cases "DeleteManifest fsStore b name ref"; cases "fst (DeleteManifest fsStore b name ref)") simp_all
  then show ?thesis unfolding handleManifest_def using manifestRead_steps manifestPut_steps by simp
qed

lemma handleCatalog_steps: "steps pm b (snd (handleCatalog fsStore r w b req))"
  by (auto simp: handleCatalog_def intro: steps1 backend_step.catalog split: sum.splits prod.splits)


definition put_request :: "http_method \<Rightarrow> string \<Rightarrow> string list \<Rightarrow> request" where
  "put_request meth p chunks =
     \<lparr>rqMethod = meth, rqPath = p, rqQuery = [], rqRange = [], rqContentType = [], rqChunks = chunks,
      rqReadErr = None, rqContentLength = int (length (concat chunks)), rqFreshId = ''u'', rqNow = 0, rqNow2 = 0\<rparr>"

lemma parse_manifest_path: "parsePath ''/v2/app/manifests/v1'' = (''app'', ManifestKind, ''v1'', True)"
  by code_simp


section \<open>Read-only mode and safe methods\<close>

definition never_caches :: "registry \<Rightarrow> bool" where
  "never_caches r \<longleftrightarrow> (\<forall>src. source r = Some src \<longrightarrow> \<not> srcCaches src)"

lemma serveBlobFromSource_pure:
  "never_caches r \<Longrightarrow> \<exists>x. serveBlobFromSource n S r w b req name digest = Some (x, b)"
  by (auto simp: never_caches_def serveBlobFromSource.simps Let_def split: option.split sum.split prod.split)

lemma handleBlobRead_pure:
  "never_caches r \<Longrightarrow> \<exists>w'. handleBlobRead n S r w b req name digest = Some (w', b)"
  using serveBlobFromSource_pure [of r n S w b req name digest]
  by (auto simp: handleBlobRead.simps split: sum.split option.split)

lemma manifestRead_pure: "never_caches r \<Longrightarrow> snd (manifestRead S r w b req name ref) = b"
  by (auto simp: manifestRead_def serveManifestFromSource_def never_caches_def Let_def
      split: sum.split option.split prod.split)

lemma status_error [simp]: "status (writeError w c e m) = c" "status (reply c p w) = c" "status (writeJSON w c p) = c"
  by (simp_all add: response_defs)

lemma status_reject [simp]: "status (rejectReadOnly w) = 405"
  by (simp add: rejectReadOnly_def)

lemma handleBlob_readonly:
  assumes "readOnly r" "never_caches r"
  shows "\<exists>w'. handleBlob n S r w b req name digest = Some (w', b) \<and> (rqMethod req \<notin> {GET, HEAD} \<longrightarrow> status w' = 405)"
  using assms handleBlobRead_pure [OF assms(2), of n S w b req name digest]
  unfolding handleBlob_def by (cases "rqMethod req") simp_all

lemma handleManifest_readonly:
  assumes "readOnly r" "never_caches r"
  shows "\<exists>w'. handleManifest um S r w b req name ref = (w', b) \<and> (rqMethod req \<notin> {GET, HEAD} \<longrightarrow> status w' = 405)"
  using assms manifestRead_pure [OF assms(2), of S w b req name ref]
  unfolding handleManifest_def by (cases "rqMethod req") (simp_all add: prod_eq_iff)

lemma ServeHTTP_kind:
  assumes "rqPath req \<noteq> ''/v2/''" "rqPath req \<noteq> ''/v2''" "rqPath req \<noteq> ''/v2/_catalog''"
    "parsePath (rqPath req) = (name, kind, ref, ok)"
  shows "ServeHTTP fuel dec S r b req =
    (if \<not> ok then Some (writeError new_response 404 ''NAME_UNKNOWN'' (Msg ''unrecognized path''), b)
     else case kind of
            BlobUploadKind \<Rightarrow> Some (handleBlobUpload S r new_response b req name ref)
          | BlobKind \<Rightarrow> handleBlob fuel S r new_response b req name ref
          | ManifestKind \<Rightarrow> Some (handleManifest (decMediaType dec) S r new_response b req name ref)
          | ReferrersKind \<Rightarrow> Some (handleReferrers (decReferrer dec) S r new_response b req name ref, b)
          | TagsKind \<Rightarrow> Some (handleTags S r new_response b req name, b)
          | NoKind \<Rightarrow> Some (writeError new_response 404 ''NAME_UNKNOWN'' (Msg ''unrecognized path''), b))"
  using assms(1-3) unfolding ServeHTTP_def Let_def assms(4) prod.case by (simp only: if_False simp_thms)



section \<open>Blob downloads\<close>

lemma StatBlob_GetBlob_length:
  assumes "fs_cas (bobj b)" "StatBlob fsStore b digest = Inr n" "GetBlob fsStore b digest = Inr c"
  shows "n = length c"
  using assms(2,3)
  by (auto simp: StatBlob_def GetBlob_def fsStore_def fsObjectStore_def fsStat_def fsGet_def os_stat_def os_read_def
      split: sum.splits if_splits option.splits)

lemma payload_simps [simp]: "payload (reply c p w) = p" "payload (set_header k v w) = payload w"
  "status (set_header k v w) = status w"
  by (simp_all add: response_defs)


lemma fsStat_live:
  assumes "healthy d" "fsInv d" "fsAbs d k = Some c"
  shows "fsStat d k = Inr (length c)"
  using fsGet_live [OF assms] assms(1)
  by (auto simp: fsStat_def fsGet_def os_stat_def os_read_def healthy_def split: if_splits option.splits)


section \<open>The upload ceiling\<close>

lemma cap_chunks_ok:
  "cap_chunks m ps e = (s, e') \<Longrightarrow> 0 \<le> m \<Longrightarrow> e' \<noteq> Some ErrTooLarge \<Longrightarrow> s = concat ps \<and> e' = e \<and> int (length s) \<le> m"
proof (induction m ps e arbitrary: s rule: cap_chunks.induct)
  case (2 m p ps e)
  then have m: "\<not> m - int (length p) < 0" by (auto split: if_splits)
  then obtain s' where "cap_chunks (m - int (length p)) ps e = (s', e')" "s = p @ s'"
    using "2.prems"(1) by (auto split: prod.splits)
  with "2.IH" [OF m this(1)] m "2.prems" show ?case by auto
qed auto

lemma status_put_error: "status (blobPutError r w e) \<noteq> 201" "status (blobTooLarge r w) = 413"
  by (simp_all add: blobPutError_def blobTooLarge_def writeStoreUnwritable_def)

text \<open>A monolithic upload is answered 201 only when the whole body was read without error, fits the
  ceiling and hashes to the digest the client gave, and then exactly that body is stored; whenever the
  answer is not 201 the stored objects are as before.\<close>

theorem monolithic_upload_exact:
  assumes "fs_cas (bobj b)" "0 \<le> maxBlobSize r" "firstValue (rqQuery req) ''mount'' = []"
    "firstValue (rqQuery req) ''digest'' = digest" "digest \<noteq> []"
    "uploadPost fsStore r w b req name = (w', b')"
  shows "if status w' = 201
    then digest = ''sha256:'' @ sha256_hex (concat (rqChunks req)) \<and> rqReadErr req = None \<and>
      int (length (concat (rqChunks req))) \<le> maxBlobSize r \<and>
      stored (fsAbs (bobj b)) (fsAbs (bobj b')) (concat (rqChunks req))
    else fsAbs (bobj b') = fsAbs (bobj b)"
proof -
  obtain res b1 where p: "PutBlob fsStore b (capBody r req) digest = (res, b1)" by fastforce
  note sp = fsc.PutBlob_spec [OF assms(1) p]
  show ?thesis
  proof (cases res)
    case (Inl e)
    then show ?thesis using assms(3-6) p sp status_put_error(1) [of r w e]
      by (auto simp: uploadPost_def Let_def put_result_def)
  next
    case (Inr x)
    obtain s e where cb: "capBody r req = (s, e)" by fastforce
    have e: "e = None" using sp Inr cb by simp
    have "s = concat (rqChunks req) \<and> e = rqReadErr req \<and> int (length s) \<le> maxBlobSize r"
      by (rule cap_chunks_ok [OF cb [unfolded capBody_def] assms(2)]) (simp add: e)
    then have "s = concat (rqChunks req)" "rqReadErr req = None" "int (length s) \<le> maxBlobSize r"
      using e by (metis, metis, metis)
    then show ?thesis using assms(3-6) p sp cb Inr
      by (cases x) (auto simp: uploadPost_def Let_def put_result_def blob_created_def)
  qed
qed

theorem monolithic_upload_exact_witness:
  "\<exists>w b'. uploadPost fsStore (WithMaxBlobSize 2 (NewRegistry True True [])) new_response
       (NewBackend blank_disk blank_stage 0)
       ((put_request POST [] [''ab'', ''c''])\<lparr>rqQuery := [(''digest'', [''sha256:00''])]\<rparr>) ''app'' = (w, b') \<and>
     status w \<noteq> 201 \<and> fsAbs (bobj b') = fsAbs blank_disk"
proof -
  let ?r = "WithMaxBlobSize 2 (NewRegistry True True [])" and ?b = "NewBackend blank_disk blank_stage 0"
    and ?q = "(put_request POST [] [''ab'', ''c''])\<lparr>rqQuery := [(''digest'', [''sha256:00''])]\<rparr>"
  obtain w b' where u: "uploadPost fsStore ?r new_response ?b ?q ''app'' = (w, b')" by fastforce
  have "fs_cas (bobj ?b)" "0 \<le> maxBlobSize ?r" "firstValue (rqQuery ?q) ''mount'' = []"
    "firstValue (rqQuery ?q) ''digest'' = ''sha256:00''" "''sha256:00'' \<noteq> []"
    by (simp_all add: blank_facts WithMaxBlobSize_def firstValue_def)
  note m = monolithic_upload_exact [OF this u]
  have "\<not> int (length (concat (rqChunks ?q))) \<le> maxBlobSize ?r" by (simp add: put_request_def WithMaxBlobSize_def)
  with m have "status w \<noteq> 201" by (auto split: if_splits)
  with m u show ?thesis by (simp add: blank_facts)
qed

lemma fsCommit_live:
  assumes "healthy d" "fsInv d" "stage_healthy g" "fs_free d (blob_path (sha256_hex c))"
    "map_of (sfiles g) (sessionPath i) = Some (c, t)"
  shows "\<exists>d' g'. fsCommit d g i (''sha256:'' @ sha256_hex c) = (Inr (''sha256:'' @ sha256_hex c, length c), d', g')"
proof -
  let ?k = "blob_path (sha256_hex c)"
  have cl: "clean_path ?k" by (simp add: clean_blob_path)
  obtain d' where "fsPut d ?k c = (None, d')" using fsPut_live [OF assms(1) cl assms(4)] by blast
  then obtain d1 where "mkdir_all d (butlast (keyPath ?k)) = (None, d1)" "os_rename_onto d1 (keyPath ?k) c = (None, d')"
    by (auto simp: fsPut_def Let_def split: prod.splits option.splits if_splits)
  then show ?thesis using assms(3,5)
    by (simp add: fsCommit_def Let_def stage_healthy_def blobKey_hex del: append_Cons split: sum.split)
qed

lemma cap_chunks_fits: "int (length (concat ps)) \<le> m \<Longrightarrow> cap_chunks m ps e = (concat ps, e)"
  by (induction ps arbitrary: m) auto

lemma GetUpload_live:
  "stage_healthy (staging b) \<Longrightarrow> map_of (sfiles (staging b)) (sessionPath i) = Some x \<Longrightarrow>
   GetUpload fsStore b i = Inr (FsUpload i)"
  by (simp add: GetUpload_def fsStore_def fsNative_def fsGetUpload_def stage_open_def stage_healthy_def)

lemma patch_error_keeps_bytes:
  assumes "stage_healthy (staging b)" "\<not> readOnly r" "map_of (sfiles (staging b)) (sessionPath i) = Some (c, t)"
    "rqMethod q = PATCH" "rqReadErr q = Some e" "e \<noteq> ErrTooLarge" "int (length (concat (rqChunks q))) \<le> maxBlobSize r"
  shows "\<exists>w1 g. handleBlobUpload fsStore r w b q name i = (w1, b\<lparr>staging := g\<rparr>) \<and> status w1 = 500 \<and> stage_healthy g \<and>
    map_of (sfiles g) (sessionPath i) = Some (c @ concat (rqChunks q), rqNow q)"
  using assms GetUpload_live [OF assms(1,3)]
  by (simp add: handleBlobUpload_def uploadPatch_def WriteUpload_def uploadWrite_def capBody_def cap_chunks_fits
      stage_healthy_def Let_def) (intro exI conjI, rule refl, simp_all add: update_conv')

lemma bodyless_put_commits:
  assumes "healthy (bobj b)" "fs_cas (bobj b)" "stage_healthy (staging b)" "\<not> readOnly r"
    "map_of (sfiles (staging b)) (sessionPath i) = Some (c, t)" "fs_free (bobj b) (blob_path (sha256_hex c))"
  shows "\<exists>w' b'. handleBlobUpload fsStore r w b
      ((put_request PUT [] [])\<lparr>rqQuery := [(''digest'', [''sha256:'' @ sha256_hex c])]\<rparr>) name i = (w', b') \<and>
    status w' = 201 \<and> stored (fsAbs (bobj b)) (fsAbs (bobj b')) c"
proof -
  let ?d = "''sha256:'' @ sha256_hex c" and ?q = "(put_request PUT [] [])\<lparr>rqQuery := [(''digest'', [''sha256:'' @ sha256_hex c])]\<rparr>"
  obtain d' g' where cm: "fsCommit (bobj b) (staging b) i ?d = (Inr (?d, length c), d', g')"
    using fsCommit_live [OF assms(1) _ assms(3,6,5)] assms(2) by (auto simp: cas_inv_def)
  then have cu: "CommitUpload fsStore b (FsUpload i) ?d = (Inr (?d, length c), b\<lparr>bobj := d', staging := g'\<rparr>)"
    by (simp add: CommitUpload_def fsStore_def fsNative_def del: append_Cons)
  have "handleBlobUpload fsStore r w b ?q name i = (blob_created w name ?d, b\<lparr>bobj := d', staging := g'\<rparr>)"
    using assms(4) GetUpload_live [OF assms(3,5)] cu
    by (simp add: handleBlobUpload_def uploadPut_def uploadCommit_def put_request_def firstValue_def del: append_Cons)
  moreover have "stored (fsAbs (bobj b)) (fsAbs d') c"
    using fsc.CommitUpload_spec [OF assms(2) cu] assms(5) by (auto simp: put_result_def)
  ultimately show ?thesis by (simp add: blob_created_def)
qed

text \<open>C12. The ceiling of a resumable upload is not cumulative. A PATCH whose body read fails midway answers
  500 but keeps the bytes it delivered, and a PUT without a body commits the session without looking at
  its size: on a disk without failures the two requests store a blob longer than the ceiling.\<close>

theorem ceiling_not_cumulative:
  assumes "healthy (bobj b)" "fs_cas (bobj b)" "stage_healthy (staging b)" "\<not> readOnly r"
    "map_of (sfiles (staging b)) (sessionPath i) = Some (c, t)"
    "rqMethod q = PATCH" "rqReadErr q = Some e" "e \<noteq> ErrTooLarge"
    "int (length (concat (rqChunks q))) \<le> maxBlobSize r"
    "s = c @ concat (rqChunks q)" "maxBlobSize r < int (length s)" "fs_free (bobj b) (blob_path (sha256_hex s))"
  shows "\<exists>w1 b1 w2 b2. handleBlobUpload fsStore r w b q name i = (w1, b1) \<and> status w1 = 500 \<and>
    handleBlobUpload fsStore r w b1
      ((put_request PUT [] [])\<lparr>rqQuery := [(''digest'', [''sha256:'' @ sha256_hex s])]\<rparr>) name i = (w2, b2) \<and>
    status w2 = 201 \<and> stored (fsAbs (bobj b)) (fsAbs (bobj b2)) s"
proof -
  obtain w1 g where p: "handleBlobUpload fsStore r w b q name i = (w1, b\<lparr>staging := g\<rparr>)" "status w1 = 500"
    "stage_healthy g" "map_of (sfiles g) (sessionPath i) = Some (s, rqNow q)"
    using patch_error_keeps_bytes [OF assms(3-9)] assms(10) by blast
  have "healthy (bobj (b\<lparr>staging := g\<rparr>))" "fs_cas (bobj (b\<lparr>staging := g\<rparr>))" "stage_healthy (staging (b\<lparr>staging := g\<rparr>))"
    "map_of (sfiles (staging (b\<lparr>staging := g\<rparr>))) (sessionPath i) = Some (s, rqNow q)"
    "fs_free (bobj (b\<lparr>staging := g\<rparr>)) (blob_path (sha256_hex s))"
    using assms(1,2,12) p(3,4) by simp_all
  from bodyless_put_commits [OF this(1-3) assms(4) this(4,5), of w name] p(1,2) show ?thesis by fastforce
qed

theorem ceiling_not_cumulative_witness:
  "\<exists>r b1 w2 b2. maxBlobSize r = 3 \<and> handleBlobUpload fsStore r new_response b1
      ((put_request PUT [] [])\<lparr>rqQuery := [(''digest'', [''sha256:'' @ sha256_hex ''abcd''])]\<rparr>) ''app'' ''u'' = (w2, b2) \<and>
    status w2 = 201 \<and> stored (fsAbs blank_disk) (fsAbs (bobj b2)) ''abcd''"
proof -
  let ?r = "WithMaxBlobSize 3 (NewRegistry True True [])"
  let ?g = "\<lparr>sfiles = [(sessionPath ''u'', ''ab'', 0)], sfails = (\<lambda>_ _. False)\<rparr>"
  let ?b = "(NewBackend blank_disk blank_stage 0)\<lparr>staging := ?g\<rparr>"
  let ?q = "(put_request PATCH [] [''cd''])\<lparr>rqReadErr := Some ErrIO\<rparr>"
  have h: "healthy (bobj ?b)" "fs_cas (bobj ?b)" "stage_healthy (staging ?b)" "\<not> readOnly ?r"
    "map_of (sfiles (staging ?b)) (sessionPath ''u'') = Some (''ab'', 0)" "rqMethod ?q = PATCH"
    "rqReadErr ?q = Some ErrIO" "ErrIO \<noteq> ErrTooLarge" "int (length (concat (rqChunks ?q))) \<le> maxBlobSize ?r"
    "''abcd'' = ''ab'' @ concat (rqChunks ?q)" "maxBlobSize ?r < int (length ''abcd'')"
    "fs_free (bobj ?b) (blob_path (sha256_hex ''abcd''))"
    by (simp_all add: blank_facts stage_healthy_def readOnly_def NewRegistry_def WithMaxBlobSize_def put_request_def)
  have "maxBlobSize ?r = 3" "bobj ?b = blank_disk" by (simp_all add: WithMaxBlobSize_def blank_facts)
  with ceiling_not_cumulative [OF h, of new_response "''app''"] show ?thesis by metis
qed

end
