(* ===== verification/BlockWire.thy ===== *)
theory BlockWire
  imports GoStd "HOL-Library.Word"
begin

text \<open>
  The block protocol between the server and the caller of a mount: the payload cursors, frames, feature
  options and the HELLO negotiation of \<open>pkg/wire/blockproto.go\<close> and the message codecs of
  \<open>pkg/wire/blockmsg.go\<close>. The law of a codec pair is the locale \<open>wire_codec\<close>, interpreted for each pair.
\<close>

unbundle bit_operations_syntax

type_synonym bytes = "8 word list"

section \<open>Big-endian integers\<close>

primrec be_enc :: "nat \<Rightarrow> nat \<Rightarrow> bytes" where
  "be_enc 0 v = []"
| "be_enc (Suc n) v = be_enc n (v div 256) @ [word_of_nat (v mod 256)]"

definition be_dec :: "bytes \<Rightarrow> nat" where
  "be_dec bs = foldl (\<lambda>a b. 256 * a + unat b) 0 bs"

lemma length_be_enc [simp]: "length (be_enc n v) = n"
  by (induction n arbitrary: v) simp_all

lemma be_dec_enc: "be_dec (be_enc n v) = v mod 256 ^ n"
proof (induction n arbitrary: v)
  case (Suc n)
  have "be_dec (be_enc (Suc n) v) = 256 * ((v div 256) mod 256 ^ n) + v mod 256"
    using Suc by (simp add: be_dec_def unat_of_nat)
  also have "\<dots> = v mod 256 ^ Suc n" by (simp add: mod_mult2_eq)
  finally show ?case .
qed (simp add: be_dec_def)

section \<open>Payload cursors\<close>

definition u8_w :: "8 word \<Rightarrow> bytes" where "u8_w v = [v]"

definition u16_w :: "16 word \<Rightarrow> bytes" where "u16_w v = be_enc 2 (unat v)"

definition u32_w :: "32 word \<Rightarrow> bytes" where "u32_w v = be_enc 4 (unat v)"

definition u64_w :: "64 word \<Rightarrow> bytes" where "u64_w v = be_enc 8 (unat v)"

text \<open>An int64 is kept as the two's complement word it is sent as.\<close>

definition i64_w :: "int \<Rightarrow> bytes" where "i64_w v = u64_w (word_of_int v)"

definition boolean_w :: "bool \<Rightarrow> bytes" where "boolean_w v = (if v then u8_w 1 else u8_w 0)"

definition blob_w :: "bytes \<Rightarrow> bytes" where "blob_w p = u32_w (word_of_nat (length p)) @ p"

definition str_w :: "bytes \<Rightarrow> bytes" where "str_w s = u32_w (word_of_nat (length s)) @ s"

record msgR =
  rb :: bytes
  roff :: nat
  rerr :: bool

definition newMsgR :: "bytes \<Rightarrow> msgR" where
  "newMsgR b = \<lparr>rb = b, roff = 0, rerr = False\<rparr>"

definition need :: "nat \<Rightarrow> msgR \<Rightarrow> bool \<times> msgR" where
  "need n r =
     (if rerr r then (False, r)
      else if roff r + n > length (rb r) then (False, r\<lparr>rerr := True\<rparr>)
      else (True, r))"

definition fixed_r :: "nat \<Rightarrow> (nat \<Rightarrow> 'a) \<Rightarrow> 'a \<Rightarrow> msgR \<Rightarrow> 'a \<times> msgR" where
  "fixed_r n conv zero r =
     (case need n r of
        (False, r') \<Rightarrow> (zero, r')
      | (True, r') \<Rightarrow> (conv (be_dec (take n (drop (roff r') (rb r')))), r'\<lparr>roff := roff r' + n\<rparr>))"

definition u8_r :: "msgR \<Rightarrow> 8 word \<times> msgR" where "u8_r = fixed_r 1 word_of_nat 0"

definition u16_r :: "msgR \<Rightarrow> 16 word \<times> msgR" where "u16_r = fixed_r 2 word_of_nat 0"

definition u32_r :: "msgR \<Rightarrow> 32 word \<times> msgR" where "u32_r = fixed_r 4 word_of_nat 0"

definition u64_r :: "msgR \<Rightarrow> 64 word \<times> msgR" where "u64_r = fixed_r 8 word_of_nat 0"

definition i64_r :: "msgR \<Rightarrow> int \<times> msgR" where
  "i64_r r = (case u64_r r of (v, r') \<Rightarrow> (sint v, r'))"

definition boolean_r :: "msgR \<Rightarrow> bool \<times> msgR" where
  "boolean_r r = (case u8_r r of (v, r') \<Rightarrow> (v \<noteq> 0, r'))"

definition blob_r :: "msgR \<Rightarrow> bytes \<times> msgR" where
  "blob_r r =
     (case u32_r r of (n, r1) \<Rightarrow>
        (case need (unat n) r1 of
           (False, r2) \<Rightarrow> ([], r2)
         | (True, r2) \<Rightarrow> (take (unat n) (drop (roff r2) (rb r2)), r2\<lparr>roff := roff r2 + unat n\<rparr>)))"

definition str_r :: "msgR \<Rightarrow> bytes \<times> msgR" where
  "str_r r =
     (case u32_r r of (n, r1) \<Rightarrow>
        (case need (unat n) r1 of
           (False, r2) \<Rightarrow> ([], r2)
         | (True, r2) \<Rightarrow> (take (unat n) (drop (roff r2) (rb r2)), r2\<lparr>roff := roff r2 + unat n\<rparr>)))"

section \<open>The contract of a codec pair\<close>

text \<open>A reader standing before the bytes \<open>s\<close>, with \<open>pre\<close> already consumed.\<close>

definition before :: "bytes \<Rightarrow> bytes \<Rightarrow> msgR" where
  "before pre s = \<lparr>rb = pre @ s, roff = length pre, rerr = False\<rparr>"

locale wire_codec =
  fixes put :: "'a \<Rightarrow> bytes" and get :: "msgR \<Rightarrow> 'a \<times> msgR" and ok :: "'a \<Rightarrow> bool"
  assumes get_put: "ok x \<Longrightarrow> get (before pre (put x @ s)) = (x, before (pre @ put x) s)"
begin

lemma decode: "ok x \<Longrightarrow> fst (get (newMsgR (put x @ s))) = x \<and> \<not> rerr (snd (get (newMsgR (put x @ s))))"
  using get_put [of x "[]" s] by (simp add: before_def newMsgR_def)

lemma put_inj: "ok x \<Longrightarrow> ok y \<Longrightarrow> put x = put y \<Longrightarrow> x = y"
  using get_put [of x "[]" "[]"] get_put [of y "[]" "[]"] by simp

text \<open>A codec is self-delimiting: no encoding is a proper prefix of another.\<close>

lemma put_prefix_free: "ok x \<Longrightarrow> ok y \<Longrightarrow> put x @ s = put y @ t \<Longrightarrow> x = y \<and> s = t"
  using get_put [of x "[]" s] get_put [of y "[]" t] by (auto simp: before_def)

end

text \<open>A loop that reads \<open>n\<close> elements.\<close>

fun get_list :: "(msgR \<Rightarrow> 'a \<times> msgR) \<Rightarrow> nat \<Rightarrow> msgR \<Rightarrow> 'a list \<times> msgR" where
  "get_list get 0 r = ([], r)"
| "get_list get (Suc n) r =
     (case get r of (x, r1) \<Rightarrow> (case get_list get n r1 of (xs, r2) \<Rightarrow> (x # xs, r2)))"

context wire_codec
begin

lemma get_list_put:
  "\<forall>x \<in> set xs. ok x \<Longrightarrow>
   get_list get (length xs) (before pre (concat (map put xs) @ s)) = (xs, before (pre @ concat (map put xs)) s)"
  by (induction xs arbitrary: pre) (simp_all add: get_put)

end

lemma unat_bound: "unat (w :: 'a::len word) < 2 ^ LENGTH('a)"
  by (rule unsigned_less)

lemma fixed_before:
  "length bs = n \<Longrightarrow> fixed_r n conv z (before pre (bs @ s)) = (conv (be_dec bs), before (pre @ bs) s)"
  by (simp add: fixed_r_def need_def before_def)

lemma u8_before [simp]: "u8_r (before pre (u8_w v @ s)) = (v, before (pre @ u8_w v) s)"
  unfolding u8_r_def by (subst fixed_before) (simp_all add: u8_w_def be_dec_def)

lemma u16_before [simp]: "u16_r (before pre (u16_w v @ s)) = (v, before (pre @ u16_w v) s)"
  unfolding u16_r_def using unat_bound [of v]
  by (subst fixed_before) (simp_all add: u16_w_def be_dec_enc)

lemma u32_before [simp]: "u32_r (before pre (u32_w v @ s)) = (v, before (pre @ u32_w v) s)"
  unfolding u32_r_def using unat_bound [of v]
  by (subst fixed_before) (simp_all add: u32_w_def be_dec_enc)

lemma u64_before [simp]: "u64_r (before pre (u64_w v @ s)) = (v, before (pre @ u64_w v) s)"
  unfolding u64_r_def using unat_bound [of v]
  by (subst fixed_before) (simp_all add: u64_w_def be_dec_enc)

interpretation cu8: wire_codec u8_w u8_r "\<lambda>_. True" by unfold_locales simp

interpretation cu16: wire_codec u16_w u16_r "\<lambda>_. True" by unfold_locales simp

interpretation cu32: wire_codec u32_w u32_r "\<lambda>_. True" by unfold_locales simp

interpretation cu64: wire_codec u64_w u64_r "\<lambda>_. True" by unfold_locales simp

definition int64 :: "int \<Rightarrow> bool" where
  "int64 v \<longleftrightarrow> - (2 ^ 63) \<le> v \<and> v < 2 ^ 63"

lemma i64_before [simp]: "int64 v \<Longrightarrow> i64_r (before pre (i64_w v @ s)) = (v, before (pre @ i64_w v) s)"
  by (simp add: i64_r_def i64_w_def int64_def signed_of_int signed_take_bit_int_eq_self)

interpretation ci64: wire_codec i64_w i64_r int64 by unfold_locales simp

lemma boolean_before [simp]: "boolean_r (before pre (boolean_w v @ s)) = (v, before (pre @ boolean_w v) s)"
  by (simp add: boolean_r_def boolean_w_def)

interpretation cbool: wire_codec boolean_w boolean_r "\<lambda>_. True" by unfold_locales simp

definition fits32 :: "bytes \<Rightarrow> bool" where
  "fits32 p \<longleftrightarrow> length p < 2 ^ 32"

lemma blob_before [simp]: "fits32 p \<Longrightarrow> blob_r (before pre (blob_w p @ s)) = (p, before (pre @ blob_w p) s)"
  by (simp add: blob_r_def blob_w_def fits32_def) (simp add: need_def before_def unat_of_nat)

lemma str_before [simp]: "fits32 p \<Longrightarrow> str_r (before pre (str_w p @ s)) = (p, before (pre @ str_w p) s)"
  by (simp add: str_r_def str_w_def fits32_def) (simp add: need_def before_def unat_of_nat)

interpretation cblob: wire_codec blob_w blob_r fits32 by unfold_locales simp

interpretation cstr: wire_codec str_w str_r fits32 by unfold_locales simp

section \<open>Message codecs\<close>

record qid =
  qType :: "8 word"
  qVersion :: "32 word"
  qPath :: "64 word"

definition putQID :: "qid \<Rightarrow> bytes" where
  "putQID q = u8_w (qType q) @ u32_w (qVersion q) @ u64_w (qPath q)"

definition getQID :: "msgR \<Rightarrow> qid \<times> msgR" where
  "getQID r =
     (let (t, r) = u8_r r; (v, r) = u32_r r; (p, r) = u64_r r
      in (\<lparr>qType = t, qVersion = v, qPath = p\<rparr>, r))"

definition putQIDs :: "qid list \<Rightarrow> bytes" where
  "putQIDs qids = u16_w (word_of_nat (length qids)) @ concat (map putQID qids)"

definition getQIDs :: "msgR \<Rightarrow> qid list \<times> msgR" where
  "getQIDs r =
     (let (n, r) = u16_r r in if n = 0 then ([], r) else get_list getQID (unat n) r)"

text \<open>The local closures \<open>set\<close> and \<open>g\<close> of the mask codecs: bit \<open>i\<close> of the word is flag \<open>i\<close>.\<close>

definition mask_word :: "bool list \<Rightarrow> 16 word" where
  "mask_word bs = foldl (\<lambda>v (b, i). if b then v OR push_bit i 1 else v) 0 (zip bs [0..<length bs])"

record attr_mask =
  mMode :: bool
  mNLink :: bool
  mUID :: bool
  mGID :: bool
  mRDev :: bool
  mATime :: bool
  mMTime :: bool
  mCTime :: bool
  mINo :: bool
  mSize :: bool
  mBlocks :: bool
  mBTime :: bool
  mGen :: bool
  mDataVersion :: bool

definition putAttrMask :: "attr_mask \<Rightarrow> bytes" where
  "putAttrMask m = u16_w (mask_word
     [mMode m, mNLink m, mUID m, mGID m, mRDev m, mATime m, mMTime m, mCTime m, mINo m, mSize m,
      mBlocks m, mBTime m, mGen m, mDataVersion m])"

definition getAttrMask :: "msgR \<Rightarrow> attr_mask \<times> msgR" where
  "getAttrMask r =
     (let (v, r) = u16_r r; g = (\<lambda>k. bit v k) in
      (\<lparr>mMode = g 0, mNLink = g 1, mUID = g 2, mGID = g 3, mRDev = g 4, mATime = g 5, mMTime = g 6,
        mCTime = g 7, mINo = g 8, mSize = g 9, mBlocks = g 10, mBTime = g 11, mGen = g 12,
        mDataVersion = g 13\<rparr>, r))"

record attr =
  aMode :: "32 word"
  aUID :: "32 word"
  aGID :: "32 word"
  aNLink :: "64 word"
  aRDev :: "64 word"
  aSize :: "64 word"
  aBlockSize :: "64 word"
  aBlocks :: "64 word"
  aATimeSeconds :: "64 word"
  aATimeNanoSeconds :: "64 word"
  aMTimeSeconds :: "64 word"
  aMTimeNanoSeconds :: "64 word"
  aCTimeSeconds :: "64 word"
  aCTimeNanoSeconds :: "64 word"
  aBTimeSeconds :: "64 word"
  aBTimeNanoSeconds :: "64 word"
  aGen :: "64 word"
  aDataVersion :: "64 word"

definition putAttr :: "attr \<Rightarrow> bytes" where
  "putAttr a =
     u32_w (aMode a) @ u32_w (aUID a) @ u32_w (aGID a) @ u64_w (aNLink a) @ u64_w (aRDev a) @ u64_w (aSize a) @
     u64_w (aBlockSize a) @ u64_w (aBlocks a) @ u64_w (aATimeSeconds a) @ u64_w (aATimeNanoSeconds a) @
     u64_w (aMTimeSeconds a) @ u64_w (aMTimeNanoSeconds a) @ u64_w (aCTimeSeconds a) @ u64_w (aCTimeNanoSeconds a) @
     u64_w (aBTimeSeconds a) @ u64_w (aBTimeNanoSeconds a) @ u64_w (aGen a) @ u64_w (aDataVersion a)"

definition getAttr :: "msgR \<Rightarrow> attr \<times> msgR" where
  "getAttr r =
     (let (mode, r) = u32_r r; (uid, r) = u32_r r; (gid, r) = u32_r r; (nlink, r) = u64_r r;
          (rdev, r) = u64_r r; (sz, r) = u64_r r; (bsz, r) = u64_r r; (blks, r) = u64_r r;
          (ats, r) = u64_r r; (atn, r) = u64_r r; (mts, r) = u64_r r; (mtn, r) = u64_r r;
          (cts, r) = u64_r r; (ctn, r) = u64_r r; (bts, r) = u64_r r; (btn, r) = u64_r r;
          (gen, r) = u64_r r; (dv, r) = u64_r r
      in (\<lparr>aMode = mode, aUID = uid, aGID = gid, aNLink = nlink, aRDev = rdev, aSize = sz, aBlockSize = bsz,
           aBlocks = blks, aATimeSeconds = ats, aATimeNanoSeconds = atn, aMTimeSeconds = mts,
           aMTimeNanoSeconds = mtn, aCTimeSeconds = cts, aCTimeNanoSeconds = ctn, aBTimeSeconds = bts,
           aBTimeNanoSeconds = btn, aGen = gen, aDataVersion = dv\<rparr>, r))"

record set_attr_mask =
  sPermissions :: bool
  sUID :: bool
  sGID :: bool
  sSize :: bool
  sATime :: bool
  sMTime :: bool
  sCTime :: bool
  sATimeNotSystemTime :: bool
  sMTimeNotSystemTime :: bool

definition putSetAttrMask :: "set_attr_mask \<Rightarrow> bytes" where
  "putSetAttrMask m = u16_w (mask_word
     [sPermissions m, sUID m, sGID m, sSize m, sATime m, sMTime m, sCTime m, sATimeNotSystemTime m,
      sMTimeNotSystemTime m])"

definition getSetAttrMask :: "msgR \<Rightarrow> set_attr_mask \<times> msgR" where
  "getSetAttrMask r =
     (let (v, r) = u16_r r; g = (\<lambda>k. bit v k) in
      (\<lparr>sPermissions = g 0, sUID = g 1, sGID = g 2, sSize = g 3, sATime = g 4, sMTime = g 5, sCTime = g 6,
        sATimeNotSystemTime = g 7, sMTimeNotSystemTime = g 8\<rparr>, r))"

record set_attr =
  saPermissions :: "32 word"
  saUID :: "32 word"
  saGID :: "32 word"
  saSize :: "64 word"
  saATimeSeconds :: "64 word"
  saATimeNanoSeconds :: "64 word"
  saMTimeSeconds :: "64 word"
  saMTimeNanoSeconds :: "64 word"

definition putSetAttr :: "set_attr \<Rightarrow> bytes" where
  "putSetAttr a =
     u32_w (saPermissions a) @ u32_w (saUID a) @ u32_w (saGID a) @ u64_w (saSize a) @ u64_w (saATimeSeconds a) @
     u64_w (saATimeNanoSeconds a) @ u64_w (saMTimeSeconds a) @ u64_w (saMTimeNanoSeconds a)"

definition getSetAttr :: "msgR \<Rightarrow> set_attr \<times> msgR" where
  "getSetAttr r =
     (let (perm, r) = u32_r r; (uid, r) = u32_r r; (gid, r) = u32_r r; (sz, r) = u64_r r;
          (ats, r) = u64_r r; (atn, r) = u64_r r; (mts, r) = u64_r r; (mtn, r) = u64_r r
      in (\<lparr>saPermissions = perm, saUID = uid, saGID = gid, saSize = sz, saATimeSeconds = ats,
           saATimeNanoSeconds = atn, saMTimeSeconds = mts, saMTimeNanoSeconds = mtn\<rparr>, r))"

record fs_stat =
  fType :: "32 word"
  fBlockSize :: "32 word"
  fBlocks :: "64 word"
  fBlocksFree :: "64 word"
  fBlocksAvailable :: "64 word"
  fFiles :: "64 word"
  fFilesFree :: "64 word"
  fFSID :: "64 word"
  fNameLength :: "32 word"

definition putFSStat :: "fs_stat \<Rightarrow> bytes" where
  "putFSStat s =
     u32_w (fType s) @ u32_w (fBlockSize s) @ u64_w (fBlocks s) @ u64_w (fBlocksFree s) @ u64_w (fBlocksAvailable s) @
     u64_w (fFiles s) @ u64_w (fFilesFree s) @ u64_w (fFSID s) @ u32_w (fNameLength s)"

definition getFSStat :: "msgR \<Rightarrow> fs_stat \<times> msgR" where
  "getFSStat r =
     (let (ty, r) = u32_r r; (bsz, r) = u32_r r; (bl, r) = u64_r r; (bf, r) = u64_r r; (ba, r) = u64_r r;
          (fi, r) = u64_r r; (ff, r) = u64_r r; (fsid, r) = u64_r r; (nl, r) = u32_r r
      in (\<lparr>fType = ty, fBlockSize = bsz, fBlocks = bl, fBlocksFree = bf, fBlocksAvailable = ba, fFiles = fi,
           fFilesFree = ff, fFSID = fsid, fNameLength = nl\<rparr>, r))"

record dirent =
  deQID :: qid
  deOffset :: "64 word"
  deType :: "8 word"
  deName :: bytes

definition putDirent :: "dirent \<Rightarrow> bytes" where
  "putDirent e = putQID (deQID e) @ u64_w (deOffset e) @ u8_w (deType e) @ str_w (deName e)"

definition getDirent :: "msgR \<Rightarrow> dirent \<times> msgR" where
  "getDirent r =
     (let (q, r) = getQID r; (ofs, r) = u64_r r; (t, r) = u8_r r; (n, r) = str_r r
      in (\<lparr>deQID = q, deOffset = ofs, deType = t, deName = n\<rparr>, r))"

definition putDirents :: "dirent list \<Rightarrow> bytes" where
  "putDirents ents = u32_w (word_of_nat (length ents)) @ concat (map putDirent ents)"

definition getDirents :: "msgR \<Rightarrow> dirent list \<times> msgR" where
  "getDirents r =
     (let (n, r) = u32_r r in if n = 0 then ([], r) else get_list getDirent (unat n) r)"

section \<open>The codecs satisfy the contract\<close>

lemma bit_mask_word:
  "length bs \<le> 16 \<Longrightarrow> bit (mask_word bs) k \<longleftrightarrow> k < length bs \<and> bs ! k"
proof (induction bs rule: rev_induct)
  case (snoc b bs)
  have "mask_word (bs @ [b]) = (if b then mask_word bs OR push_bit (length bs) 1 else mask_word bs)"
    by (simp add: mask_word_def)
  then show ?case using snoc
    by (auto simp: bit_or_iff bit_exp_iff nth_append less_Suc_eq)
qed (simp add: mask_word_def)

interpretation cqid: wire_codec putQID getQID "\<lambda>_. True"
  by unfold_locales (simp add: putQID_def getQID_def)

interpretation cqids: wire_codec putQIDs getQIDs "\<lambda>qs. length qs < 2 ^ 16"
proof unfold_locales
  fix qs :: "qid list" and pre s
  assume h: "length qs < 2 ^ 16"
  then have "unat (word_of_nat (length qs) :: 16 word) = length qs" by (simp add: unat_of_nat)
  moreover have "word_of_nat (length qs) = (0 :: 16 word) \<longleftrightarrow> qs = []"
    by (subst unat_0_iff [symmetric], subst calculation) simp
  moreover have "\<forall>q \<in> set qs. True" by simp
  ultimately show "getQIDs (before pre (putQIDs qs @ s)) = (qs, before (pre @ putQIDs qs) s)"
    using cqid.get_list_put [of qs "pre @ u16_w (word_of_nat (length qs))" s]
    by (simp add: getQIDs_def putQIDs_def)
qed

interpretation cam: wire_codec putAttrMask getAttrMask "\<lambda>_. True"
  by unfold_locales (simp add: putAttrMask_def getAttrMask_def bit_mask_word)

interpretation cattr: wire_codec putAttr getAttr "\<lambda>_. True"
  by unfold_locales (simp add: putAttr_def getAttr_def)

interpretation csam: wire_codec putSetAttrMask getSetAttrMask "\<lambda>_. True"
  by unfold_locales (simp add: putSetAttrMask_def getSetAttrMask_def bit_mask_word)

interpretation csa: wire_codec putSetAttr getSetAttr "\<lambda>_. True"
  by unfold_locales (simp add: putSetAttr_def getSetAttr_def)

interpretation cfs: wire_codec putFSStat getFSStat "\<lambda>_. True"
  by unfold_locales (simp add: putFSStat_def getFSStat_def)

interpretation cde: wire_codec putDirent getDirent "\<lambda>e. fits32 (deName e)"
  by unfold_locales (simp add: putDirent_def getDirent_def cqid.get_put)

definition dirents_ok :: "dirent list \<Rightarrow> bool" where
  "dirents_ok es \<longleftrightarrow> length es < 2 ^ 32 \<and> list_all (\<lambda>e. fits32 (deName e)) es"

interpretation cdes: wire_codec putDirents getDirents dirents_ok
proof unfold_locales
  fix es :: "dirent list" and pre s
  assume h: "dirents_ok es"
  then have "unat (word_of_nat (length es) :: 32 word) = length es" by (simp add: unat_of_nat dirents_ok_def)
  moreover have "word_of_nat (length es) = (0 :: 32 word) \<longleftrightarrow> es = []"
    by (subst unat_0_iff [symmetric], subst calculation) simp
  ultimately show "getDirents (before pre (putDirents es @ s)) = (es, before (pre @ putDirents es) s)"
    using cde.get_list_put [of es "pre @ u32_w (word_of_nat (length es))" s] h
    by (simp add: getDirents_def putDirents_def dirents_ok_def list_all_iff)
qed

section \<open>Frames\<close>

definition blockProtoVersion :: "16 word" where "blockProtoVersion = 1"

definition blockFrameHeader :: nat where "blockFrameHeader = 12"

definition blockFrameSlack :: nat where "blockFrameSlack = 4096"

definition smallBulkInline :: nat where "smallBulkInline = 2048"

definition opHello :: "8 word" where "opHello = 1"

definition flagFinal :: "8 word" where "flagFinal = push_bit 0 1"

record frame =
  fop :: "8 word"
  fflags :: "8 word"
  freqID :: "64 word"
  fpayload :: bytes

definition frame_header :: "frame \<Rightarrow> nat \<Rightarrow> bytes" where
  "frame_header f plen =
     be_enc 4 (unat (word_of_nat (blockFrameHeader + plen) :: 32 word)) @ [fop f, fflags f, 0, 0] @ be_enc 8 (unat (freqID f))"

text \<open>The sequence of \<open>Write\<close> calls of one frame.\<close>

definition writeFrameParts :: "frame \<Rightarrow> bytes \<Rightarrow> bytes list" where
  "writeFrameParts f bulk =
     (let buf = frame_header f (length (fpayload f) + length bulk) @ fpayload f in
      if length bulk > 0 \<and> length bulk \<le> smallBulkInline then [buf @ bulk]
      else if length bulk > 0 then [buf, bulk] else [buf])"

definition writeFrame :: "frame \<Rightarrow> bytes list" where
  "writeFrame f = writeFrameParts f []"

datatype wire_err = UnexpectedEOF | ShortFrame | FrameTooLarge | ExpectedHello | VersionMismatch | ChunkSizeMismatch | BadHello

text \<open>\<open>io.ReadFull\<close> on the bytes still to arrive.\<close>

definition read_full :: "nat \<Rightarrow> bytes \<Rightarrow> wire_err + bytes \<times> bytes" where
  "read_full n s = (if length s < n then Inl UnexpectedEOF else Inr (take n s, drop n s))"

record frame_hdr =
  hop :: "8 word"
  hflags :: "8 word"
  hreqID :: "64 word"
  hplen :: nat

definition readFrameHeader :: "bytes \<Rightarrow> nat \<Rightarrow> wire_err + frame_hdr \<times> bytes" where
  "readFrameHeader s maxPayload =
     (case read_full (4 + blockFrameHeader) s of
        Inl e \<Rightarrow> Inl e
      | Inr (hdr, rest) \<Rightarrow>
          let tot = be_dec (take 4 hdr) in
          if tot < blockFrameHeader then Inl ShortFrame
          else
            let plen = tot - blockFrameHeader in
            if plen > maxPayload then Inl FrameTooLarge
            else Inr (\<lparr>hop = hdr ! 4, hflags = hdr ! 5, hreqID = word_of_nat (be_dec (take 8 (drop 8 hdr))),
                       hplen = plen\<rparr>, rest))"

definition readFrame :: "bytes \<Rightarrow> nat \<Rightarrow> wire_err + frame \<times> bytes" where
  "readFrame s maxPayload =
     (case readFrameHeader s maxPayload of
        Inl e \<Rightarrow> Inl e
      | Inr (h, rest) \<Rightarrow>
          if hplen h > 0 then
            (case read_full (hplen h) rest of
               Inl e \<Rightarrow> Inl e
             | Inr (p, rest') \<Rightarrow>
                 Inr (\<lparr>fop = hop h, fflags = hflags h, freqID = hreqID h, fpayload = p\<rparr>, rest'))
          else Inr (\<lparr>fop = hop h, fflags = hflags h, freqID = hreqID h, fpayload = []\<rparr>, rest))"

section \<open>HELLO\<close>

record helloParams =
  hVersion :: "16 word"
  hChunkSize :: "32 word"
  hMaxInflight :: "16 word"
  hFeatures :: "32 word"

definition marshal :: "helloParams \<Rightarrow> bytes" where
  "marshal h = u16_w (hVersion h) @ u32_w (hChunkSize h) @ u16_w (hMaxInflight h) @ u32_w (hFeatures h)"

definition get_hello :: "msgR \<Rightarrow> helloParams \<times> msgR" where
  "get_hello r =
     (let (v, r) = u16_r r; (c, r) = u32_r r; (m, r) = u16_r r; (f, r) = u32_r r
      in (\<lparr>hVersion = v, hChunkSize = c, hMaxInflight = m, hFeatures = f\<rparr>, r))"

definition unmarshalHello :: "bytes \<Rightarrow> helloParams \<times> bool" where
  "unmarshalHello p = (case get_hello (newMsgR p) of (h, r) \<Rightarrow> (h, rerr r))"

definition sendHello :: "helloParams \<Rightarrow> bytes" where
  "sendHello local = concat (writeFrame \<lparr>fop = opHello, fflags = flagFinal, freqID = 0, fpayload = marshal local\<rparr>)"

definition recvHello :: "bytes \<Rightarrow> helloParams \<Rightarrow> wire_err + helloParams \<times> bytes" where
  "recvHello s local =
     (case readFrame s (unat (hChunkSize local) + blockFrameSlack) of
        Inl e \<Rightarrow> Inl e
      | Inr (f, rest) \<Rightarrow>
          if fop f \<noteq> opHello then Inl ExpectedHello
          else case unmarshalHello (fpayload f) of
            (peer, err) \<Rightarrow>
              if err then Inl BadHello
              else if hVersion peer \<noteq> hVersion local then Inl VersionMismatch
              else if hChunkSize peer \<noteq> hChunkSize local then Inl ChunkSizeMismatch
              else Inr (peer, rest))"

text \<open>
  The handshake on a connection: what a side sends and the peer it accepts, given the bytes it receives.
  The client writes first; the server writes only after it accepted the client's HELLO.
\<close>

definition blockClientHandshake :: "bytes \<Rightarrow> helloParams \<Rightarrow> bytes \<times> (wire_err + helloParams \<times> bytes)" where
  "blockClientHandshake inp local = (sendHello local, recvHello inp local)"

definition blockServerHandshake :: "bytes \<Rightarrow> helloParams \<Rightarrow> bytes \<times> (wire_err + helloParams \<times> bytes)" where
  "blockServerHandshake inp local =
     (case recvHello inp local of
        Inl e \<Rightarrow> ([], Inl e)
      | Inr peer \<Rightarrow> (sendHello local, Inr peer))"

section \<open>Options\<close>

definition FeatSubBlockHash :: "32 word" where "FeatSubBlockHash = push_bit 0 1"

definition FeatDeferHash :: "32 word" where "FeatDeferHash = push_bit 1 1"

definition FeatSubBlockFill :: "32 word" where "FeatSubBlockFill = push_bit 2 1"

definition FeatNoCache :: "32 word" where "FeatNoCache = push_bit 3 1"

definition blockSupportedFeatures :: "32 word" where
  "blockSupportedFeatures = FeatSubBlockHash OR FeatDeferHash OR FeatSubBlockFill"

record blockOpts =
  oFeatures :: "32 word"
  oReadahead :: int
  oOwnerUID :: "32 word"
  oOwnerGID :: "32 word"
  oOwnerSet :: bool

definition WithBlockFeatures :: "32 word \<Rightarrow> blockOpts \<Rightarrow> blockOpts" where
  "WithBlockFeatures f o' = o'\<lparr>oFeatures := f\<rparr>"

definition WithReadahead :: "int \<Rightarrow> blockOpts \<Rightarrow> blockOpts" where
  "WithReadahead w o' = o'\<lparr>oReadahead := w\<rparr>"

definition WithReportedOwner :: "32 word \<Rightarrow> 32 word \<Rightarrow> blockOpts \<Rightarrow> blockOpts" where
  "WithReportedOwner uid gid o' = o'\<lparr>oOwnerUID := uid, oOwnerGID := gid, oOwnerSet := True\<rparr>"

definition resolveBlockOpts :: "(blockOpts \<Rightarrow> blockOpts) list \<Rightarrow> blockOpts" where
  "resolveBlockOpts opts =
     (let o1 = foldl (\<lambda>o' opt. opt o') \<lparr>oFeatures = 0, oReadahead = 0, oOwnerUID = 0, oOwnerGID = 0, oOwnerSet = False\<rparr> opts;
          o2 = o1\<lparr>oFeatures := oFeatures o1 AND blockSupportedFeatures\<rparr>
      in if oFeatures o2 AND FeatSubBlockFill \<noteq> 0 then o2\<lparr>oFeatures := oFeatures o2 OR FeatSubBlockHash\<rparr> else o2)"

text \<open>\<open>strings.ToLower\<close> on ASCII, and the fields between commas and spaces.\<close>

definition lower :: "char \<Rightarrow> char" where
  "lower c = (let n = of_char c :: nat in if 65 \<le> n \<and> n \<le> 90 then char_of (n + 32) else c)"

fun fields_aux :: "string \<Rightarrow> string \<Rightarrow> string list" where
  "fields_aux acc [] = (if acc = [] then [] else [rev acc])"
| "fields_aux acc (c # cs) =
     (if c = CHR '','' \<or> c = CHR '' '' then (if acc = [] then fields_aux [] cs else rev acc # fields_aux [] cs)
      else fields_aux (c # acc) cs)"

definition coherence_bit :: "string \<Rightarrow> 32 word" where
  "coherence_bit tok =
     (if tok \<in> {''subhash'', ''subblock'', ''subblockhash''} then FeatSubBlockHash
      else if tok \<in> {''defer'', ''deferhash''} then FeatDeferHash
      else if tok \<in> {''subfill'', ''fill'', ''demandfill''} then FeatSubBlockFill else 0)"

definition parseCoherenceEnv :: "string \<Rightarrow> 32 word" where
  "parseCoherenceEnv s = foldl (\<lambda>f tok. f OR coherence_bit (map lower tok)) 0 (fields_aux [] s)"

text \<open>The product wraps around at 64 bits.\<close>

definition parseByteSizeEnv :: "string \<Rightarrow> int" where
  "parseByteSizeEnv s0 =
     (let s = map lower (trim_space s0) in
      if s = [] then 0
      else
        let (mult, s') = (if has_suffix s ''k'' then (2 ^ 10, trim_suffix s ''k'')
                          else if has_suffix s ''m'' then (2 ^ 20, trim_suffix s ''m'') else (1, s))
        in case parse_int 64 (trim_space s') of
             None \<Rightarrow> 0
           | Some n \<Rightarrow> if n < 0 then 0 else sint (word_of_int (n * mult) :: 64 word))"

definition BlockEnvOpts :: "string \<Rightarrow> string \<Rightarrow> (blockOpts \<Rightarrow> blockOpts) list" where
  "BlockEnvOpts coherence readahead =
     (let f = parseCoherenceEnv coherence; w = parseByteSizeEnv readahead
      in (if f \<noteq> 0 then [WithBlockFeatures f] else []) @ (if w > 0 then [WithReadahead w] else []))"

section \<open>Properties\<close>

interpretation chello: wire_codec marshal get_hello "\<lambda>_. True"
  by unfold_locales (simp add: marshal_def get_hello_def)

text \<open>C14. Every message of the block protocol is decoded to the value that was encoded, whatever bytes
  follow it, without raising the cursor's error: file identifiers, attributes and their masks, file-system
  statistics and directory entries (whose names and count must fit the 32-bit length).\<close>

theorem block_messages_roundtrip:
  "fst (getQID (newMsgR (putQID q @ s))) = q \<and> fst (getAttr (newMsgR (putAttr a @ s))) = a \<and>
   fst (getAttrMask (newMsgR (putAttrMask am @ s))) = am \<and> fst (getSetAttr (newMsgR (putSetAttr sa @ s))) = sa \<and>
   fst (getSetAttrMask (newMsgR (putSetAttrMask sm @ s))) = sm \<and> fst (getFSStat (newMsgR (putFSStat fs @ s))) = fs \<and>
   (length qs < 2 ^ 16 \<longrightarrow> fst (getQIDs (newMsgR (putQIDs qs @ s))) = qs) \<and>
   (dirents_ok es \<longrightarrow> fst (getDirents (newMsgR (putDirents es @ s))) = es \<and> \<not> rerr (snd (getDirents (newMsgR (putDirents es @ s)))))"
  by (simp add: cqid.decode cattr.decode cam.decode csa.decode csam.decode cfs.decode cqids.decode cdes.decode)

theorem block_messages_roundtrip_witness:
  "fst (getQIDs (newMsgR (putQIDs [\<lparr>qType = 1, qVersion = 2, qPath = 3\<rparr>] @ [7]))) = [\<lparr>qType = 1, qVersion = 2, qPath = 3\<rparr>]"
proof -
  have "length [\<lparr>qType = 1, qVersion = 2, qPath = 3\<rparr>] < 2 ^ 16" by simp
  then show ?thesis
    using block_messages_roundtrip [of _ "[7]" _ _ _ _ _ "[\<lparr>qType = 1, qVersion = 2, qPath = 3\<rparr>]"] by blast
qed

text \<open>A reader that stays within its bytes and keeps its error.\<close>

definition reader_step :: "msgR \<Rightarrow> msgR \<Rightarrow> bool" where
  "reader_step r r' \<longleftrightarrow> rb r' = rb r \<and> roff r \<le> roff r' \<and> (roff r \<le> length (rb r) \<longrightarrow> roff r' \<le> length (rb r')) \<and>
     (rerr r \<longrightarrow> r' = r)"

lemma reader_step_refl [simp]: "reader_step r r"
  by (simp add: reader_step_def)

lemma reader_step_trans: "reader_step r r1 \<Longrightarrow> reader_step r1 r2 \<Longrightarrow> reader_step r r2"
  by (auto simp: reader_step_def)

lemma fixed_step: "reader_step r (snd (fixed_r n c z r))"
  by (auto simp: fixed_r_def need_def reader_step_def)

lemma scalar_steps: "reader_step r (snd (u8_r r))" "reader_step r (snd (u16_r r))" "reader_step r (snd (u32_r r))"
  "reader_step r (snd (u64_r r))"
  by (simp_all add: u8_r_def u16_r_def u32_r_def u64_r_def fixed_step)

lemma str_step: "reader_step r (snd (str_r r))"
  using scalar_steps(3) [of r]
  by (auto simp: str_r_def need_def reader_step_def split: prod.splits)

lemma qid_step: "reader_step r (snd (getQID r))"
proof -
  obtain a r1 where 1: "u8_r r = (a, r1)" by fastforce
  obtain b r2 where 2: "u32_r r1 = (b, r2)" by fastforce
  obtain c r3 where 3: "u64_r r2 = (c, r3)" by fastforce
  show ?thesis using scalar_steps(1) [of r] scalar_steps(3) [of r1] scalar_steps(4) [of r2] 1 2 3
    by (simp add: getQID_def) (meson reader_step_trans)
qed

lemma dirent_step: "reader_step r (snd (getDirent r))"
proof -
  obtain a r1 where 1: "getQID r = (a, r1)" by fastforce
  obtain b r2 where 2: "u64_r r1 = (b, r2)" by fastforce
  obtain c r3 where 3: "u8_r r2 = (c, r3)" by fastforce
  obtain d r4 where 4: "str_r r3 = (d, r4)" by fastforce
  show ?thesis using qid_step [of r] scalar_steps(4) [of r1] scalar_steps(1) [of r2] str_step [of r3] 1 2 3 4
    by (simp add: getDirent_def) (meson reader_step_trans)
qed

lemma get_list_step: "(\<And>r. reader_step r (snd (g r))) \<Longrightarrow> reader_step r (snd (get_list g n r))"
proof (induction n arbitrary: r)
  case (Suc n)
  obtain x r1 where "g r = (x, r1)" by fastforce
  with Suc.prems [of r] Suc.IH [OF Suc.prems, of r1] show ?case
    by (auto split: prod.splits intro: reader_step_trans)
qed simp

text \<open>C15. Decoding a directory listing from arbitrary bytes is safe: the cursor only moves forward, never
  leaves the buffer, and once a read fell short the cursor stays in error and is not moved again.\<close>

theorem decoding_stays_in_bounds:
  "reader_step r (snd (getDirents r)) \<and>
   roff (snd (getDirents (newMsgR p))) \<le> length p \<and> (rerr r \<longrightarrow> snd (getDirents r) = r)"
proof -
  have *: "reader_step r (snd (getDirents r))" for r
  proof -
    obtain n r1 where 1: "u32_r r = (n, r1)" by fastforce
    show ?thesis using scalar_steps(3) [of r] get_list_step [OF dirent_step, of r1 "unat n"] 1
      by (auto simp: getDirents_def intro: reader_step_trans)
  qed
  from * [of "newMsgR p"] have "roff (snd (getDirents (newMsgR p))) \<le> length p"
    by (auto simp: reader_step_def newMsgR_def)
  with * [of r] show ?thesis by (auto simp: reader_step_def)
qed

theorem decoding_stays_in_bounds_witness:
  "snd (getDirents \<lparr>rb = [1], roff = 0, rerr = True\<rparr>) = \<lparr>rb = [1], roff = 0, rerr = True\<rparr>"
  using decoding_stays_in_bounds [of "\<lparr>rb = [1], roff = 0, rerr = True\<rparr>" "[]"] by simp

lemma length_frame_header: "length (frame_header f n) = 16"
  by (simp add: frame_header_def)

lemma writeFrameParts_concat:
  "concat (writeFrameParts f bulk) = frame_header f (length (fpayload f @ bulk)) @ fpayload f @ bulk"
  by (simp add: writeFrameParts_def Let_def)

lemma header_total:
  assumes "n + 12 < 2 ^ 32"
  shows "be_dec (take 4 (frame_header f n)) = n + 12"
proof -
  have "unat (word_of_nat (12 + n) :: 32 word) = 12 + n" using assms by (simp add: unat_of_nat del: of_nat_add)
  then show ?thesis using assms by (simp add: frame_header_def be_dec_enc blockFrameHeader_def del: of_nat_add)
qed

lemma readFrameHeader_put:
  assumes "plen + 12 < 2 ^ 32" "plen \<le> maxPayload"
  shows "readFrameHeader (frame_header f plen @ s) maxPayload =
    Inr (\<lparr>hop = fop f, hflags = fflags f, hreqID = freqID f, hplen = plen\<rparr>, s)"
proof -
  let ?h = "frame_header f plen"
  have t: "be_dec (take 4 ?h) = plen + 12" by (rule header_total [OF assms(1)])
  have q: "take 8 (drop 8 ?h) = be_enc 8 (unat (freqID f))" "?h ! 4 = fop f" "?h ! 5 = fflags f"
    by (simp_all add: frame_header_def nth_append)
  show ?thesis
    using t q assms(2) unat_bound [of "freqID f"]
    by (simp add: readFrameHeader_def read_full_def blockFrameHeader_def length_frame_header Let_def be_dec_enc)
qed

lemma frame_wire:
  assumes "length (fpayload f @ bulk) + 12 < 2 ^ 32" "length (fpayload f @ bulk) \<le> maxPayload"
  shows "readFrame (concat (writeFrameParts f bulk) @ rest) maxPayload =
    Inr (f\<lparr>fpayload := fpayload f @ bulk\<rparr>, rest)"
proof -
  let ?p = "fpayload f @ bulk"
  have h: "readFrameHeader (frame_header f (length ?p) @ ?p @ rest) maxPayload =
      Inr (\<lparr>hop = fop f, hflags = fflags f, hreqID = freqID f, hplen = length ?p\<rparr>, ?p @ rest)"
    by (rule readFrameHeader_put [OF assms])
  have c: "concat (writeFrameParts f bulk) @ rest = frame_header f (length ?p) @ ?p @ rest"
    by (simp add: writeFrameParts_concat)
  show ?thesis unfolding readFrame_def c h by (simp add: read_full_def)
qed

text \<open>A frame written in one or two \<open>Write\<close> calls, with its bulk staged or sent separately, is read back
  by the peer as the same frame whose payload is the metadata followed by the bulk, leaving the next frame
  on the connection; a payload above the peer's limit is refused as too large.\<close>

theorem frame_roundtrip:
  assumes "length (fpayload f @ bulk) + 12 < 2 ^ 32"
  shows "readFrame (concat (writeFrameParts f bulk) @ rest) maxPayload =
    (if length (fpayload f @ bulk) \<le> maxPayload then Inr (f\<lparr>fpayload := fpayload f @ bulk\<rparr>, rest) else Inl FrameTooLarge)"
proof (cases "length (fpayload f @ bulk) \<le> maxPayload")
  case False
  have "be_dec (take 4 (frame_header f (length (fpayload f @ bulk)))) = length (fpayload f @ bulk) + 12"
    by (rule header_total [OF assms])
  then show ?thesis using False
    by (simp add: readFrame_def readFrameHeader_def writeFrameParts_concat read_full_def blockFrameHeader_def
        length_frame_header Let_def)
qed (simp add: frame_wire [OF assms])

theorem frame_roundtrip_witness:
  "readFrame (concat (writeFrameParts \<lparr>fop = 8, fflags = 1, freqID = 5, fpayload = [1, 2]\<rparr> [3]) @ [9]) 100 =
     Inr (\<lparr>fop = 8, fflags = 1, freqID = 5, fpayload = [1, 2, 3]\<rparr>, [9])"
  using frame_roundtrip [of "\<lparr>fop = 8, fflags = 1, freqID = 5, fpayload = [1, 2]\<rparr>" "[3]" "[9]" 100] by simp

lemma recv_send_hello:
  "recvHello (sendHello h @ rest) local =
     (if hVersion h \<noteq> hVersion local then Inl VersionMismatch
      else if hChunkSize h \<noteq> hChunkSize local then Inl ChunkSizeMismatch else Inr (h, rest))"
proof -
  let ?f = "\<lparr>fop = opHello, fflags = flagFinal, freqID = 0, fpayload = marshal h\<rparr>"
  have "length (marshal h) = 12" by (simp add: marshal_def u16_w_def u32_w_def)
  then have "readFrame (sendHello h @ rest) (unat (hChunkSize local) + blockFrameSlack) = Inr (?f, rest)"
    using frame_wire [of ?f "[]" "unat (hChunkSize local) + blockFrameSlack" rest]
    by (simp add: sendHello_def writeFrame_def blockFrameSlack_def)
  moreover have "unmarshalHello (marshal h) = (h, False)"
    using chello.decode [of h "[]"] by (cases "get_hello (newMsgR (marshal h))") (simp add: unmarshalHello_def)
  ultimately show ?thesis by (simp add: recvHello_def)
qed

text \<open>The handshake agrees: when the two ends have the same version and chunk size both accept, each learns
  exactly the other's parameters, so both compute the same negotiated feature set, and no byte of the next
  frame is consumed; otherwise the server side refuses and answers nothing.\<close>

lemma handshake_agrees:
  "if hVersion c = hVersion s \<and> hChunkSize c = hChunkSize s
   then snd (blockServerHandshake (sendHello c @ next_s) s) = Inr (c, next_s) \<and>
     snd (blockClientHandshake (fst (blockServerHandshake (sendHello c @ next_s) s) @ next_c) c) = Inr (s, next_c)
   else isl (snd (blockServerHandshake (sendHello c @ next_s) s)) \<and> fst (blockServerHandshake (sendHello c @ next_s) s) = []"
  by (simp add: blockServerHandshake_def blockClientHandshake_def recv_send_hello)

text \<open>The options that reach the protocol are always consistent: only supported features are kept, the
  no-cache capability can never be requested, and demand-fill always brings sub-block hashing with it.\<close>

theorem resolved_options_consistent:
  "oFeatures (resolveBlockOpts opts) AND FeatNoCache = 0 \<and>
   oFeatures (resolveBlockOpts opts) AND blockSupportedFeatures = oFeatures (resolveBlockOpts opts) \<and>
   (bit (oFeatures (resolveBlockOpts opts)) 2 \<longrightarrow> bit (oFeatures (resolveBlockOpts opts)) 0)"
proof -
  define x where "x = oFeatures (foldl (\<lambda>o' opt. opt o')
    \<lparr>oFeatures = 0, oReadahead = 0, oOwnerUID = 0, oOwnerGID = 0, oOwnerSet = False\<rparr> opts)"
  have e: "oFeatures (resolveBlockOpts opts) =
    (if (x AND blockSupportedFeatures) AND FeatSubBlockFill \<noteq> 0 then (x AND blockSupportedFeatures) OR FeatSubBlockHash
     else x AND blockSupportedFeatures)"
    by (simp add: resolveBlockOpts_def Let_def x_def)
  have f: "bit FeatSubBlockFill n \<longleftrightarrow> n = 2" "bit FeatNoCache n \<longleftrightarrow> n = 3" "bit FeatSubBlockHash n \<longleftrightarrow> n = 0"
    "bit FeatDeferHash n \<longleftrightarrow> n = 1" for n
    unfolding FeatSubBlockFill_def FeatNoCache_def FeatSubBlockHash_def FeatDeferHash_def bit_push_bit_iff bit_1_iff
    by auto
  have s: "bit blockSupportedFeatures n \<longleftrightarrow> n \<in> {0, 1, 2}" for n
    by (auto simp: blockSupportedFeatures_def bit_or_iff f)
  have z: "(x AND blockSupportedFeatures) AND FeatSubBlockFill \<noteq> 0 \<longleftrightarrow> bit x 2"
  proof -
    have "(x AND blockSupportedFeatures) AND FeatSubBlockFill = 0" if "\<not> bit x 2"
      using that by (intro bit_word_eqI) (auto simp: bit_and_iff s f)
    moreover have "bit ((x AND blockSupportedFeatures) AND FeatSubBlockFill) 2 \<longleftrightarrow> bit x 2"
      by (simp add: bit_and_iff s f)
    ultimately show ?thesis using bit_0_eq by force
  qed
  show ?thesis unfolding e z by (auto intro!: bit_word_eqI simp: bit_and_iff bit_or_iff s f)
qed

theorem resolved_options_consistent_witness:
  "bit (oFeatures (resolveBlockOpts [WithBlockFeatures 0xC])) 0"
proof -
  have "bit (oFeatures (resolveBlockOpts [WithBlockFeatures 0xC])) 2"
    by (simp add: resolveBlockOpts_def WithBlockFeatures_def blockSupportedFeatures_def FeatSubBlockHash_def
        FeatDeferHash_def FeatSubBlockFill_def)
  then show ?thesis using resolved_options_consistent [of "[WithBlockFeatures 0xC]"] by blast
qed

end
