(* ===== verification/BlockCache.thy ===== *)
theory BlockCache
  imports GoStd Sha256 "HOL-Library.Word"
begin

text \<open>
  The server-side block cache (\<open>pkg/blockcache/blockcache.go\<close>, \<open>memstore.go\<close>): the identity of a cached file, the
  presence bitmaps, the in-memory store with its demand-fill and write paths, and the read-through cache.
  Offsets and lengths are natural numbers; a Go panic of a slice or allocation is the result \<open>None\<close>. The
  content hash (\<open>xxh3\<close>) is the parameter \<open>hash\<close>.
\<close>

unbundle bit_operations_syntax

section \<open>File identity\<close>

record fileID =
  idMount :: string
  idPath :: string
  idSize :: int
  idMTimeNs :: int
  idWritable :: bool

definition key_bytes :: "fileID \<Rightarrow> string" where
  "key_bytes i =
     (let sz = (if idWritable i then 0 else idSize i); mt = (if idWritable i then 0 else idMTimeNs i)
      in idMount i @ [CHR 0x00] @ idPath i @ [CHR 0x00] @ itoa sz @ [CHR 0x00] @ itoa mt @ [CHR 0x00] @
         (if idWritable i then [CHR 0x01] else [CHR 0x00]))"

definition Key :: "fileID \<Rightarrow> string" where
  "Key i = sha256_hex (key_bytes i)"

section \<open>Presence bitmaps\<close>

definition DefaultChunkSize :: nat where "DefaultChunkSize = 2 ^ 20"

definition SubBlockSize :: nat where "SubBlockSize = 4096"

type_synonym bitmap = "64 word list"

definition subSpan :: "nat \<Rightarrow> nat \<Rightarrow> nat \<times> nat" where
  "subSpan off len =
     (if len = 0 then (off div SubBlockSize, off div SubBlockSize)
      else (off div SubBlockSize, (off + len - 1) div SubBlockSize))"

definition bmWords :: "nat \<Rightarrow> nat" where
  "bmWords nSub = (nSub + 63) div 64"

definition bmSet :: "nat \<Rightarrow> bitmap \<Rightarrow> bitmap" where
  "bmSet i bm = (if i div 64 < length bm then bm[i div 64 := bm ! (i div 64) OR push_bit (i mod 64) 1] else bm)"

definition bmGet :: "bitmap \<Rightarrow> nat \<Rightarrow> bool" where
  "bmGet bm i \<longleftrightarrow> i div 64 < length bm \<and> bit (bm ! (i div 64)) (i mod 64)"

definition bmRangeAllSet :: "bitmap \<Rightarrow> nat \<Rightarrow> nat \<Rightarrow> bool" where
  "bmRangeAllSet bm first last' = list_all (bmGet bm) [first..<Suc last']"

text \<open>The loop that marks a span.\<close>

definition bmSetSpan :: "bitmap \<Rightarrow> nat \<times> nat \<Rightarrow> bitmap" where
  "bmSetSpan bm span = fold bmSet [fst span..<Suc (snd span)] bm"

section \<open>The in-memory store\<close>

text \<open>A chunk is its bytes and the capacity of its buffer.\<close>

record memEntry =
  curSize :: int
  chunks :: "nat \<Rightarrow> (string \<times> nat) option"
  present :: "nat \<Rightarrow> bitmap option"
  hashes :: "nat \<Rightarrow> 64 word option"
  hint :: "(int \<times> int) option"

record memStore =
  mChunkSize :: nat
  mFiles :: "string \<Rightarrow> memEntry option"

definition newMemEntry :: memEntry where
  "newMemEntry = \<lparr>curSize = 0, chunks = (\<lambda>_. None), present = (\<lambda>_. None), hashes = (\<lambda>_. None), hint = None\<rparr>"

definition NewMemStore :: "int \<Rightarrow> memStore" where
  "NewMemStore cs = \<lparr>mChunkSize = (if cs \<le> 0 then DefaultChunkSize else nat cs), mFiles = (\<lambda>_. None)\<rparr>"

definition rangePresent :: "memEntry \<Rightarrow> nat \<Rightarrow> nat \<Rightarrow> nat \<Rightarrow> bool" where
  "rangePresent e idx off len =
     (case chunks e idx of
        None \<Rightarrow> False
      | Some _ \<Rightarrow>
          (case present e idx of
             None \<Rightarrow> True
           | Some bm \<Rightarrow> (case subSpan off len of (first, last') \<Rightarrow> bmRangeAllSet bm first last')))"

definition subsPerChunk :: "memStore \<Rightarrow> nat" where
  "subsPerChunk m = (mChunkSize m + SubBlockSize - 1) div SubBlockSize"

definition entry :: "memStore \<Rightarrow> fileID \<Rightarrow> memEntry" where
  "entry m i = (case mFiles m (Key i) of Some e \<Rightarrow> e | None \<Rightarrow> newMemEntry)"

definition put_entry :: "memStore \<Rightarrow> fileID \<Rightarrow> memEntry \<Rightarrow> memStore" where
  "put_entry m i e = m\<lparr>mFiles := (mFiles m)(Key i \<mapsto> e)\<rparr>"

text \<open>\<open>copy(buf[off:], data)\<close> into a buffer first grown with zero bytes to hold the data.\<close>

definition zeros :: "nat \<Rightarrow> string" where
  "zeros n = replicate n (CHR 0x00)"

definition overlay :: "string \<Rightarrow> nat \<Rightarrow> string \<Rightarrow> string" where
  "overlay buf off data =
     (let b = buf @ zeros (off + length data - length buf)
      in take off b @ data @ drop (off + length data) b)"

definition memGet :: "memStore \<Rightarrow> fileID \<Rightarrow> nat \<Rightarrow> nat \<Rightarrow> string option" where
  "memGet m i idx buflen =
     (case mFiles m (Key i) of
        None \<Rightarrow> None
      | Some e \<Rightarrow>
          (case chunks e idx of
             None \<Rightarrow> None
           | Some (data, _) \<Rightarrow> if present e idx \<noteq> None then None else Some (take buflen data)))"

definition GetSub :: "memStore \<Rightarrow> fileID \<Rightarrow> nat \<Rightarrow> nat \<Rightarrow> nat \<Rightarrow> string option" where
  "GetSub m i idx subOff buflen =
     (case mFiles m (Key i) of
        None \<Rightarrow> None
      | Some e \<Rightarrow>
          (case chunks e idx of
             None \<Rightarrow> None
           | Some (data, _) \<Rightarrow>
               if \<not> rangePresent e idx subOff buflen then None
               else if subOff + buflen > length data then None
               else Some (take buflen (drop subOff data))))"

text \<open>The buffer that \<open>PutSub\<close> copies into, grown with zero bytes, and its capacity.\<close>

definition sub_buffer :: "memStore \<Rightarrow> memEntry \<Rightarrow> nat \<Rightarrow> nat \<Rightarrow> (string \<times> nat) option" where
  "sub_buffer m e idx need' =
     (case chunks e idx of
        None \<Rightarrow> if need' > mChunkSize m then None else Some (zeros need', mChunkSize m)
      | Some (b, c) \<Rightarrow>
          if length b < need' then
            if c \<ge> need' then Some (b @ zeros (need' - length b), c)
            else if need' > mChunkSize m then None else Some (b @ zeros (need' - length b), mChunkSize m)
          else Some (b, c))"

definition putsub_entry :: "memStore \<Rightarrow> memEntry \<Rightarrow> nat \<Rightarrow> nat \<Rightarrow> string \<Rightarrow> string \<times> nat \<Rightarrow> memEntry" where
  "putsub_entry m e idx subOff data buf =
     (let e1 = e\<lparr>chunks := (chunks e)(idx \<mapsto> (overlay (fst buf) subOff data, snd buf))\<rparr>;
          e2 = (if chunks e idx \<noteq> None \<and> present e idx = None then e1
                else e1\<lparr>present := (present e)(idx \<mapsto> bmSetSpan
                       (case present e idx of Some bm \<Rightarrow> bm | None \<Rightarrow> replicate (bmWords (subsPerChunk m)) 0)
                       (subSpan subOff (length data)))\<rparr>)
      in (if int (subOff + length data) > curSize e2 then e2\<lparr>curSize := int (subOff + length data)\<rparr> else e2))"

definition PutSub :: "memStore \<Rightarrow> fileID \<Rightarrow> nat \<Rightarrow> nat \<Rightarrow> string \<Rightarrow> memStore option" where
  "PutSub m i idx subOff data =
     (let e = entry m i in
      case sub_buffer m e idx (subOff + length data) of
        None \<Rightarrow> None
      | Some buf \<Rightarrow> Some (put_entry m i (putsub_entry m e idx subOff data buf)))"

definition cloneChunk :: "memStore \<Rightarrow> string \<Rightarrow> string \<times> nat" where
  "cloneChunk m data = (data, max (mChunkSize m) (length data))"

definition grow_size :: "memStore \<Rightarrow> nat \<Rightarrow> nat \<Rightarrow> nat \<Rightarrow> memEntry \<Rightarrow> memEntry" where
  "grow_size m idx off len e =
     (let stop = int (idx * mChunkSize m + off + len) in if stop > curSize e then e\<lparr>curSize := stop\<rparr> else e)"

definition PutHashed :: "memStore \<Rightarrow> fileID \<Rightarrow> nat \<Rightarrow> string \<Rightarrow> 64 word \<Rightarrow> memStore" where
  "PutHashed m i idx data h =
     (let e = entry m i;
          e1 = e\<lparr>chunks := (chunks e)(idx \<mapsto> cloneChunk m data), present := (present e)(idx := None),
                 hashes := (hashes e)(idx \<mapsto> h)\<rparr>
      in put_entry m i (grow_size m idx 0 (length data) e1))"

definition memPut :: "(string \<Rightarrow> 64 word) \<Rightarrow> memStore \<Rightarrow> fileID \<Rightarrow> nat \<Rightarrow> string \<Rightarrow> memStore" where
  "memPut hash m i idx data = PutHashed m i idx data (hash data)"

text \<open>The bytes of a partial write over the current chunk, resized to \<open>chunkLen\<close>.\<close>

definition merge :: "string \<Rightarrow> nat \<Rightarrow> string \<Rightarrow> nat \<Rightarrow> string" where
  "merge cur chunkOff data chunkLen =
     take chunkLen (overlay (take chunkLen cur @ zeros (chunkLen - length cur)) chunkOff data)"

definition WriteChunk ::
  "(string \<Rightarrow> 64 word) \<Rightarrow> memStore \<Rightarrow> fileID \<Rightarrow> nat \<Rightarrow> nat \<Rightarrow> string \<Rightarrow> nat \<Rightarrow> 64 word \<Rightarrow> memStore option" where
  "WriteChunk hash m i idx chunkOff data chunkLen callerHash =
     (let full = (chunkOff = 0 \<and> length data = chunkLen) in
      if \<not> full \<and> chunks (entry m i) idx = None then Some m
      else
        let e = grow_size m idx chunkOff (length data) (entry m i) in
        if full then
          Some (put_entry m i (e\<lparr>chunks := (chunks e)(idx \<mapsto> cloneChunk m data), present := (present e)(idx := None),
                                 hashes := (hashes e)(idx \<mapsto> callerHash)\<rparr>))
        else
          let (cur, c) = the (chunks e idx);
              inPlace = (c \<ge> chunkLen \<and> chunkOff + length data \<le> chunkLen)
          in if \<not> inPlace \<and> (chunkLen > mChunkSize m \<or> chunkOff > chunkLen) then None
             else
               let merged = merge cur chunkOff data chunkLen in
               Some (put_entry m i
                 (if hash merged = callerHash
                  then e\<lparr>chunks := (chunks e)(idx \<mapsto> (merged, if inPlace then c else mChunkSize m)),
                         hashes := (hashes e)(idx \<mapsto> callerHash)\<rparr>
                  else e\<lparr>chunks := (chunks e)(idx := None), hashes := (hashes e)(idx := None)\<rparr>)))"

definition WriteThrough :: "memStore \<Rightarrow> fileID \<Rightarrow> nat \<Rightarrow> nat \<Rightarrow> string \<Rightarrow> nat \<Rightarrow> memStore option" where
  "WriteThrough m i idx chunkOff data chunkLen =
     (let full = (chunkOff = 0 \<and> length data = chunkLen) in
      if \<not> full \<and> chunks (entry m i) idx = None then Some m
      else
        let e = grow_size m idx chunkOff (length data) (entry m i) in
        if full then
          Some (put_entry m i (e\<lparr>chunks := (chunks e)(idx \<mapsto> cloneChunk m data), present := (present e)(idx := None),
                                 hashes := (hashes e)(idx \<mapsto> 0)\<rparr>))
        else
          let (cur, c) = the (chunks e idx); want = chunkOff + length data in
          if \<not> c \<ge> want \<and> want > mChunkSize m then None
          else
            let e1 = e\<lparr>chunks := (chunks e)(idx \<mapsto> (overlay cur chunkOff data, if c \<ge> want then c else mChunkSize m)),
                       hashes := (hashes e)(idx \<mapsto> 0)\<rparr>
            in Some (put_entry m i
                 (case present e idx of
                    None \<Rightarrow> e1
                  | Some bm \<Rightarrow> e1\<lparr>present := (present e)(idx \<mapsto> bmSetSpan bm (subSpan chunkOff (length data)))\<rparr>)))"

definition HashRange :: "(string \<Rightarrow> 64 word) \<Rightarrow> memStore \<Rightarrow> fileID \<Rightarrow> nat \<Rightarrow> int \<Rightarrow> int \<Rightarrow> 64 word option" where
  "HashRange hash m i idx off len =
     (case mFiles m (Key i) of
        None \<Rightarrow> None
      | Some e \<Rightarrow>
          (case chunks e idx of
             None \<Rightarrow> None
           | Some (data, _) \<Rightarrow>
               if off < 0 \<or> len < 0 \<or> off + len > int (length data) then None
               else if \<not> rangePresent e idx (nat off) (nat len) then None
               else Some (hash (take (nat len) (drop (nat off) data)))))"

definition ChunkHash :: "memStore \<Rightarrow> fileID \<Rightarrow> nat \<Rightarrow> 64 word option" where
  "ChunkHash m i idx =
     (case mFiles m (Key i) of
        None \<Rightarrow> None
      | Some e \<Rightarrow>
          if chunks e idx = None then None
          else Some (case hashes e idx of Some h \<Rightarrow> h | None \<Rightarrow> 0))"

definition Drop :: "memStore \<Rightarrow> fileID \<Rightarrow> nat \<Rightarrow> memStore" where
  "Drop m i idx =
     (case mFiles m (Key i) of
        None \<Rightarrow> m
      | Some e \<Rightarrow>
          put_entry m i (e\<lparr>chunks := (chunks e)(idx := None), present := (present e)(idx := None),
                           hashes := (hashes e)(idx := None)\<rparr>))"

text \<open>Deletes the chunks, bitmaps and hashes that a predicate selects; \<open>cond\<close> looks only at present chunks.\<close>

definition Resize :: "memStore \<Rightarrow> fileID \<Rightarrow> nat \<Rightarrow> memStore" where
  "Resize m i newSize =
     (let e = entry m i; oldSize = curSize e; dropFrom = newSize div mChunkSize m;
          gone = (\<lambda>k. k \<ge> dropFrom \<and> chunks e k \<noteq> None \<or> (oldSize > 0 \<and> int k = (oldSize - 1) div int (mChunkSize m)))
      in put_entry m i (e\<lparr>chunks := (\<lambda>k. if gone k then None else chunks e k),
                          present := (\<lambda>k. if gone k then None else present e k),
                          hashes := (\<lambda>k. if gone k then None else hashes e k), curSize := int newSize\<rparr>))"

definition Invalidate :: "memStore \<Rightarrow> fileID \<Rightarrow> memStore" where
  "Invalidate m i = m\<lparr>mFiles := (mFiles m)(Key i := None)\<rparr>"

definition Rename :: "memStore \<Rightarrow> fileID \<Rightarrow> fileID \<Rightarrow> memStore" where
  "Rename m old new =
     (if Key old = Key new then m
      else case mFiles m (Key old) of
        None \<Rightarrow> m
      | Some e \<Rightarrow> m\<lparr>mFiles := (mFiles m)(Key new \<mapsto> e, Key old := None)\<rparr>)"

definition Hint :: "memStore \<Rightarrow> fileID \<Rightarrow> (int \<times> int) option" where
  "Hint m i = (case mFiles m (Key i) of None \<Rightarrow> None | Some e \<Rightarrow> hint e)"

definition SetHint :: "memStore \<Rightarrow> fileID \<Rightarrow> int \<Rightarrow> int \<Rightarrow> memStore" where
  "SetHint m i sz mt = put_entry m i ((entry m i)\<lparr>hint := Some (sz, mt)\<rparr>)"

section \<open>The read-through cache\<close>

datatype fetch_err = FetchEOF | FetchFailed

text \<open>A fetcher reads at most the given number of bytes at an offset of the origin.\<close>

type_synonym fetcher = "nat \<Rightarrow> nat \<Rightarrow> string \<times> fetch_err option"

function fillFull :: "fetcher \<Rightarrow> nat \<Rightarrow> nat \<Rightarrow> string \<Rightarrow> string \<times> fetch_err option" where
  "fillFull fetch base want acc =
     (if length acc \<ge> want then (acc, None)
      else
        let (bs, err) = fetch (base + length acc) (want - length acc);
            acc' = acc @ take (want - length acc) bs
        in case err of
             Some e \<Rightarrow> (acc', Some e)
           | None \<Rightarrow> if bs = [] then (acc', Some FetchEOF) else fillFull fetch base want acc')"
  by pat_completeness auto
termination
  by (relation "measure (\<lambda>(_, _, want, acc). want - length acc)") (auto simp: neq_Nil_conv)

declare fillFull.simps [simp del]

text \<open>The two operations of the \<open>Store\<close> interface the read path uses; a failed \<open>Get\<close> counts as a miss.\<close>

record 's cache_store =
  csGet :: "'s \<Rightarrow> fileID \<Rightarrow> nat \<Rightarrow> nat \<Rightarrow> string option"
  csPut :: "'s \<Rightarrow> fileID \<Rightarrow> nat \<Rightarrow> string \<Rightarrow> 's"

definition storeGet :: "'s cache_store \<Rightarrow> 's \<Rightarrow> fileID \<Rightarrow> nat \<Rightarrow> nat \<Rightarrow> string option" where
  "storeGet S s i idx chunkLen =
     (case csGet S s i idx chunkLen of
        None \<Rightarrow> None
      | Some buf \<Rightarrow> if length buf \<noteq> chunkLen then None else Some buf)"

text \<open>Run alone, the function under \<open>singleflight\<close> finds the store as its caller left it.\<close>

definition cache_chunk ::
  "'s cache_store \<Rightarrow> nat \<Rightarrow> 's \<Rightarrow> fileID \<Rightarrow> nat \<Rightarrow> nat \<Rightarrow> fetcher \<Rightarrow> (fetch_err + string) \<times> 's" where
  "cache_chunk S cs s i idx chunkLen fetch =
     (case storeGet S s i idx chunkLen of
        Some buf \<Rightarrow> (Inr buf, s)
      | None \<Rightarrow>
          (case fillFull fetch (idx * cs) chunkLen [] of
             (buf, ferr) \<Rightarrow>
               if ferr \<noteq> None \<and> \<not> (ferr = Some FetchEOF \<and> length buf = chunkLen) then (Inl (the ferr), s)
               else (Inr buf, csPut S s i idx buf)))"

text \<open>The loop of \<open>ReadAt\<close>: the bytes read so far and, when it ends in an error, that error.\<close>

function readLoop ::
  "'s cache_store \<Rightarrow> nat \<Rightarrow> 's \<Rightarrow> fileID \<Rightarrow> nat \<Rightarrow> fetcher \<Rightarrow> nat \<Rightarrow> nat \<Rightarrow> string \<Rightarrow>
   string \<times> fetch_err option \<times> 's" where
  "readLoop S cs s i sz fetch off stop acc =
     (let pos = off + length acc in
      if pos \<ge> stop then (acc, None, s)
      else
        let idx = pos div cs; chunkStart = idx * cs;
            chunkLen = (if chunkStart + cs > sz then sz - chunkStart else cs)
        in case cache_chunk S cs s i idx chunkLen fetch of
             (Inl e, s') \<Rightarrow> (acc, Some e, s')
           | (Inr data, s') \<Rightarrow>
               let inChunk = pos - chunkStart in
               if inChunk \<ge> length data then (acc, None, s')
               else readLoop S cs s' i sz fetch off stop (acc @ take (stop - pos) (drop inChunk data)))"
  by pat_completeness auto
termination
  by (relation "measure (\<lambda>(_, _, _, _, _, _, off, stop, acc). stop - (off + length acc))") auto

declare readLoop.simps [simp del]

datatype read_err = NegativeOffset | ReadEOF | ReadFailed fetch_err

definition ReadAt ::
  "'s cache_store \<Rightarrow> nat \<Rightarrow> 's \<Rightarrow> fileID \<Rightarrow> nat \<Rightarrow> fetcher \<Rightarrow> nat \<Rightarrow> int \<Rightarrow> string \<times> read_err option \<times> 's" where
  "ReadAt S cs s i sz fetch plen off =
     (if plen = 0 then ([], None, s)
      else if off < 0 then ([], Some NegativeOffset, s)
      else if nat off \<ge> sz then ([], Some ReadEOF, s)
      else
        let stop = (if nat off + plen > sz then sz else nat off + plen) in
        case readLoop S cs s i sz fetch (nat off) stop [] of
          (acc, Some e, s') \<Rightarrow> if length acc > 0 then (acc, None, s') else ([], Some (ReadFailed e), s')
        | (acc, None, s') \<Rightarrow> (acc, if length acc < plen then Some ReadEOF else None, s'))"

definition NewCache :: "int \<Rightarrow> nat" where
  "NewCache cs = (if cs \<le> 0 then DefaultChunkSize else nat cs)"

section \<open>Reading through the cache is exact\<close>

text \<open>The contract of the origin without I/O errors, that of \<open>io.ReaderAt\<close> over the content.\<close>

definition honest :: "fetcher \<Rightarrow> string \<Rightarrow> bool" where
  "honest fetch content \<longleftrightarrow>
     (\<forall>off n. case fetch off n of (bs, err) \<Rightarrow>
        bs = take (length bs) (drop off content) \<and> length bs \<le> n \<and> err \<noteq> Some FetchFailed \<and>
        (err = Some FetchEOF \<longrightarrow> off + length bs \<ge> length content \<or> length bs = n) \<and>
        (err = None \<and> 0 < n \<and> off < length content \<longrightarrow> bs \<noteq> []))"

lemma take_drop_append:
  "acc = take (length acc) (drop b c) \<Longrightarrow> bs = take (length bs) (drop (b + length acc) c) \<Longrightarrow>
   acc @ bs = take (length acc + length bs) (drop b c)"
  by (metis add.commute drop_drop take_add)

lemma fillFull_exact:
  assumes "honest fetch content" "base + want \<le> length content" "acc = take (length acc) (drop base content)"
    "length acc \<le> want"
  shows "fst (fillFull fetch base want acc) = take want (drop base content) \<and>
    snd (fillFull fetch base want acc) \<in> {None, Some FetchEOF}"
  using assms(3,4)
proof (induction "want - length acc" arbitrary: acc rule: less_induct)
  case less
  show ?case
  proof (cases "length acc \<ge> want")
    case True
    with less.prems(2) have l: "length acc = want" by simp
    have "fillFull fetch base want acc = (acc, None)" using True by (simp add: fillFull.simps [of fetch base want acc])
    then show ?thesis using less.prems(1) unfolding l by simp
  next
    case False
    obtain bs err where f: "fetch (base + length acc) (want - length acc) = (bs, err)" by fastforce
    from assms(1) [unfolded honest_def, rule_format, of "base + length acc" "want - length acc"]
    have h: "bs = take (length bs) (drop (base + length acc) content)" "length bs \<le> want - length acc"
      "err \<noteq> Some FetchFailed"
      "err = Some FetchEOF \<longrightarrow> base + length acc + length bs \<ge> length content \<or> length bs = want - length acc"
      "err = None \<and> 0 < want - length acc \<and> base + length acc < length content \<longrightarrow> bs \<noteq> []"
      unfolding f by simp_all
    have ap: "acc @ bs = take (length (acc @ bs)) (drop base content)"
      unfolding length_append by (rule take_drop_append [OF less.prems(1) h(1)])
    have tk: "take (want - length acc) bs = bs" using h(2) by simp
    note unf = fillFull.simps [of fetch base want acc, unfolded f Let_def prod.case tk]
    show ?thesis
    proof (cases err)
      case None
      then have ne: "bs \<noteq> []" using h(5) False assms(2) by simp
      have "fillFull fetch base want acc = fillFull fetch base want (acc @ bs)"
        unfolding unf using False None ne by simp
      moreover have "want - length (acc @ bs) < want - length acc" using ne False by (cases bs) auto
      ultimately show ?thesis using less.hyps [of "acc @ bs"] ap h(2) False by simp
    next
      case (Some e)
      then have "e = FetchEOF" using h(3) by (cases e) auto
      then have "length (acc @ bs) = want" using Some h(2,4) assms(2) False less.prems(2) by auto
      then show ?thesis unfolding unf using False Some \<open>e = FetchEOF\<close> ap by simp
    qed
  qed
qed

text \<open>Whatever the store returns for a chunk is a prefix of the content from that chunk on.\<close>

definition coherent :: "'s cache_store \<Rightarrow> nat \<Rightarrow> 's \<Rightarrow> fileID \<Rightarrow> string \<Rightarrow> bool" where
  "coherent S cs s i content \<longleftrightarrow>
     (\<forall>idx n d. csGet S s i idx n = Some d \<longrightarrow> d = take (length d) (drop (idx * cs) content))"

text \<open>What the read path relies on of a store.\<close>

locale chunk_store =
  fixes S :: "'s cache_store"
  assumes get_put: "csGet S (csPut S s i idx d) j k n =
    (if Key j = Key i \<and> k = idx then Some (take n d) else csGet S s j k n)"
begin

lemma coherent_put: "coherent S cs s i content \<Longrightarrow> coherent S cs (csPut S s i idx (take n (drop (idx * cs) content))) i content"
  by (auto simp: coherent_def get_put min_def split: if_splits)

lemma cache_chunk_exact:
  assumes "honest fetch content" "coherent S cs s i content" "idx * cs + chunkLen \<le> length content"
    "cache_chunk S cs s i idx chunkLen fetch = (r, s')"
  shows "r = Inr (take chunkLen (drop (idx * cs) content)) \<and> coherent S cs s' i content"
proof (cases "storeGet S s i idx chunkLen")
  case (Some buf)
  then have "csGet S s i idx chunkLen = Some buf" "length buf = chunkLen"
    by (auto simp: storeGet_def split: option.splits if_splits)
  then have "buf = take chunkLen (drop (idx * cs) content)" using assms(2) unfolding coherent_def by metis
  then show ?thesis using assms(2,4) Some by (simp add: cache_chunk_def)
next
  case None
  obtain buf ferr where f: "fillFull fetch (idx * cs) chunkLen [] = (buf, ferr)" by fastforce
  have b: "buf = take chunkLen (drop (idx * cs) content)" "ferr \<in> {None, Some FetchEOF}"
    using fillFull_exact [OF assms(1,3), of "[]"] unfolding f by simp_all
  moreover have "length buf = chunkLen" using assms(3) b(1) by simp
  ultimately have "r = Inr buf" "s' = csPut S s i idx buf"
    using assms(4) None f by (auto simp: cache_chunk_def)
  then show ?thesis using b(1) coherent_put [OF assms(2)] by simp
qed

lemma readLoop_exact:
  assumes "honest fetch content" "0 < cs" "stop \<le> length content" "coherent S cs s i content"
    "acc = take (length acc) (drop off content)" "off + length acc \<le> stop"
  shows "\<exists>s'. readLoop S cs s i (length content) fetch off stop acc = (take (stop - off) (drop off content), None, s') \<and>
    coherent S cs s' i content"
  using assms(4-6)
proof (induction "stop - (off + length acc)" arbitrary: acc s rule: less_induct)
  case less
  let ?pos = "off + length acc" and ?sz = "length content"
  let ?idx = "?pos div cs"
  let ?start = "?idx * cs"
  let ?len = "if ?start + cs > ?sz then ?sz - ?start else cs"
  note unf = readLoop.simps [of S cs s i ?sz fetch off stop acc, unfolded Let_def]
  show ?case
  proof (cases "?pos \<ge> stop")
    case True
    then have l: "length acc = stop - off" using less.prems(3) by simp
    show ?thesis unfolding unf using True less.prems(1,2) l by simp
  next
    case False
    have st: "?start \<le> ?pos" "?pos < ?start + cs"
      using assms(2) div_mult_mod_eq [of ?pos cs] mod_less_divisor [OF assms(2), of ?pos] by linarith+
    have sle: "?start \<le> ?sz" "?pos < ?sz" using st(1) False assms(3) by linarith+
    have len: "?start + ?len \<le> ?sz" "?pos < ?start + ?len"
      using sle st(2) by (simp_all del: div_mult_self_is_m split: if_split)
    obtain r s' where c: "cache_chunk S cs s i ?idx ?len fetch = (r, s')" by fastforce
    from cache_chunk_exact [OF assms(1) less.prems(1) len(1) c]
    have r: "r = Inr (take ?len (drop ?start content))" "coherent S cs s' i content" by blast+
    let ?data = "take ?len (drop ?start content)"
    have ld: "length ?data = ?len" using len(1) by simp
    let ?new = "take (stop - ?pos) (drop (?pos - ?start) ?data)"
    have "drop (?pos - ?start) ?data = take (?len - (?pos - ?start)) (drop ?pos content)"
      using st(1) by (simp only: drop_take drop_drop) (simp add: add.commute)
    then have new: "?new = take (length ?new) (drop ?pos content)" by (simp add: min_def)
    have ne: "0 < length ?new" "length ?new \<le> stop - ?pos" using False ld len(2) st(1) by simp_all
    have ap: "acc @ ?new = take (length (acc @ ?new)) (drop off content)"
      unfolding length_append by (rule take_drop_append [OF less.prems(2) new])
    have nb: "\<not> length ?data \<le> ?pos - ?start" using ld len(2) st(1) by linarith
    have "readLoop S cs s i ?sz fetch off stop acc = readLoop S cs s' i ?sz fetch off stop (acc @ ?new)"
      unfolding unf c r(1) by (simp only: prod.case sum.case if_not_P [OF False] if_not_P [OF nb])
    moreover have "stop - (off + length (acc @ ?new)) < stop - ?pos" "off + length (acc @ ?new) \<le> stop"
      using ne False unfolding length_append by linarith+
    ultimately show ?thesis using less.hyps [OF _ r(2) ap] by metis
  qed
qed

lemma ReadAt_exact:
  assumes "honest fetch content" "0 < cs" "coherent S cs s i content" "0 \<le> off" "0 < plen"
  shows "\<exists>s'. ReadAt S cs s i (length content) fetch plen off =
      (take plen (drop (nat off) content), if nat off + plen \<le> length content then None else Some ReadEOF, s') \<and>
    coherent S cs s' i content"
proof (cases "nat off \<ge> length content")
  case True
  then show ?thesis using assms by (simp add: ReadAt_def)
next
  case False
  let ?stop = "if nat off + plen > length content then length content else nat off + plen"
  have e: "?stop \<le> length content" "nat off + length [] \<le> ?stop" using False by simp_all
  obtain s' where r: "readLoop S cs s i (length content) fetch (nat off) ?stop [] =
      (take (?stop - nat off) (drop (nat off) content), None, s')" "coherent S cs s' i content"
    using readLoop_exact [OF assms(1,2) e(1) assms(3) _ e(2)] by auto
  have t: "take (?stop - nat off) (drop (nat off) content) = take plen (drop (nat off) content)" using False by simp
  show ?thesis
    using assms(4,5) False r(2) unfolding ReadAt_def Let_def r(1) t by (simp add: min_def) linarith
qed

end

definition memCache :: "(string \<Rightarrow> 64 word) \<Rightarrow> memStore cache_store" where
  "memCache hash = \<lparr>csGet = memGet, csPut = memPut hash\<rparr>"

interpretation mem: chunk_store "memCache hash" for hash
  by unfold_locales
    (auto simp: memCache_def memGet_def memPut_def PutHashed_def put_entry_def grow_size_def cloneChunk_def entry_def
      newMemEntry_def Let_def split: option.split)

text \<open>C16. Reading through the cache returns exactly the origin's bytes: for every offset, length and chunk size,
  with any mix of cached and missing chunks and however short the fetches, the result is the requested
  slice of the content, end of file is reported exactly when the slice is cut short, the read always
  ends, and what it adds to the cache keeps it coherent. An empty cache is coherent.\<close>

theorem read_through_exact:
  assumes "honest fetch content" "0 < cs" "0 \<le> off" "0 < plen" "coherent (memCache hash) cs s i content"
  shows "\<exists>s'. ReadAt (memCache hash) cs s i (length content) fetch plen off =
      (take plen (drop (nat off) content), if nat off + plen \<le> length content then None else Some ReadEOF, s') \<and>
    coherent (memCache hash) cs s' i content \<and> coherent (memCache hash) cs (NewMemStore k) i content"
proof -
  have "coherent (memCache hash) cs (NewMemStore k) i content"
    by (simp add: coherent_def memCache_def memGet_def NewMemStore_def)
  then show ?thesis using mem.ReadAt_exact [OF assms(1,2,5,3,4)] by blast
qed

definition abc_fetch :: fetcher where
  "abc_fetch off n = (take (min n 1) (drop off ''abcde''), None)"

theorem read_through_exact_witness:
  "\<exists>s'. ReadAt (memCache (\<lambda>_. 0)) 2 (NewMemStore 2) \<lparr>idMount = ''m'', idPath = ''p'', idSize = 5, idMTimeNs = 0, idWritable = False\<rparr>
     5 abc_fetch 10 1 = (''bcde'', Some ReadEOF, s')"
proof -
  let ?i = "\<lparr>idMount = ''m'', idPath = ''p'', idSize = 5, idMTimeNs = 0, idWritable = False\<rparr>"
  have h: "honest abc_fetch ''abcde''"
    by (auto simp: honest_def abc_fetch_def min_def)
  have c: "coherent (memCache (\<lambda>_. 0)) 2 (NewMemStore 2) ?i ''abcde''"
    by (simp add: coherent_def memCache_def memGet_def NewMemStore_def)
  have l: "length ''abcde'' = 5" by simp
  from read_through_exact [OF h, of 2 1 10 "\<lambda>_. 0" "NewMemStore 2" ?i, unfolded l] c
  obtain s' where "ReadAt (memCache (\<lambda>_. 0)) 2 (NewMemStore 2) ?i 5 abc_fetch 10 1 =
      (take 10 (drop (nat 1) ''abcde''), if nat 1 + 10 \<le> 5 then None else Some ReadEOF, s')" by fastforce
  then show ?thesis by simp
qed

section \<open>Demand fill\<close>

lemma length_bmSet [simp]: "length (bmSet i bm) = length bm"
  by (simp add: bmSet_def)

lemma bmGet_bmSet: "bmGet (bmSet i bm) j \<longleftrightarrow> bmGet bm j \<or> (j = i \<and> i div 64 < length bm)"
proof (cases "i div 64 < length bm \<and> j div 64 = i div 64")
  case True
  have "j mod 64 = i mod 64 \<longleftrightarrow> j = i" using True by (metis div_mult_mod_eq)
  moreover have "i mod 64 < 64" "j mod 64 < 64" by simp_all
  ultimately show ?thesis using True
    by (auto simp: bmGet_def bmSet_def bit_or_iff bit_exp_iff)
next
  case False
  then show ?thesis by (auto simp: bmGet_def bmSet_def nth_list_update)
qed

lemma bmGet_fold: "bmGet (fold bmSet is bm) j \<longleftrightarrow> bmGet bm j \<or> (j \<in> set is \<and> j div 64 < length bm)"
  by (induction "is" arbitrary: bm) (auto simp: bmGet_bmSet)

lemma bmGet_span: "bmGet (bmSetSpan bm (a, b)) j \<longleftrightarrow> bmGet bm j \<or> (a \<le> j \<and> j \<le> b \<and> j div 64 < length bm)"
  by (auto simp: bmSetSpan_def bmGet_fold less_Suc_eq_le simp del: upt_Suc)

lemma bmGet_zero: "\<not> bmGet (replicate n 0) j"
  by (auto simp: bmGet_def)

lemma length_overlay: "length (overlay b off d) = max (length b) (off + length d)"
  by (auto simp: overlay_def Let_def zeros_def)

lemma nth_overlay:
  "p < length (overlay b off d) \<Longrightarrow>
   overlay b off d ! p = (if off \<le> p \<and> p < off + length d then d ! (p - off) else if p < length b then b ! p else CHR 0x00)"
  by (auto simp: overlay_def Let_def zeros_def nth_append nth_drop min_def)

text \<open>
  The bytes that a partial read can return, by chunk and position, agree with the file \<open>truth\<close>, and a bitmap
  belongs to a chunk.
\<close>

definition valid_at :: "memEntry \<Rightarrow> nat \<Rightarrow> nat \<Rightarrow> bool" where
  "valid_at e idx p \<longleftrightarrow> (case present e idx of None \<Rightarrow> True | Some bm \<Rightarrow> bmGet bm (p div SubBlockSize))"

definition sub_coherent :: "memEntry \<Rightarrow> (nat \<Rightarrow> nat \<Rightarrow> char) \<Rightarrow> bool" where
  "sub_coherent e truth \<longleftrightarrow>
     (\<forall>idx d c p. chunks e idx = Some (d, c) \<and> p < length d \<and> valid_at e idx p \<longrightarrow> d ! p = truth idx p) \<and>
     (\<forall>idx. present e idx \<noteq> None \<longrightarrow> chunks e idx \<noteq> None)"

lemma entry_put [simp]: "entry (put_entry m i e) i = e"
  by (simp add: entry_def put_entry_def)

lemma span_cover:
  assumes "off \<le> p" "p < off + len"
  shows "fst (subSpan off len) \<le> p div SubBlockSize \<and> p div SubBlockSize \<le> snd (subSpan off len)"
  using assms by (auto simp: subSpan_def SubBlockSize_def intro!: div_le_mono)

lemma span_aligned:
  assumes "SubBlockSize dvd off" "fst (subSpan off len) \<le> p div SubBlockSize" "0 < len"
    "p div SubBlockSize \<le> snd (subSpan off len)" "SubBlockSize dvd len \<or> p < off + len"
  shows "off \<le> p \<and> p < off + len"
proof -
  obtain k where k: "off = SubBlockSize * k" using assms(1) by (elim dvdE)
  have "k \<le> p div SubBlockSize" using assms(2,3) k by (simp add: subSpan_def SubBlockSize_def)
  then have lo: "off \<le> p" using k by (simp add: SubBlockSize_def)
  moreover have "p < off + len" if d: "SubBlockSize dvd len"
  proof -
    obtain j where j: "len = SubBlockSize * j" using d by (elim dvdE)
    have "p div SubBlockSize \<le> (SubBlockSize * (k + j) - 1) div SubBlockSize"
      using assms(3,4) k j by (simp add: subSpan_def algebra_simps)
    moreover have "0 < j" using assms(3) j by simp
    then have "SubBlockSize * (k + j) - 1 < (k + j) * SubBlockSize" by (simp add: SubBlockSize_def)
    then have "(SubBlockSize * (k + j) - 1) div SubBlockSize < k + j" by (rule less_mult_imp_div_less)
    ultimately have "p div SubBlockSize < k + j" by linarith
    then have "p < (k + j) * SubBlockSize" by (simp add: div_less_iff_less_mult SubBlockSize_def)
    then show ?thesis using k j by (simp add: algebra_simps)
  qed
  ultimately show ?thesis using assms(5) by blast
qed

lemma sub_buffer_bytes:
  "sub_buffer m e idx n = Some (b, c) \<Longrightarrow>
   b = (case chunks e idx of None \<Rightarrow> zeros n | Some (d, _) \<Rightarrow> d @ zeros (n - length d))"
  by (auto simp: sub_buffer_def zeros_def split: option.splits if_splits)

lemma putsub_fields:
  "chunks (putsub_entry m e idx subOff data buf) = (chunks e)(idx \<mapsto> (overlay (fst buf) subOff data, snd buf))"
  "present (putsub_entry m e idx subOff data buf) =
     (if chunks e idx \<noteq> None \<and> present e idx = None then present e
      else (present e)(idx \<mapsto> bmSetSpan
             (case present e idx of Some bm \<Rightarrow> bm | None \<Rightarrow> replicate (bmWords (subsPerChunk m)) 0)
             (subSpan subOff (length data))))"
  by (simp_all add: putsub_entry_def Let_def)

lemma putsub_valid:
  assumes "valid_at (putsub_entry m e idx subOff data buf) j p"
  shows "j \<noteq> idx \<and> valid_at e j p \<or> j = idx \<and> chunks e idx \<noteq> None \<and> valid_at e idx p \<or>
    j = idx \<and> fst (subSpan subOff (length data)) \<le> p div SubBlockSize \<and>
      p div SubBlockSize \<le> snd (subSpan subOff (length data)) \<or>
    j = idx \<and> chunks e idx = None \<and> present e idx \<noteq> None"
  using assms
  by (cases "present e idx"; cases "chunks e idx"; cases "subSpan subOff (length data)"; cases "j = idx")
    (auto simp: valid_at_def putsub_fields bmGet_span bmGet_zero split: if_splits)

lemma GetSub_entry:
  "GetSub m i j off n = Some s \<Longrightarrow>
   \<exists>d c. chunks (entry m i) j = Some (d, c) \<and> rangePresent (entry m i) j off n \<and> off + n \<le> length d \<and>
     s = take n (drop off d)"
  by (auto simp: GetSub_def entry_def split: option.splits if_splits)

lemma GetSub_coherent:
  assumes "sub_coherent (entry m i) truth" "GetSub m i j off n = Some s"
  shows "length s = n \<and> (\<forall>k < n. s ! k = truth j (off + k))"
proof -
  obtain d c where d: "chunks (entry m i) j = Some (d, c)" "rangePresent (entry m i) j off n" "off + n \<le> length d"
    "s = take n (drop off d)" using GetSub_entry [OF assms(2)] by blast
  have "valid_at (entry m i) j (off + k)" if "k < n" for k
    using d(1,2) that span_cover [of off "off + k" n]
    by (auto simp: rangePresent_def valid_at_def bmRangeAllSet_def list_all_iff simp del: upt_Suc
        split: option.splits prod.splits)
  then show ?thesis using assms(1) d by (auto simp: sub_coherent_def)
qed

text \<open>C17. Demand fill is coherent: filling an aligned range with the file's bytes keeps every byte the cache can
  serve equal to the file, as long as the fill leaves no gap marked present behind the cached bytes, and
  a partial read that the store answers returns exactly the file's bytes of that range.\<close>

theorem demand_fill_coherent:
  assumes "sub_coherent (entry m i) truth" "PutSub m i idx subOff data = Some m'" "data \<noteq> []"
    "\<forall>k < length data. data ! k = truth idx (subOff + k)" "SubBlockSize dvd subOff"
    "SubBlockSize dvd length data \<or>
       (\<forall>d c. chunks (entry m i) idx = Some (d, c) \<longrightarrow> length d \<le> subOff + length data)"
    "\<forall>d c p. chunks (entry m i) idx = Some (d, c) \<and> length d \<le> p \<and> p < subOff \<longrightarrow> \<not> valid_at (entry m i) idx p"
  shows "sub_coherent (entry m' i) truth \<and>
    (\<forall>j off n s. GetSub m' i j off n = Some s \<longrightarrow> length s = n \<and> (\<forall>k < n. s ! k = truth j (off + k)))"
proof -
  let ?e = "entry m i"
  obtain b c where sb: "sub_buffer m ?e idx (subOff + length data) = Some (b, c)"
    and m': "m' = put_entry m i (putsub_entry m ?e idx subOff data (b, c))"
    using assms(2) by (auto simp: PutSub_def Let_def split: option.splits)
  let ?e' = "putsub_entry m ?e idx subOff data (b, c)"
  have owned: "present ?e k \<noteq> None \<Longrightarrow> chunks ?e k \<noteq> None" for k using assms(1) by (simp add: sub_coherent_def)
  have bytes: "d ! p = truth k p" if "chunks ?e k = Some (d, c')" "p < length d" "valid_at ?e k p" for k d c' p
    using assms(1) that by (auto simp: sub_coherent_def)
  have new: "overlay b subOff data ! p = truth idx p"
    if p: "p < length (overlay b subOff data)" "valid_at ?e' idx p" for p
  proof (cases "subOff \<le> p \<and> p < subOff + length data")
    case True
    then have "p - subOff < length data" by linarith
    with assms(4) True have "data ! (p - subOff) = truth idx p" by auto
    with True p(1) show ?thesis by (simp add: nth_overlay)
  next
    case out: False
    have "\<exists>d c'. chunks ?e idx = Some (d, c') \<and> p < length d \<and> valid_at ?e idx p"
    proof (cases "chunks ?e idx")
      case None
      then have "length b = subOff + length data" using sub_buffer_bytes [OF sb] by (simp add: zeros_def)
      then have pl: "p < subOff + length data" using p(1) by (simp add: length_overlay)
      have "present ?e idx = None" using None owned [of idx] by blast
      with putsub_valid [OF p(2)] None have
        "fst (subSpan subOff (length data)) \<le> p div SubBlockSize" "p div SubBlockSize \<le> snd (subSpan subOff (length data))"
        by auto
      with span_aligned [OF assms(5) this(1) _ this(2)] pl assms(3) out show ?thesis by simp
    next
      case (Some dc)
      obtain d c' where dc: "chunks ?e idx = Some (d, c')" using Some by (cases dc) simp
      have len: "length (overlay b subOff data) = max (length d) (subOff + length data)"
        using sub_buffer_bytes [OF sb] dc by (simp add: length_overlay zeros_def)
      have nospan: "\<not> (fst (subSpan subOff (length data)) \<le> p div SubBlockSize \<and>
          p div SubBlockSize \<le> snd (subSpan subOff (length data)))"
        using span_aligned [OF assms(5), of "length data" p] assms(3,6) dc out p(1) len by fastforce
      with putsub_valid [OF p(2)] dc have v: "valid_at ?e idx p" by auto
      with assms(7) dc have "\<not> (length d \<le> p \<and> p < subOff)" by blast
      with out p(1) len have "p < length d" by auto
      with dc v show ?thesis by blast
    qed
    then obtain d c' where d: "chunks ?e idx = Some (d, c')" "p < length d" "valid_at ?e idx p" by blast
    then have "overlay b subOff data ! p = d ! p"
      using sub_buffer_bytes [OF sb] unfolding nth_overlay [OF p(1)] if_not_P [OF out] by (simp add: nth_append)
    with bytes [OF d] show ?thesis by simp
  qed
  have "sub_coherent ?e' truth"
    unfolding sub_coherent_def
  proof (intro conjI allI impI)
    fix k d c' p
    assume h: "chunks ?e' k = Some (d, c') \<and> p < length d \<and> valid_at ?e' k p"
    show "d ! p = truth k p"
    proof (cases "k = idx")
      case True
      then have v: "valid_at ?e' idx p" using h by blast
      from h True have d: "d = overlay b subOff data" by (simp add: putsub_fields)
      show ?thesis using new [OF _ v] h True unfolding d by blast
    next
      case False
      then show ?thesis using h putsub_valid [of m ?e idx subOff data "(b, c)" k p] bytes [of k d c' p]
        by (simp add: putsub_fields)
    qed
  next
    fix k
    assume "present ?e' k \<noteq> None"
    then show "chunks ?e' k \<noteq> None" using owned [of k] by (auto simp: putsub_fields split: if_splits)
  qed
  then have "sub_coherent (entry m' i) truth" by (simp add: m')
  then show ?thesis using GetSub_coherent [of m' i truth] by blast
qed

definition some_file :: fileID where
  "some_file = \<lparr>idMount = ''m'', idPath = ''p'', idSize = 0, idMTimeNs = 0, idWritable = True\<rparr>"

theorem demand_fill_coherent_witness:
  "\<exists>m'. PutSub (NewMemStore 8192) some_file 0 0 ''abc'' = Some m' \<and>
     sub_coherent (entry m' some_file) (\<lambda>_ p. if p < 3 then ''abc'' ! p else CHR ''?'')"
proof -
  let ?t = "\<lambda>(_::nat) p. if p < 3 then ''abc'' ! p else CHR ''?''"
  have e: "entry (NewMemStore 8192) some_file = newMemEntry" by (simp add: entry_def NewMemStore_def)
  have "sub_coherent newMemEntry ?t" by (simp add: sub_coherent_def newMemEntry_def)
  moreover obtain m' where m': "PutSub (NewMemStore 8192) some_file 0 0 ''abc'' = Some m'"
  proof -
    have "sub_buffer (NewMemStore 8192) newMemEntry 0 (0 + length ''abc'') = Some (zeros 3, 8192)"
      by (simp add: sub_buffer_def newMemEntry_def NewMemStore_def eval_nat_numeral)
    then show thesis using that unfolding PutSub_def Let_def e by simp
  qed
  ultimately show ?thesis
    using demand_fill_coherent [of "NewMemStore 8192" some_file ?t 0 0 "''abc''" m'] e by (simp add: newMemEntry_def)
qed

text \<open>C18. A write through a partially cached chunk marks every sub-block it touches as present, also one it covers
  only in part and that was never filled: a partial read of that sub-block was a miss before the write and
  is answered after it, with the bytes the buffer happens to hold around the written ones.\<close>

theorem write_through_exposes_unfilled:
  assumes "mFiles m (Key i) = Some e" "chunks e idx = Some (d, c)" "present e idx = Some bm"
    "\<not> bmGet bm k" "k div 64 < length bm" "data \<noteq> []" "k * SubBlockSize \<le> chunkOff"
    "chunkOff + length data \<le> (k + 1) * SubBlockSize" "(k + 1) * SubBlockSize \<le> length d" "length d \<le> c"
    "\<not> (chunkOff = 0 \<and> length data = chunkLen)"
  shows "GetSub m i idx (k * SubBlockSize) SubBlockSize = None \<and>
    (\<exists>m'. WriteThrough m i idx chunkOff data chunkLen = Some m' \<and>
      GetSub m' i idx (k * SubBlockSize) SubBlockSize =
        Some (take SubBlockSize (drop (k * SubBlockSize) (overlay d chunkOff data))))"
proof -
  have sp: "subSpan (k * SubBlockSize) SubBlockSize = (k, k)" by (simp add: subSpan_def SubBlockSize_def)
  have "chunkOff div SubBlockSize = k" "(chunkOff + length data - 1) div SubBlockSize = k"
    using assms(6-8) by (auto intro!: div_nat_eqI simp: SubBlockSize_def) (cases data; simp)+
  then have ws: "subSpan chunkOff (length data) = (k, k)" using assms(6) by (simp add: subSpan_def)
  have len: "length (overlay d chunkOff data) = length d" using assms(8,9) by (simp add: length_overlay)
  have "GetSub m i idx (k * SubBlockSize) SubBlockSize = None"
    using assms(1-4) by (simp add: GetSub_def rangePresent_def sp bmRangeAllSet_def)
  moreover obtain e1 where e1: "WriteThrough m i idx chunkOff data chunkLen = Some (put_entry m i e1)"
    "chunks e1 idx = Some (overlay d chunkOff data, c)" "present e1 idx = Some (bmSetSpan bm (k, k))"
  proof
    let ?g = "grow_size m idx chunkOff (length data) e"
    have g: "chunks ?g = chunks e" "present ?g = present e" "hashes ?g = hashes e" by (simp_all add: grow_size_def Let_def)
    have en: "entry m i = e" using assms(1) by (simp add: entry_def)
    show "WriteThrough m i idx chunkOff data chunkLen = Some (put_entry m i
      (?g\<lparr>chunks := (chunks e)(idx \<mapsto> (overlay d chunkOff data, c)), hashes := (hashes e)(idx \<mapsto> 0),
          present := (present e)(idx \<mapsto> bmSetSpan bm (k, k))\<rparr>))"
      unfolding WriteThrough_def Let_def en using assms(2,3,8-11) by (auto simp: g ws)
  qed simp_all
  moreover have "bmGet (bmSetSpan bm (k, k)) k" using assms(5) by (simp add: bmGet_span)
  ultimately show ?thesis using len assms(9)
    by (simp add: GetSub_def put_entry_def rangePresent_def sp bmRangeAllSet_def)
qed

theorem write_through_exposes_unfilled_witness:
  "\<exists>m m'. GetSub m some_file 0 0 4096 = None \<and> WriteThrough m some_file 0 10 ''x'' 8192 = Some m' \<and>
     GetSub m' some_file 0 0 4096 = Some (take 4096 (overlay (zeros 8192) 10 ''x''))"
proof -
  let ?e = "newMemEntry\<lparr>chunks := [0 \<mapsto> (zeros 8192, 8192)], present := [0 \<mapsto> [2]]\<rparr>"
  let ?m = "\<lparr>mChunkSize = 8192, mFiles = [Key some_file \<mapsto> ?e]\<rparr>"
  have "\<not> bmGet [2] 0" by code_simp
  then show ?thesis
    using write_through_exposes_unfilled [of ?m some_file ?e 0 "zeros 8192" 8192 "[2]" 0 "''x''" 10 8192]
    by (auto simp: zeros_def SubBlockSize_def)
qed

end
