(* ===== verification/Glob.thy ===== *)
theory Glob
  imports GoStd "HOL-Library.Char_ord"
begin

text \<open>Shell patterns as Go's \<open>path.Match\<close> reads them.\<close>

section \<open>Globs\<close>

text \<open>
  \<open>path.Match\<close>: the pattern is read into tokens, \<open>None\<close> when it is malformed; a star and a question mark do
  not match a slash. A class is the list of its ranges with its negation flag.
\<close>

datatype gtok = GStar | GAny | GLit char | GClass bool "(char \<times> char) list"

definition getEsc :: "string \<Rightarrow> (char \<times> string) option" where
  "getEsc chunk =
     (case chunk of
        [] \<Rightarrow> None
      | c # cs \<Rightarrow>
          if c = CHR ''-'' \<or> c = CHR '']'' then None
          else if c = CHR 0x5C then (case cs of e # es \<Rightarrow> if es = [] then None else Some (e, es) | [] \<Rightarrow> None)
          else if cs = [] then None else Some (c, cs))"

fun glob_class :: "nat \<Rightarrow> (char \<times> char) list \<Rightarrow> string \<Rightarrow> ((char \<times> char) list \<times> string) option" where
  "glob_class 0 rs s = None"
| "glob_class (Suc n) rs s =
     (if s \<noteq> [] \<and> hd s = CHR '']'' \<and> rs \<noteq> [] then Some (rs, tl s)
      else case getEsc s of
        None \<Rightarrow> None
      | Some (lo, s1) \<Rightarrow>
          if hd s1 = CHR ''-'' then
            (case getEsc (tl s1) of None \<Rightarrow> None | Some (hi, s2) \<Rightarrow> glob_class n (rs @ [(lo, hi)]) s2)
          else glob_class n (rs @ [(lo, lo)]) s1)"

fun parse_glob :: "nat \<Rightarrow> string \<Rightarrow> gtok list option" where
  "parse_glob 0 s = (if s = [] then Some [] else None)"
| "parse_glob (Suc n) s =
     (case s of
        [] \<Rightarrow> Some []
      | c # cs \<Rightarrow>
          if c = CHR ''*'' then map_option (\<lambda>ts. GStar # ts) (parse_glob n cs)
          else if c = CHR ''?'' then map_option (\<lambda>ts. GAny # ts) (parse_glob n cs)
          else if c = CHR 0x5C then
            (case cs of [] \<Rightarrow> None | e # es \<Rightarrow> map_option (\<lambda>ts. GLit e # ts) (parse_glob n es))
          else if c = CHR ''['' then
            (let neg = (cs \<noteq> [] \<and> hd cs = CHR ''^'') in
             case glob_class (length cs) [] (if neg then tl cs else cs) of
               None \<Rightarrow> None
             | Some (rs, rest) \<Rightarrow> map_option (\<lambda>ts. GClass neg rs # ts) (parse_glob n rest))
          else map_option (\<lambda>ts. GLit c # ts) (parse_glob n cs))"

definition in_class :: "bool \<Rightarrow> (char \<times> char) list \<Rightarrow> char \<Rightarrow> bool" where
  "in_class neg rs c = (list_ex (\<lambda>(lo, hi). lo \<le> c \<and> c \<le> hi) rs \<noteq> neg)"

function gmatch :: "gtok list \<Rightarrow> string \<Rightarrow> bool" where
  "gmatch [] s = (s = [])"
| "gmatch (GStar # ts) s =
     (gmatch ts s \<or> (if s = [] then False else hd s \<noteq> CHR ''/'' \<and> gmatch (GStar # ts) (tl s)))"
| "gmatch (GAny # ts) s = (if s = [] then False else hd s \<noteq> CHR ''/'' \<and> gmatch ts (tl s))"
| "gmatch (GLit c # ts) s = (if s = [] then False else hd s = c \<and> gmatch ts (tl s))"
| "gmatch (GClass neg rs # ts) s = (if s = [] then False else in_class neg rs (hd s) \<and> gmatch ts (tl s))"
  by pat_completeness auto
termination by (relation "measures [\<lambda>(ts, s). length s, \<lambda>(ts, s). length ts]") auto

definition path_match :: "string \<Rightarrow> string \<Rightarrow> bool option" where
  "path_match pat s = map_option (\<lambda>ts. gmatch ts s) (parse_glob (length pat) pat)"

end
