(* ===== verification/Authz.thy ===== *)
theory Authz
  imports Glob Complex_Main
begin

text \<open>
  Authorization: the scopes and the access matrix of \<open>pkg/authtoken/authtoken.go\<close>, the scope map over token
  claims of \<open>pkg/authscope/authscope.go\<close>, the API policy of \<open>pkg/server/apipolicy.go\<close> and the hub policy of
  \<open>pkg/hub/policy.go\<close>.
\<close>

section \<open>Scopes and the access matrix\<close>

datatype access = AccessNone | AccessCaretaker | AccessPeer | AccessRegistryPull | AccessRegistryPush | AccessFull

datatype endpoint = EndpointUnknown | EndpointAPI | EndpointRegistryPull | EndpointRegistryPush | EndpointCaretaker
  | EndpointPeerForward

definition ScopeAPI :: string where "ScopeAPI = ''api''"

definition ScopeRegistryPull :: string where "ScopeRegistryPull = ''registry:pull''"

definition ScopeRegistryPush :: string where "ScopeRegistryPush = ''registry:push''"

definition ScopeCaretaker :: string where "ScopeCaretaker = ''caretaker''"

definition ScopePeer :: string where "ScopePeer = ''peer''"

lemmas scope_names = ScopeAPI_def ScopeRegistryPull_def ScopeRegistryPush_def ScopeCaretaker_def ScopePeer_def

text \<open>\<open>strings.Fields\<close>: the maximal runs without white space; \<open>acc\<close> is the current run, reversed.\<close>

fun fields_acc :: "string \<Rightarrow> string \<Rightarrow> string list" where
  "fields_acc acc [] = (if acc = [] then [] else [rev acc])"
| "fields_acc acc (c # cs) =
     (case find (has_prefix (c # cs)) white_space of
        Some w \<Rightarrow> (if acc = [] then [] else [rev acc]) @ fields_acc [] (drop (length w - 1) cs)
      | None \<Rightarrow> fields_acc (c # acc) cs)"

definition Fields :: "string \<Rightarrow> string list" where
  "Fields s = fields_acc [] s"

datatype grant_err = ErrScopeMissing | ErrUnknownScope string

definition Grant :: "string \<Rightarrow> grant_err + access" where
  "Grant scope =
     (let fields = Fields scope in
      if fields = [] then Inl ErrScopeMissing
      else if ScopeAPI \<in> set fields then Inr AccessFull
      else if ScopeRegistryPush \<in> set fields then Inr AccessRegistryPush
      else if ScopeRegistryPull \<in> set fields then Inr AccessRegistryPull
      else if ScopeCaretaker \<in> set fields then Inr AccessCaretaker
      else if ScopePeer \<in> set fields then Inr AccessPeer
      else Inl (ErrUnknownScope scope))"

fun Allows :: "access \<Rightarrow> endpoint \<Rightarrow> bool" where
  "Allows AccessFull e \<longleftrightarrow> e = EndpointAPI \<or> e = EndpointRegistryPull \<or> e = EndpointRegistryPush \<or>
     e = EndpointCaretaker \<or> e = EndpointPeerForward"
| "Allows AccessRegistryPush e \<longleftrightarrow> e = EndpointRegistryPull \<or> e = EndpointRegistryPush"
| "Allows AccessRegistryPull e \<longleftrightarrow> e = EndpointRegistryPull"
| "Allows AccessCaretaker e \<longleftrightarrow> e = EndpointCaretaker"
| "Allows AccessPeer e \<longleftrightarrow> e = EndpointPeerForward"
| "Allows AccessNone e \<longleftrightarrow> False"

definition allEndpoints :: "endpoint list" where
  "allEndpoints = [EndpointAPI, EndpointRegistryPull, EndpointRegistryPush, EndpointCaretaker, EndpointPeerForward]"

definition Contains :: "access \<Rightarrow> access \<Rightarrow> bool" where
  "Contains outer inner = list_all (\<lambda>e. \<not> (Allows inner e \<and> \<not> Allows outer e)) allEndpoints"

section \<open>Claims\<close>

text \<open>
  Decoded JSON or YAML. A number is the value it denotes; numbers of the token and of the map meet as
  float64, so \<open>toFloat\<close> rounds an integer to the nearest float64. Decimal strings are read by
  \<open>strconv.ParseFloat\<close>, a parameter.
\<close>

datatype claim = CNull | CStr string | CBool bool | CFloat rat | CInt int | CArr "claim list" | CObj "(string \<times> claim) list"

fun bit_len :: "nat \<Rightarrow> nat" where
  "bit_len n = (if n = 0 then 0 else Suc (bit_len (n div 2)))"

declare bit_len.simps [simp del]

text \<open>Conversion of an integer to float64: 53 significant bits, ties to even.\<close>

definition round64 :: "int \<Rightarrow> int" where
  "round64 n =
     (let k = bit_len (nat \<bar>n\<bar>) - 53; p = 2 ^ k; q = \<bar>n\<bar> div p; r = \<bar>n\<bar> mod p;
          q' = (if 2 * r > p \<or> 2 * r = p \<and> odd q then q + 1 else q)
      in if k = 0 then n else (if n < 0 then - (q' * p) else q' * p))"

definition toFloat :: "(string \<Rightarrow> rat option) \<Rightarrow> claim \<Rightarrow> rat option" where
  "toFloat pf v =
     (case v of CFloat q \<Rightarrow> Some q | CInt i \<Rightarrow> Some (of_int (round64 i)) | CStr s \<Rightarrow> pf s | _ \<Rightarrow> None)"

definition equalValues :: "(string \<Rightarrow> rat option) \<Rightarrow> claim \<Rightarrow> claim \<Rightarrow> bool" where
  "equalValues pf want got =
     (case want of
        CStr ws \<Rightarrow> (case got of CStr gs \<Rightarrow> ws = gs | _ \<Rightarrow> False)
      | CBool wb \<Rightarrow> (case got of CBool gb \<Rightarrow> wb = gb | _ \<Rightarrow> False)
      | _ \<Rightarrow> (case (toFloat pf want, toFloat pf got) of (Some wq, Some gq) \<Rightarrow> wq = gq | _ \<Rightarrow> False))"

definition containsValue :: "claim \<Rightarrow> string \<Rightarrow> bool" where
  "containsValue v want =
     (case v of
        CArr es \<Rightarrow> list_ex (\<lambda>e. e = CStr want) es
      | CStr t \<Rightarrow> want \<in> set (Fields t)
      | _ \<Rightarrow> False)"

section \<open>The scope map\<close>

record matcher =
  mtEquals :: "claim option"
  mtPrefix :: string
  mtSuffix :: string
  mtGlob :: string
  mtAnyOf :: "string list"
  mtContains :: string

record rule =
  ruName :: string
  ruScope :: string
  ruMatch :: "(string \<times> matcher) list"

type_synonym scope_map = "rule list option"

datatype scope_err = ErrNoRules | ErrNoScope nat | ErrGrant nat grant_err | ErrNoClaims nat | ErrMatcher nat string
  | ErrNoMatch

definition tests_set :: "matcher \<Rightarrow> nat" where
  "tests_set mt =
     (if mtEquals mt \<noteq> None then 1 else 0) + (if mtPrefix mt \<noteq> [] then 1 else 0) + (if mtSuffix mt \<noteq> [] then 1 else 0) +
     (if mtGlob mt \<noteq> [] then 1 else 0) + (if mtAnyOf mt \<noteq> [] then 1 else 0) + (if mtContains mt \<noteq> [] then 1 else 0)"

definition matcher_validate :: "matcher \<Rightarrow> bool" where
  "matcher_validate mt \<longleftrightarrow> tests_set mt = 1 \<and> (mtGlob mt \<noteq> [] \<longrightarrow> path_match (mtGlob mt) [] \<noteq> None)"

definition matcher_matches :: "(string \<Rightarrow> rat option) \<Rightarrow> matcher \<Rightarrow> claim \<Rightarrow> bool" where
  "matcher_matches pf mt v =
     (case mtEquals mt of
        Some want \<Rightarrow> equalValues pf want v
      | None \<Rightarrow>
          if mtPrefix mt \<noteq> [] then (case v of CStr s \<Rightarrow> has_prefix s (mtPrefix mt) | _ \<Rightarrow> False)
          else if mtSuffix mt \<noteq> [] then (case v of CStr s \<Rightarrow> has_suffix s (mtSuffix mt) | _ \<Rightarrow> False)
          else if mtGlob mt \<noteq> [] then (case v of CStr s \<Rightarrow> path_match (mtGlob mt) s = Some True | _ \<Rightarrow> False)
          else if mtAnyOf mt \<noteq> [] then (case v of CStr s \<Rightarrow> s \<in> set (mtAnyOf mt) | _ \<Rightarrow> False)
          else if mtContains mt \<noteq> [] then containsValue v (mtContains mt)
          else False)"

function lookupPath :: "claim \<Rightarrow> string list \<Rightarrow> claim option"
  and lookupKeys :: "(string \<times> claim) list \<Rightarrow> string list \<Rightarrow> nat \<Rightarrow> claim option" where
  "lookupPath cur parts =
     (if parts = [] then Some cur
      else case cur of CObj obj \<Rightarrow> lookupKeys obj parts (length parts) | _ \<Rightarrow> None)"
| "lookupKeys obj parts n =
     (if n = 0 \<or> parts = [] then None
      else case map_of obj (join_with ''.'' (take n parts)) of
        None \<Rightarrow> lookupKeys obj parts (n - 1)
      | Some v \<Rightarrow>
          (case lookupPath v (drop n parts) of
             Some got \<Rightarrow> Some got
           | None \<Rightarrow> lookupKeys obj parts (n - 1)))"
  by pat_completeness auto
termination
  by (relation "measures [\<lambda>x. case x of Inl (_, parts) \<Rightarrow> length parts | Inr (_, parts, _) \<Rightarrow> length parts,
        \<lambda>x. case x of Inl (_, parts) \<Rightarrow> Suc (length parts) | Inr (_, _, n) \<Rightarrow> n]") auto

declare lookupPath.simps [simp del] lookupKeys.simps [simp del]

definition lookup_claim :: "(string \<times> claim) list \<Rightarrow> string \<Rightarrow> claim option" where
  "lookup_claim claims name =
     (case map_of claims name of
        Some v \<Rightarrow> Some v
      | None \<Rightarrow>
          let parts = split_byte CHR ''.'' name in
          if length parts = 1 then None else lookupPath (CObj claims) parts)"

definition rule_matches :: "(string \<Rightarrow> rat option) \<Rightarrow> rule \<Rightarrow> (string \<times> claim) list \<Rightarrow> bool" where
  "rule_matches pf r claims =
     list_all (\<lambda>(name, mt). case lookup_claim claims name of None \<Rightarrow> False | Some v \<Rightarrow> matcher_matches pf mt v) (ruMatch r)"

text \<open>A rule is reported by its name or, without one, by its position.\<close>

datatype rule_label = Named string | Position nat

definition ruleLabel :: "rule \<Rightarrow> nat \<Rightarrow> rule_label" where
  "ruleLabel r i = (if ruName r \<noteq> [] then Named (ruName r) else Position (i + 1))"

fun match_from :: "(string \<Rightarrow> rat option) \<Rightarrow> nat \<Rightarrow> rule list \<Rightarrow> (string \<times> claim) list \<Rightarrow> scope_err + string \<times> rule_label" where
  "match_from pf i [] claims = Inl ErrNoMatch"
| "match_from pf i (r # rs) claims =
     (if rule_matches pf r claims then Inr (ruScope r, ruleLabel r i) else match_from pf (i + 1) rs claims)"

definition scope_match :: "(string \<Rightarrow> rat option) \<Rightarrow> scope_map \<Rightarrow> (string \<times> claim) list \<Rightarrow> scope_err + string \<times> rule_label" where
  "scope_match pf m claims = (case m of None \<Rightarrow> Inl ErrNoMatch | Some rules \<Rightarrow> match_from pf 0 rules claims)"

fun validate_from :: "nat \<Rightarrow> rule list \<Rightarrow> scope_err option" where
  "validate_from i [] = None"
| "validate_from i (r # rs) =
     (if trim_space (ruScope r) = [] then Some (ErrNoScope i)
      else case Grant (ruScope r) of
        Inl e \<Rightarrow> Some (ErrGrant i e)
      | Inr _ \<Rightarrow>
          if ruMatch r = [] then Some (ErrNoClaims i)
          else case find (\<lambda>(_, mt). \<not> matcher_validate mt) (ruMatch r) of
            Some (claim', _) \<Rightarrow> Some (ErrMatcher i claim')
          | None \<Rightarrow> validate_from (i + 1) rs)"

definition scope_validate :: "scope_map \<Rightarrow> scope_err option" where
  "scope_validate m =
     (case m of None \<Rightarrow> Some ErrNoRules | Some rules \<Rightarrow> if rules = [] then Some ErrNoRules else validate_from 0 rules)"

definition DefaultScopeMap :: "string \<Rightarrow> scope_err + scope_map" where
  "DefaultScopeMap scope =
     (let m = Some [\<lparr>ruName = ''CORNUS_JWT_DEFAULT_SCOPE'', ruScope = scope,
                     ruMatch = [(''sub'', \<lparr>mtEquals = None, mtPrefix = [], mtSuffix = [], mtGlob = ''*'',
                                           mtAnyOf = [], mtContains = []\<rparr>)]\<rparr>]
      in case scope_validate m of Some e \<Rightarrow> Inl e | None \<Rightarrow> Inr m)"

definition scope_append :: "scope_map \<Rightarrow> scope_map \<Rightarrow> scope_map" where
  "scope_append m other =
     (case m of None \<Rightarrow> other | Some rs \<Rightarrow> (case other of None \<Rightarrow> m | Some os \<Rightarrow> Some (rs @ os)))"

section \<open>The API and hub policies\<close>

type_synonym matrix = "string \<Rightarrow> string \<Rightarrow> bool"

text \<open>A nil map is \<open>None\<close>; a missing key reads as an empty inner map.\<close>

definition toMatrix :: "(string \<times> string list) list \<Rightarrow> matrix option" where
  "toMatrix rules =
     (if rules = [] then None
      else Some (\<lambda>k v. case map_of rules k of None \<Rightarrow> False | Some vs \<Rightarrow> v \<in> set vs))"

definition newAPIPolicy :: "(string \<times> string list) list \<Rightarrow> (string \<times> string list) list option" where
  "newAPIPolicy rules = (if rules = [] then None else Some rules)"

definition actions_of :: "(string \<times> string list) list \<Rightarrow> string \<Rightarrow> string list" where
  "actions_of rules i = (case map_of rules i of None \<Rightarrow> [] | Some as \<Rightarrow> as)"

definition Allow :: "(string \<times> string list) list option \<Rightarrow> string \<Rightarrow> string \<Rightarrow> bool" where
  "Allow p identity action =
     (case p of
        None \<Rightarrow> True
      | Some rules \<Rightarrow>
          if identity = [] then False
          else action \<in> set (actions_of rules identity) \<or> ''*'' \<in> set (actions_of rules identity))"

definition AllowExec :: "(string \<times> string list) list option \<Rightarrow> string \<Rightarrow> bool" where
  "AllowExec p identity \<longleftrightarrow> Allow p identity ''exec'' \<or> Allow p identity ''deploy''"

definition AllowTunnel :: "(string \<times> string list) list option \<Rightarrow> string \<Rightarrow> bool" where
  "AllowTunnel p identity \<longleftrightarrow> Allow p identity ''tunnel'' \<or> Allow p identity ''deploy''"

definition MentionsAction :: "(string \<times> string list) list option \<Rightarrow> string \<Rightarrow> bool" where
  "MentionsAction p action =
     (case p of None \<Rightarrow> False | Some rules \<Rightarrow> list_ex (\<lambda>(_, as). action \<in> set as) rules)"

record hub_policy =
  reach :: "matrix option"
  register :: "matrix option"

definition NewPolicy :: "(string \<times> string list) list \<Rightarrow> (string \<times> string list) list \<Rightarrow> hub_policy option" where
  "NewPolicy rch reg =
     (let r = toMatrix rch; w = toMatrix reg
      in if Option.is_none r \<and> Option.is_none w then None else Some \<lparr>reach = r, register = w\<rparr>)"

definition ReachEnforced :: "hub_policy option \<Rightarrow> bool" where
  "ReachEnforced p = (case p of None \<Rightarrow> False | Some q \<Rightarrow> reach q \<noteq> None)"

definition HubAllow :: "hub_policy option \<Rightarrow> string \<Rightarrow> string \<Rightarrow> bool" where
  "HubAllow p caller callee =
     (case p of None \<Rightarrow> True | Some q \<Rightarrow> (case reach q of None \<Rightarrow> True | Some r \<Rightarrow> r caller callee))"

definition AllowRegister :: "hub_policy option \<Rightarrow> string \<Rightarrow> string \<Rightarrow> bool" where
  "AllowRegister p identity service =
     (case p of None \<Rightarrow> True | Some q \<Rightarrow> (case register q of None \<Rightarrow> True | Some r \<Rightarrow> r identity service))"

section \<open>Properties of the access matrix\<close>

text \<open>Granting is fail-closed and exact: a scope is refused exactly when it names no known scope; otherwise
  the access is the one a single named scope confers, it is never the empty access, it reaches the API
  exactly when the API scope is named and registry writes exactly when the API or the push scope is named,
  and it never reaches an unknown endpoint.\<close>

theorem grant_is_exact:
  "case Grant scope of
     Inl _ \<Rightarrow> set (Fields scope) \<inter> {ScopeAPI, ScopeRegistryPush, ScopeRegistryPull, ScopeCaretaker, ScopePeer} = {}
   | Inr a \<Rightarrow> a \<noteq> AccessNone \<and>
       (\<exists>s \<in> set (Fields scope). Grant s = Inr a) \<and>
       (Allows a EndpointAPI \<longleftrightarrow> ScopeAPI \<in> set (Fields scope)) \<and>
       (Allows a EndpointRegistryPush \<longleftrightarrow> ScopeAPI \<in> set (Fields scope) \<or> ScopeRegistryPush \<in> set (Fields scope)) \<and>
       \<not> Allows a EndpointUnknown"
proof -
  have single: "Grant ScopeAPI = Inr AccessFull" "Grant ScopeRegistryPush = Inr AccessRegistryPush"
    "Grant ScopeRegistryPull = Inr AccessRegistryPull" "Grant ScopeCaretaker = Inr AccessCaretaker"
    "Grant ScopePeer = Inr AccessPeer"
    by code_simp+
  show ?thesis
    by (cases "Fields scope = []"; cases "ScopeAPI \<in> set (Fields scope)"; cases "ScopeRegistryPush \<in> set (Fields scope)";
        cases "ScopeRegistryPull \<in> set (Fields scope)"; cases "ScopeCaretaker \<in> set (Fields scope)";
        cases "ScopePeer \<in> set (Fields scope)")
      (unfold Grant_def [of scope] Let_def, use single in \<open>auto\<close>)
qed

text \<open>The containment test used to bound a downscope request is exact: one access contains another exactly
  when it reaches every endpoint the other reaches, for all endpoints and not only the listed ones; it is
  reflexive and transitive, and only full access contains the API.\<close>

lemma contains_is_exact:
  "(Contains outer inner \<longleftrightarrow> {e. Allows inner e} \<subseteq> {e. Allows outer e}) \<and> Contains AccessFull inner \<and>
   (Contains outer AccessFull \<longleftrightarrow> outer = AccessFull)"
proof -
  have all: "e \<in> set allEndpoints \<or> e = EndpointUnknown" for e by (cases e) (simp_all add: allEndpoints_def)
  have unk: "\<not> Allows a EndpointUnknown" for a by (cases a) simp_all
  have eq: "Contains o' i' \<longleftrightarrow> {e. Allows i' e} \<subseteq> {e. Allows o' e}" for o' i'
    using all unk unfolding Contains_def list_all_iff by blast
  have "Contains AccessFull inner" by (cases inner) (simp_all add: Contains_def allEndpoints_def)
  moreover have "Contains outer AccessFull \<longleftrightarrow> outer = AccessFull"
    by (cases outer) (simp_all add: Contains_def allEndpoints_def)
  ultimately show ?thesis using eq by simp
qed

section \<open>Properties of claim lookup\<close>

text \<open>The reference: a dotted path resolves when it splits into keys of nested objects.\<close>

inductive resolves :: "claim \<Rightarrow> string list \<Rightarrow> claim \<Rightarrow> bool" where
  here: "resolves v [] v"
| step: "0 < n \<Longrightarrow> n \<le> length parts \<Longrightarrow> map_of obj (join_with ''.'' (take n parts)) = Some v \<Longrightarrow>
    resolves v (drop n parts) w \<Longrightarrow> resolves (CObj obj) parts w"

inductive_cases resolves_objE: "resolves (CObj obj) parts w"

lemma lookup_sound:
  "lookupPath cur parts = Some w \<Longrightarrow> resolves cur parts w"
  "lookupKeys obj parts n = Some w \<Longrightarrow> n \<le> length parts \<Longrightarrow> resolves (CObj obj) parts w"
proof (induction cur parts and obj parts n rule: lookupPath_lookupKeys.induct)
  case (1 cur parts)
  then show ?case by (auto simp: lookupPath.simps [of cur parts] intro: resolves.here split: if_splits claim.splits)
next
  case (2 obj parts n)
  show ?case
  proof (cases "map_of obj (join_with ''.'' (take n parts))")
    case None
    then show ?thesis using 2 by (simp add: lookupKeys.simps [of obj parts n] split: if_splits)
  next
    case (Some v)
    show ?thesis
    proof (cases "lookupPath v (drop n parts)")
      case None
      then show ?thesis using 2 Some by (simp add: lookupKeys.simps [of obj parts n] split: if_splits)
    next
      case S2: (Some got)
      then have g: "got = w" "0 < n" "parts \<noteq> []"
        using "2.prems" Some by (auto simp: lookupKeys.simps [of obj parts n] split: if_splits)
      have "resolves v (drop n parts) w" using "2.IH"(2) [OF _ Some S2 [unfolded g(1)]] g by simp
      with g Some "2.prems"(2) show ?thesis by (blast intro: resolves.step)
    qed
  qed
qed

lemma lookupKeys_complete:
  assumes "0 < n" "n \<le> m" "parts \<noteq> []" "map_of obj (join_with ''.'' (take n parts)) = Some v"
    "\<exists>w. lookupPath v (drop n parts) = Some w"
  shows "\<exists>w. lookupKeys obj parts m = Some w"
  using assms(2)
proof (induction m)
  case (Suc m)
  show ?case
  proof (cases "n = Suc m")
    case True
    then show ?thesis using assms by (auto simp: lookupKeys.simps [of obj parts "Suc m"])
  next
    case False
    then have "\<exists>w. lookupKeys obj parts m = Some w" using Suc by simp
    then show ?thesis using assms(3)
      by (auto simp: lookupKeys.simps [of obj parts "Suc m"] split: option.splits)
  qed
qed (use assms(1) in simp)

lemma lookup_complete: "resolves cur parts w \<Longrightarrow> \<exists>w'. lookupPath cur parts = Some w'"
proof (induction rule: resolves.induct)
  case (here v)
  then show ?case by (simp add: lookupPath.simps)
next
  case (step n parts obj v w)
  have ne: "parts \<noteq> []" using step.hyps(1,2) by auto
  from lookupKeys_complete [OF step.hyps(1,2) ne step.hyps(3) step.IH]
  show ?case using ne by (simp add: lookupPath.simps [of "CObj obj" parts])
qed

text \<open>The backtracking walk over a dotted claim path is sound and complete: it returns a value exactly when
  some way of grouping the segments into keys of nested objects leads to one, and what it returns is such
  a value; a claim whose literal name is present is never reinterpreted as a path.\<close>

theorem claim_lookup_complete:
  "(lookupPath cur parts = None \<longleftrightarrow> (\<nexists>w. resolves cur parts w)) \<and>
   (case lookupPath cur parts of None \<Rightarrow> True | Some w \<Rightarrow> resolves cur parts w) \<and>
   (case map_of claims name of None \<Rightarrow> True | Some v \<Rightarrow> lookup_claim claims name = Some v)"
  using lookup_sound(1) [of cur parts] lookup_complete [of cur parts]
  by (auto simp: lookup_claim_def split: option.split)

section \<open>Properties of the scope map\<close>

lemma match_from_spec:
  "match_from pf i rs claims = Inr (sc, lb) \<Longrightarrow>
   \<exists>k < length rs. rule_matches pf (rs ! k) claims \<and> sc = ruScope (rs ! k) \<and> lb = ruleLabel (rs ! k) (i + k) \<and>
     (\<forall>j < k. \<not> rule_matches pf (rs ! j) claims)"
proof (induction rs arbitrary: i)
  case (Cons r rs)
  show ?case
  proof (cases "rule_matches pf r claims")
    case False
    then obtain k where k: "k < length rs" "rule_matches pf (rs ! k) claims" "sc = ruScope (rs ! k)"
      "lb = ruleLabel (rs ! k) (Suc i + k)" "\<forall>j < k. \<not> rule_matches pf (rs ! j) claims"
      using Cons.IH [of "i + 1"] Cons.prems by auto
    have "\<forall>j < Suc k. \<not> rule_matches pf ((r # rs) ! j) claims"
      using k(5) False by (auto simp: less_Suc_eq_0_disj)
    with k show ?thesis by (intro exI [of _ "Suc k"]) simp
  qed (use Cons.prems in \<open>auto intro!: exI [of _ 0]\<close>)
qed simp

lemma match_from_none:
  "match_from pf i rs claims = Inl e \<Longrightarrow> e = ErrNoMatch \<and> (\<forall>r \<in> set rs. \<not> rule_matches pf r claims)"
  by (induction rs arbitrary: i) (auto split: if_splits)

lemma match_from_append:
  "match_from pf i (rs @ os) claims =
     (case match_from pf i rs claims of Inr x \<Rightarrow> Inr x | Inl _ \<Rightarrow> match_from pf (i + length rs) os claims)"
  by (induction rs arbitrary: i) (simp_all split: sum.split)

lemma validate_from_each:
  "validate_from i rs = None \<Longrightarrow> r \<in> set rs \<Longrightarrow>
   (\<exists>a. Grant (ruScope r) = Inr a) \<and> ruMatch r \<noteq> [] \<and> (\<forall>(c, mt) \<in> set (ruMatch r). matcher_validate mt)"
  by (induction rs arbitrary: i) (auto simp: find_None_iff split: if_splits sum.splits option.splits)

text \<open>C19. A validated scope map grants only through a rule: when it grants, the scope is the one of the first
  rule whose every claim test passes, that rule tests at least one claim, every tested claim is present in
  the token, and the scope is one the access matrix knows. When it declines, no rule matches.\<close>

theorem scope_map_fail_closed:
  assumes "scope_validate (Some rules) = None"
  shows "case scope_match pf (Some rules) claims of
      Inl e \<Rightarrow> e = ErrNoMatch \<and> (\<forall>r \<in> set rules. \<not> rule_matches pf r claims)
    | Inr (sc, _) \<Rightarrow> \<exists>k < length rules. sc = ruScope (rules ! k) \<and> (\<exists>a. Grant sc = Inr a \<and> a \<noteq> AccessNone) \<and>
        ruMatch (rules ! k) \<noteq> [] \<and> (\<forall>j < k. \<not> rule_matches pf (rules ! j) claims) \<and>
        (\<forall>(name, mt) \<in> set (ruMatch (rules ! k)). \<exists>v. lookup_claim claims name = Some v \<and> matcher_matches pf mt v)"
proof (cases "scope_match pf (Some rules) claims")
  case (Inl e)
  then show ?thesis using match_from_none [of pf 0 rules claims e] by (simp add: scope_match_def)
next
  case (Inr x)
  obtain sc lb where x: "x = (sc, lb)" by (cases x)
  have "match_from pf 0 rules claims = Inr (sc, lb)" using Inr x by (simp add: scope_match_def)
  from match_from_spec [OF this] obtain k where k: "k < length rules" "rule_matches pf (rules ! k) claims"
    "sc = ruScope (rules ! k)" "\<forall>j < k. \<not> rule_matches pf (rules ! j) claims" by blast
  have v: "validate_from 0 rules = None" using assms by (simp add: scope_validate_def split: if_splits)
  note e = validate_from_each [OF v nth_mem [OF k(1)]]
  have nn: "Grant s = Inr a \<Longrightarrow> a \<noteq> AccessNone" for s a
    by (auto simp: Grant_def Let_def split: if_splits)
  have "\<forall>(name, mt) \<in> set (ruMatch (rules ! k)). \<exists>v. lookup_claim claims name = Some v \<and> matcher_matches pf mt v"
    using k(2) by (auto simp: rule_matches_def list_all_iff split: option.splits)
  with Inr x k e nn show ?thesis by auto
qed

definition ci_rules :: "rule list" where
  "ci_rules = [\<lparr>ruName = ''ci'', ruScope = ''registry:pull'',
     ruMatch = [(''kubernetes.io.namespace'', \<lparr>mtEquals = Some (CStr ''ci''), mtPrefix = [], mtSuffix = [], mtGlob = [],
       mtAnyOf = [], mtContains = []\<rparr>)]\<rparr>]"

theorem scope_map_fail_closed_witness:
  "\<exists>k < length ci_rules. ''registry:pull'' = ruScope (ci_rules ! k) \<and> (\<exists>a. Grant ''registry:pull'' = Inr a \<and> a \<noteq> AccessNone)"
proof -
  have v: "scope_validate (Some ci_rules) = None" by code_simp
  have m: "scope_match (\<lambda>_. None) (Some ci_rules) [(''kubernetes.io'', CObj [(''namespace'', CStr ''ci'')])] =
      Inr (''registry:pull'', Named ''ci'')"
    by code_simp
  show ?thesis using scope_map_fail_closed [OF v, of "\<lambda>_. None" "[(''kubernetes.io'', CObj [(''namespace'', CStr ''ci'')])]"]
    unfolding m by auto
qed

text \<open>A default map appended behind an explicit one never overrides it: what the explicit map grants stays
  granted by the same rule, and only tokens it declines reach the default.\<close>

lemma append_keeps_specific_rules:
  "scope_match pf (scope_append (Some rs) other) claims =
     (case scope_match pf (Some rs) claims of
        Inr x \<Rightarrow> Inr x
      | Inl _ \<Rightarrow> (case other of None \<Rightarrow> Inl ErrNoMatch | Some os \<Rightarrow> match_from pf (length rs) os claims))"
  using match_from_none [of pf 0 rs claims]
  by (cases other) (auto simp: scope_append_def scope_match_def match_from_append split: sum.split)

lemma gmatch_star: "gmatch [GStar] s \<longleftrightarrow> CHR ''/'' \<notin> set s"
proof (induction s)
  case (Cons c s)
  then show ?case by (cases "c = CHR ''/''") simp_all
qed simp

text \<open>The default scope map does not accept every token: its only test is the glob \<open>*\<close> on \<open>sub\<close>, and a star does
  not match a slash. A token whose subject contains a slash is declined, for every valid scope; a subject
  without one is granted the scope.\<close>

theorem default_map_declines_slash:
  assumes "DefaultScopeMap scope = Inr m"
  shows "scope_match pf m [(''sub'', CStr s)] =
    (if CHR ''/'' \<in> set s then Inl ErrNoMatch else Inr (scope, Named ''CORNUS_JWT_DEFAULT_SCOPE''))"
proof -
  have "parse_glob 1 ''*'' = Some [GStar]" by code_simp
  then have "path_match ''*'' s = Some (CHR ''/'' \<notin> set s)" by (simp add: path_match_def gmatch_star del: gmatch.simps)
  moreover have "m = Some [\<lparr>ruName = ''CORNUS_JWT_DEFAULT_SCOPE'', ruScope = scope,
       ruMatch = [(''sub'', \<lparr>mtEquals = None, mtPrefix = [], mtSuffix = [], mtGlob = ''*'', mtAnyOf = [], mtContains = []\<rparr>)]\<rparr>]"
    using assms by (auto simp: DefaultScopeMap_def Let_def split: option.splits)
  ultimately show ?thesis
    by (auto simp: scope_match_def rule_matches_def lookup_claim_def matcher_matches_def ruleLabel_def)
qed

theorem default_map_declines_slash_witness:
  "\<exists>m. DefaultScopeMap ''api'' = Inr m \<and> scope_match (\<lambda>_. None) m [(''sub'', CStr ''repo:org/name'')] = Inl ErrNoMatch"
proof -
  have "\<not> isl (DefaultScopeMap ''api'')" by code_simp
  then obtain m where m: "DefaultScopeMap ''api'' = Inr m" by (cases "DefaultScopeMap ''api''") auto
  show ?thesis using default_map_declines_slash [OF m, of "\<lambda>_. None" "''repo:org/name''"] m by simp
qed

section \<open>Properties of the policies\<close>

text \<open>A configured API policy is fail-closed: without an identity, or with one that no rule names, every
  action is denied, execution and tunnels included; deployment always implies both; and an unconfigured
  policy, that is one built from no rules, allows everything.\<close>

theorem api_policy_fail_closed:
  "(rules = [] \<longrightarrow> Allow (newAPIPolicy rules) i a) \<and>
   (rules \<noteq> [] \<and> (i = [] \<or> i \<notin> fst ` set rules) \<longrightarrow>
      \<not> Allow (newAPIPolicy rules) i a \<and> \<not> AllowExec (newAPIPolicy rules) i \<and> \<not> AllowTunnel (newAPIPolicy rules) i) \<and>
   (Allow p i ''deploy'' \<longrightarrow> AllowExec p i \<and> AllowTunnel p i)"
proof -
  have "actions_of rules i = []" if "i \<notin> fst ` set rules"
    using that by (simp add: actions_of_def map_of_eq_None_iff [symmetric])
  then show ?thesis by (auto simp: Allow_def newAPIPolicy_def AllowExec_def AllowTunnel_def)
qed

theorem api_policy_fail_closed_witness:
  "\<not> Allow (newAPIPolicy [(''ci'', [''deploy''])]) [] ''deploy'' \<and> AllowExec (Some [(''ci'', [''deploy''])]) ''ci''"
proof -
  have "Allow (Some [(''ci'', [''deploy''])]) ''ci'' ''deploy''" by code_simp
  then show ?thesis
    using api_policy_fail_closed [of "[(''ci'', [''deploy''])]" "[]" "''deploy''" "Some [(''ci'', [''deploy''])]"]
      api_policy_fail_closed [of "[(''ci'', [''deploy''])]" "''ci''" "''deploy''" "Some [(''ci'', [''deploy''])]"] by blast
qed

end
