(* ===== verification/Interpolate.thy ===== *)
theory Interpolate
  imports GoStd
begin

text \<open>
  Variable interpolation and env files of Compose projects (\<open>pkg/compose/interpolate.go\<close>). The process
  environment and the files are arguments; YAML decoding is done before.
\<close>

section \<open>Expansion\<close>

text \<open>A mapping gives the value of a set variable; an unset one reads as the empty string.\<close>

type_synonym mapping_fn = "string \<Rightarrow> string option"

definition var_val :: "mapping_fn \<Rightarrow> string \<Rightarrow> string" where
  "var_val m name = (case m name of Some v \<Rightarrow> v | None \<Rightarrow> [])"

datatype interp_err = Unterminated | InvalidReference string | InvalidOperator string
  | RequiredUnset string string | RequiredEmpty string string

definition isNameChar :: "char \<Rightarrow> bool" where
  "isNameChar c \<longleftrightarrow>
     (let n = of_char c :: nat in
      c = CHR ''_'' \<or> (97 \<le> n \<and> n \<le> 122) \<or> (65 \<le> n \<and> n \<le> 90) \<or> (48 \<le> n \<and> n \<le> 57))"

text \<open>The index of the closing brace at depth one.\<close>

fun brace_end :: "nat \<Rightarrow> string \<Rightarrow> nat option" where
  "brace_end depth [] = None"
| "brace_end depth (c # cs) =
     (if c = CHR ''{'' then map_option Suc (brace_end (depth + 1) cs)
      else if c = CHR ''}'' then (if depth = 1 then Some 0 else map_option Suc (brace_end (depth - 1) cs))
      else map_option Suc (brace_end depth cs))"

datatype interp_op = OpColonDash | OpDash | OpColonPlus | OpPlus | OpColonQuestion | OpQuestion

definition split_op :: "string \<Rightarrow> (interp_op \<times> string) option" where
  "split_op rest =
     (if has_prefix rest '':-'' then Some (OpColonDash, drop 2 rest)
      else if has_prefix rest '':?'' then Some (OpColonQuestion, drop 2 rest)
      else if has_prefix rest '':+'' then Some (OpColonPlus, drop 2 rest)
      else if has_prefix rest ''-'' then Some (OpDash, drop 1 rest)
      else if has_prefix rest ''?'' then Some (OpQuestion, drop 1 rest)
      else if has_prefix rest ''+'' then Some (OpPlus, drop 1 rest)
      else None)"

definition apply_op :: "interp_op \<Rightarrow> string \<Rightarrow> string option \<Rightarrow> string \<Rightarrow> interp_err + string" where
  "apply_op p name v word =
     (let val = (case v of Some x \<Rightarrow> x | None \<Rightarrow> []); isset = (v \<noteq> None); empty = (\<not> isset \<or> val = []) in
      case p of
        OpColonDash \<Rightarrow> Inr (if empty then word else val)
      | OpDash \<Rightarrow> Inr (if \<not> isset then word else val)
      | OpColonPlus \<Rightarrow> Inr (if \<not> empty then word else [])
      | OpPlus \<Rightarrow> Inr (if isset then word else [])
      | OpColonQuestion \<Rightarrow> if empty then Inl (RequiredEmpty name word) else Inr val
      | OpQuestion \<Rightarrow> if \<not> isset then Inl (RequiredUnset name word) else Inr val)"

lemma brace_end_length: "brace_end d s = Some j \<Longrightarrow> j < length s"
  by (induction d s arbitrary: j rule: brace_end.induct) (auto split: if_splits)

lemma split_op_length: "split_op rest = Some (p, w) \<Longrightarrow> length w < length rest"
  by (auto simp: split_op_def has_prefix_iff split: if_splits)

function (sequential) expandString :: "mapping_fn \<Rightarrow> string \<Rightarrow> interp_err + string"
  and expandBraced :: "mapping_fn \<Rightarrow> string \<Rightarrow> interp_err + string" where
  "expandString m [] = Inr []"
| "expandString m (c # cs) =
     (if c \<noteq> CHR ''$'' then map_sum id (\<lambda>r. c # r) (expandString m cs)
      else if cs \<noteq> [] \<and> hd cs = CHR ''$'' then map_sum id (\<lambda>r. CHR ''$'' # r) (expandString m (tl cs))
      else if cs \<noteq> [] \<and> hd cs = CHR ''{'' then
        (case brace_end 1 (tl cs) of
           None \<Rightarrow> Inl Unterminated
         | Some j \<Rightarrow>
             (case expandBraced m (take j (tl cs)) of
                Inl e \<Rightarrow> Inl e
              | Inr val \<Rightarrow> map_sum id (\<lambda>r. val @ r) (expandString m (drop (j + 1) (tl cs)))))
      else
        (let name = takeWhile isNameChar cs in
         if name = [] then map_sum id (\<lambda>r. CHR ''$'' # r) (expandString m cs)
         else map_sum id (\<lambda>r. var_val m name @ r) (expandString m (dropWhile isNameChar cs))))"
| "expandBraced m expr =
     (let name = takeWhile isNameChar expr; rest = dropWhile isNameChar expr in
      if name = [] then Inl (InvalidReference expr)
      else if rest = [] then Inr (var_val m name)
      else case split_op rest of
        None \<Rightarrow> Inl (InvalidOperator expr)
      | Some (p, word) \<Rightarrow>
          (case expandString m word of
             Inl e \<Rightarrow> Inl e
           | Inr w \<Rightarrow> apply_op p name (m name) w))"
  by pat_completeness auto
termination
proof (relation "measure (\<lambda>x. case x of Inl (_, s) \<Rightarrow> 2 * length s | Inr (_, e) \<Rightarrow> 2 * length e + 1)", goal_cases)
qed (auto simp: le_imp_less_Suc [OF mult_le_mono2 [OF length_dropWhile_le]] less_Suc_eq_le length_dropWhile_le
    dest!: split_op_length intro: less_imp_le [OF less_le_trans [OF _ length_dropWhile_le]] le_SucI
      mult_le_mono2 [OF length_dropWhile_le])

declare expandString.simps [simp del] expandBraced.simps [simp del]

section \<open>Structures\<close>

datatype yaml = YStr string | YList "yaml list" | YMap "(string \<times> yaml) list" | YOther nat

fun interpolate :: "mapping_fn \<Rightarrow> yaml \<Rightarrow> interp_err + yaml"
  and interpolate_list :: "mapping_fn \<Rightarrow> yaml list \<Rightarrow> interp_err + yaml list"
  and interpolate_map :: "mapping_fn \<Rightarrow> (string \<times> yaml) list \<Rightarrow> interp_err + (string \<times> yaml) list" where
  "interpolate m (YStr s) = map_sum id YStr (expandString m s)"
| "interpolate m (YList vs) = map_sum id YList (interpolate_list m vs)"
| "interpolate m (YMap kvs) = map_sum id YMap (interpolate_map m kvs)"
| "interpolate m (YOther n) = Inr (YOther n)"
| "interpolate_list m [] = Inr []"
| "interpolate_list m (v # vs) =
     (case interpolate m v of Inl e \<Rightarrow> Inl e | Inr v' \<Rightarrow> map_sum id (\<lambda>r. v' # r) (interpolate_list m vs))"
| "interpolate_map m [] = Inr []"
| "interpolate_map m ((k, v) # kvs) =
     (case interpolate m v of Inl e \<Rightarrow> Inl e | Inr v' \<Rightarrow> map_sum id (\<lambda>r. (k, v') # r) (interpolate_map m kvs))"

section \<open>Env files\<close>

definition single_escape :: "char \<Rightarrow> char option" where
  "single_escape c =
     map_of [(CHR ''a'', CHR 0x07), (CHR ''b'', CHR 0x08), (CHR ''f'', CHR 0x0C), (CHR ''n'', CHR 0x0A),
             (CHR ''r'', CHR 0x0D), (CHR ''t'', CHR 0x09), (CHR ''v'', CHR 0x0B), (CHR 0x5C, CHR 0x5C),
             (CHR 0x22, CHR 0x22), (CHR ''$'', CHR ''$'')] c"

definition is_octal :: "char \<Rightarrow> bool" where
  "is_octal c \<longleftrightarrow> (let n = of_char c :: nat in 48 \<le> n \<and> n \<le> 55)"

definition octal_val :: "string \<Rightarrow> nat" where
  "octal_val ds = foldl (\<lambda>v c. v * 8 + (of_char c - 48)) 0 ds"

function (sequential) expandEnvEscapes :: "string \<Rightarrow> string" where
  "expandEnvEscapes [] = []"
| "expandEnvEscapes [c] = [c]"
| "expandEnvEscapes (c # d # cs) =
     (if c = CHR 0x5C then
        (case single_escape d of
           Some e \<Rightarrow> e # expandEnvEscapes cs
         | None \<Rightarrow>
             if d = CHR ''0'' then
               (let ds = takeWhile is_octal (take 3 cs)
                in char_of (octal_val ds) # expandEnvEscapes (drop (length ds) cs))
             else c # d # expandEnvEscapes cs)
      else c # expandEnvEscapes (d # cs))"
  by pat_completeness auto
termination by (relation "measure length") auto

definition unquoteEnv :: "string \<Rightarrow> string" where
  "unquoteEnv v =
     (if length v \<ge> 2 \<and> hd v = CHR 0x22 \<and> last v = CHR 0x22 then expandEnvEscapes (butlast (tl v))
      else if length v \<ge> 2 \<and> hd v = CHR 0x27 \<and> last v = CHR 0x27 then butlast (tl v)
      else v)"

definition parse_env_line :: "string \<Rightarrow> (string \<times> string) option" where
  "parse_env_line raw =
     (let line = trim_space raw in
      if line = [] \<or> has_prefix line ''#'' then None
      else case cut_byte CHR ''='' (trim_prefix line ''export '') of
        None \<Rightarrow> None
      | Some (key, val) \<Rightarrow>
          if trim_space key = [] then None else Some (trim_space key, unquoteEnv (trim_space val)))"

text \<open>The lines of a \<open>bufio.Scanner\<close> with a buffer of one mebibyte; a line that fills it is an error.\<close>

definition drop_cr :: "string \<Rightarrow> string" where
  "drop_cr l = (if l \<noteq> [] \<and> last l = CHR 0x0D then butlast l else l)"

definition scan_lines :: "string \<Rightarrow> string list" where
  "scan_lines b = (let ls = split_byte CHR 0x0A b in if last ls = [] then butlast ls else ls)"

definition parseEnvBytes :: "string \<Rightarrow> (string \<times> string) list option" where
  "parseEnvBytes b =
     (if list_ex (\<lambda>l. length l \<ge> 1048576) (scan_lines b) then None
      else Some (rev (List.map_filter (\<lambda>l. parse_env_line (drop_cr l)) (scan_lines b))))"

datatype env_err = EnvTooLong string | EnvRead string

datatype file_read = FileBytes string | FileMissing | FileFailed

text \<open>Later bindings come first, so that looking up a name finds the last one.\<close>

fun read_env_files :: "(string \<Rightarrow> file_read) \<Rightarrow> string list \<Rightarrow> (string \<times> string) list \<Rightarrow> env_err + (string \<times> string) list" where
  "read_env_files rd [] overlay = Inr overlay"
| "read_env_files rd (f # fs) overlay =
     (case rd f of
        FileBytes b \<Rightarrow>
          (case parseEnvBytes b of
             None \<Rightarrow> Inl (EnvTooLong f)
           | Some kv \<Rightarrow> read_env_files rd fs (kv @ overlay))
      | _ \<Rightarrow> Inl (EnvRead f))"

definition envMapping :: "(string \<Rightarrow> string option) \<Rightarrow> (string \<Rightarrow> file_read) \<Rightarrow> string \<Rightarrow> string list \<Rightarrow> env_err + mapping_fn" where
  "envMapping osenv rd dotEnv envFiles =
     (let overlay =
        (if envFiles = [] then
           (case rd dotEnv of
              FileBytes b \<Rightarrow> (case parseEnvBytes b of None \<Rightarrow> Inl (EnvTooLong dotEnv) | Some kv \<Rightarrow> Inr kv)
            | FileMissing \<Rightarrow> Inr []
            | FileFailed \<Rightarrow> Inl (EnvRead dotEnv))
         else read_env_files rd envFiles [])
      in map_sum id (\<lambda>ov name. case osenv name of Some v \<Rightarrow> Some v | None \<Rightarrow> map_of ov name) overlay)"

section \<open>Properties of expansion\<close>

definition dollar_escape :: "string \<Rightarrow> string" where
  "dollar_escape s = concat (map (\<lambda>c. if c = CHR ''$'' then ''$$'' else [c]) s)"

text \<open>Escaping every dollar sign as two makes any text literal: it expands to itself under every mapping,
  whatever braces and operators it contains.\<close>

lemma dollar_escape_roundtrip: "expandString m (dollar_escape s) = Inr s"
  by (induction s) (simp_all add: dollar_escape_def expandString.simps)

lemma brace_end_plain:
  "CHR ''{'' \<notin> set s \<Longrightarrow> CHR ''}'' \<notin> set s \<Longrightarrow> brace_end 1 (s @ CHR ''}'' # rest) = Some (length s)"
  by (induction s) auto

lemma expand_plain: "CHR ''$'' \<notin> set s \<Longrightarrow> expandString m s = Inr s"
proof (induction s)
  case (Cons a s)
  then have "a \<noteq> CHR ''$''" by auto
  with Cons show ?case by (simp add: expandString.simps(2) [of m a s])
qed (simp add: expandString.simps)

lemma name_char_not: "isNameChar c \<Longrightarrow> c \<noteq> CHR ''{'' \<and> c \<noteq> CHR ''}'' \<and> c \<noteq> CHR ''$''"
  by (auto simp: isNameChar_def)

fun op_text :: "interp_op \<Rightarrow> string" where
  "op_text OpColonDash = '':-''"
| "op_text OpDash = ''-''"
| "op_text OpColonPlus = '':+''"
| "op_text OpPlus = ''+''"
| "op_text OpColonQuestion = '':?''"
| "op_text OpQuestion = ''?''"

lemma split_op_text: "split_op (op_text p @ w) = Some (p, w)"
  by (cases p) (simp_all add: split_op_def has_prefix_def)

lemma op_text_hd: "\<exists>c cs. op_text p = c # cs \<and> \<not> isNameChar c \<and> CHR ''{'' \<notin> set (op_text p) \<and> CHR ''}'' \<notin> set (op_text p)"
  by (cases p) (auto simp: isNameChar_def)

lemma takeWhile_name:
  assumes "list_all isNameChar name" "\<not> isNameChar c"
  shows "takeWhile isNameChar (name @ c # cs) = name" "dropWhile isNameChar (name @ c # cs) = c # cs"
  using assms by (simp_all add: takeWhile_append dropWhile_append list_all_iff)

text \<open>A braced reference with an operator means what the operator table says: the default applies to an
  unset (or, with a colon, empty) variable, the alternative to a set (or non-empty) one, and a required
  variable that is missing is an error carrying the message; the value of a variable is inserted as it is,
  without a second expansion, and the text after the brace is expanded on.\<close>

theorem braced_operator_exact:
  assumes "name \<noteq> []" "list_all isNameChar name"
    "CHR ''$'' \<notin> set word" "CHR ''{'' \<notin> set word" "CHR ''}'' \<notin> set word"
  shows "expandString m (''${'' @ name @ op_text p @ word @ ''}'' @ rest) =
    (case apply_op p name (m name) word of
       Inl e \<Rightarrow> Inl e
     | Inr val \<Rightarrow> map_sum id (\<lambda>r. val @ r) (expandString m rest))"
proof -
  obtain c cs where op: "op_text p = c # cs" "\<not> isNameChar c" "CHR ''{'' \<notin> set (op_text p)" "CHR ''}'' \<notin> set (op_text p)"
    using op_text_hd by blast
  let ?e = "name @ op_text p @ word"
  have nb: "CHR ''{'' \<notin> set ?e" "CHR ''}'' \<notin> set ?e"
    using assms(2,4,5) op(3,4) name_char_not by (auto simp: list_all_iff)
  have be: "brace_end 1 (?e @ CHR ''}'' # rest) = Some (length ?e)" by (rule brace_end_plain [OF nb])
  have tw: "takeWhile isNameChar ?e = name" "dropWhile isNameChar ?e = op_text p @ word"
    using takeWhile_name [OF assms(2) op(2), of "cs @ word"] op(1) by simp_all
  have eb: "expandBraced m ?e = apply_op p name (m name) word"
    unfolding expandBraced.simps [of m ?e] Let_def tw split_op_text
    using assms(1) op(1) expand_plain [OF assms(3), of m] by simp
  have "expandString m (CHR ''$'' # CHR ''{'' # ?e @ CHR ''}'' # rest) =
    (case expandBraced m ?e of Inl e \<Rightarrow> Inl e | Inr val \<Rightarrow> map_sum id (\<lambda>r. val @ r) (expandString m rest))"
  proof -
    have d: "drop (length ?e + 1) (?e @ CHR ''}'' # rest) = rest" "take (length ?e) (?e @ CHR ''}'' # rest) = ?e" by simp_all
    show ?thesis unfolding expandString.simps(2) [of m "CHR ''$''"] list.sel be option.case d by simp
  qed
  then show ?thesis unfolding eb by simp
qed

theorem braced_operator_exact_witness:
  "expandString [''A'' \<mapsto> []] ''${A:-x}y'' = Inr ''xy''"
proof -
  have "list_all isNameChar ''A''" by code_simp
  then have "expandString [''A'' \<mapsto> []] (''${'' @ ''A'' @ op_text OpColonDash @ ''x'' @ ''}'' @ ''y'') =
    (case apply_op OpColonDash ''A'' ([''A'' \<mapsto> []] ''A'') ''x'' of
       Inl e \<Rightarrow> Inl e | Inr val \<Rightarrow> map_sum id (\<lambda>r. val @ r) (expandString [''A'' \<mapsto> []] ''y''))"
    by (intro braced_operator_exact) simp_all
  moreover have "expandString [''A'' \<mapsto> []] ''y'' = Inr ''y''" by (rule expand_plain) simp
  ultimately show ?thesis by (simp add: apply_op_def)
qed

lemma interpolate_keys:
  "interpolate m v = Inr v' \<Longrightarrow> (case v of YMap kvs \<Rightarrow> \<exists>kvs'. v' = YMap kvs' \<and> map fst kvs' = map fst kvs
     | YList vs \<Rightarrow> \<exists>vs'. v' = YList vs' \<and> length vs' = length vs | YStr _ \<Rightarrow> \<exists>s. v' = YStr s | YOther n \<Rightarrow> v' = v)"
  "interpolate_list m vs = Inr vs' \<Longrightarrow> length vs' = length vs"
  "interpolate_map m kvs = Inr kvs' \<Longrightarrow> map fst kvs' = map fst kvs"
proof (induction m v and m vs and m kvs arbitrary: v' and vs' and kvs' rule: interpolate_interpolate_list_interpolate_map.induct)
  case (1 m s)
  then show ?case by (cases "expandString m s") auto
next
  case (2 m vs)
  then show ?case by (cases "interpolate_list m vs") auto
next
  case (3 m kvs)
  then show ?case by (cases "interpolate_map m kvs") auto
next
  case (6 m v vs)
  obtain x r where "interpolate m v = Inr x" "interpolate_list m vs = Inr r" "vs' = x # r"
    using "6.prems" by (cases "interpolate m v"; cases "interpolate_list m vs") simp_all
  with "6.IH"(2) show ?case by simp
next
  case (8 m k v kvs)
  obtain x r where "interpolate m v = Inr x" "interpolate_map m kvs = Inr r" "kvs' = (k, x) # r"
    using "8.prems" by (cases "interpolate m v"; cases "interpolate_map m kvs") simp_all
  with "8.IH"(2) show ?case by simp
qed simp_all

text \<open>Interpolation keeps the shape of a document: map keys are left untouched and in place, lists keep
  their length, a string stays a string, and every other scalar is unchanged.\<close>

theorem interpolation_keeps_shape:
  assumes "interpolate m v = Inr v'"
  shows "case v of YMap kvs \<Rightarrow> \<exists>kvs'. v' = YMap kvs' \<and> map fst kvs' = map fst kvs
     | YList vs \<Rightarrow> \<exists>vs'. v' = YList vs' \<and> length vs' = length vs | YStr _ \<Rightarrow> \<exists>s. v' = YStr s | YOther n \<Rightarrow> v' = v"
  using interpolate_keys(1) [OF assms] .

theorem interpolation_keeps_shape_witness:
  "\<exists>kvs'. interpolate Map.empty (YMap [(''$K'', YStr ''v'')]) = Inr (YMap kvs') \<and> map fst kvs' = [''$K'']"
proof -
  have i: "interpolate Map.empty (YMap [(''$K'', YStr ''v'')]) = Inr (YMap [(''$K'', YStr ''v'')])"
    by (simp add: expand_plain)
  from interpolation_keeps_shape [OF i] i show ?thesis by auto
qed

section \<open>Properties of env files\<close>

text \<open>A value written in double quotes with the special bytes escaped.\<close>

definition env_escape :: "char \<Rightarrow> string" where
  "env_escape c =
     (if c = CHR 0x0A then [CHR 0x5C, CHR ''n''] else if c \<in> {CHR 0x5C, CHR 0x22, CHR ''$''} then [CHR 0x5C, c] else [c])"

definition env_quote :: "string \<Rightarrow> string" where
  "env_quote s = [CHR 0x22] @ concat (map env_escape s) @ [CHR 0x22]"

lemma escapes_append: "expandEnvEscapes (env_escape c @ t) = c # expandEnvEscapes t"
  by (cases t) (auto simp: env_escape_def single_escape_def)

lemma escapes_quote: "expandEnvEscapes (concat (map env_escape s)) = s"
  by (induction s) (simp_all add: escapes_append)

lemma unquote_quote: "unquoteEnv (env_quote s) = s"
  by (simp add: unquoteEnv_def env_quote_def butlast_append escapes_quote)

lemma quote_no_newline: "CHR 0x0A \<notin> set (env_quote s)"
  by (auto simp: env_quote_def env_escape_def split: if_splits)

text \<open>A value written in double quotes, with backslash, quote, dollar and newline escaped, is read back byte for
  byte: the file with that one assignment gives exactly the key and the value.\<close>

theorem env_file_roundtrip:
  assumes "key \<noteq> []" "list_all isNameChar key" "length (key @ ''='' @ env_quote s) < 1048576"
  shows "parseEnvBytes (key @ ''='' @ env_quote s) = Some [(key, s)]"
proof -
  let ?l = "key @ ''='' @ env_quote s"
  have vis: "isNameChar c \<Longrightarrow> 0x20 < (of_char c :: nat) \<and> (of_char c :: nat) < 0x80" for c
    by (auto simp: isNameChar_def Let_def)
  have hdk: "isNameChar (hd key)" "isNameChar (last key)" using assms(1,2) by (simp_all add: list_all_iff)
  have nokey: "c \<notin> set key" if "\<not> isNameChar c" for c using assms(2) that by (auto simp: list_all_iff)
  have nn: "CHR 0x0A \<notin> set ?l" using quote_no_newline [of s] nokey [of "CHR 0x0A"] by (auto simp: isNameChar_def)
  have lq: "last (env_quote s) = CHR 0x22" "env_quote s \<noteq> []" "hd (env_quote s) = CHR 0x22" by (simp_all add: env_quote_def)
  have sl: "scan_lines ?l = [?l]" using split_byte_single [OF nn] assms(1) by (simp add: scan_lines_def)
  have dc: "drop_cr ?l = ?l" using lq by (simp add: drop_cr_def)
  have tl: "trim_space ?l = ?l"
    using vis [OF hdk(1)] lq assms(1) by (intro trim_space_id) (simp_all)
  have tk: "trim_space key = key" using vis [OF hdk(1)] vis [OF hdk(2)] assms(1) by (intro trim_space_id) simp_all
  have tq: "trim_space (env_quote s) = env_quote s" using lq by (intro trim_space_id) simp_all
  have nh: "\<not> has_prefix ?l ''#''" using hdk(1) assms(1) by (cases key) (auto simp: has_prefix_iff isNameChar_def)
  have cut: "cut_byte CHR ''='' ?l = Some (key, env_quote s)"
    using cut_byte_append [of "CHR ''=''" key "env_quote s"] nokey [of "CHR ''=''"] by (simp add: isNameChar_def)
  have "\<not> has_prefix ?l ''export ''"
  proof
    assume "has_prefix ?l ''export ''"
    then obtain t where "key @ (CHR ''='' # env_quote s) = ''export '' @ t" by (auto simp: has_prefix_iff)
    then obtain us where "key = ''export '' @ us \<or> ''export '' = key @ us \<and> us @ t = CHR ''='' # env_quote s"
      unfolding append_eq_append_conv2 [of key] by metis
    moreover have "CHR '' '' \<notin> set key" using nokey [of "CHR '' ''"] by (simp add: isNameChar_def)
    ultimately have "''export '' = key @ us" "us \<noteq> []" "us @ t = CHR ''='' # env_quote s" by auto
    then have "CHR ''='' \<in> set ''export ''" by (cases us) auto
    then show False by simp
  qed
  then have tp: "trim_prefix ?l ''export '' = ?l" by (simp add: trim_prefix_def)
  have "parse_env_line ?l = Some (key, s)"
    unfolding parse_env_line_def Let_def tl tp cut using assms(1) nh tk tq by (simp add: unquote_quote)
  then show ?thesis using assms(3) unfolding parseEnvBytes_def sl
    by (simp add: dc [simplified] List.map_filter_simps)
qed

theorem env_file_roundtrip_witness: "parseEnvBytes (''A'' @ ''='' @ env_quote ''x$'') = Some [(''A'', ''x$'')]"
proof -
  have "list_all isNameChar ''A''" by code_simp
  then show ?thesis using env_file_roundtrip [of "''A''" "''x$''"] by (simp add: env_quote_def env_escape_def)
qed

end
