(* ===== verification/HealthEngine.thy ===== *)
theory HealthEngine
  imports GoStd "HOL-Library.AList"
begin

text \<open>
  The health engine of the backends whose runtime runs no probes
  (\<open>pkg/deploy/healthengine/healthengine.go\<close>): durations as \<open>time.ParseDuration\<close> reads them, the
  resolution of a healthcheck into a plan, the engine's two maps under its mutex, and the probe
  loops as goroutines whose atomic steps interleave with the methods and with time.
\<close>

section \<open>Durations\<close>

text \<open>
  \<open>time.ParseDuration\<close> on nanoseconds. The fraction of a component is scaled in floating point,
  \<open>uint64(float64(f) * (float64(unit) / scale))\<close>; that product is the argument \<open>fscale\<close>, applied to
  the fraction's digits, the unit and the power of ten.
\<close>

type_synonym fscale = "nat \<Rightarrow> nat \<Rightarrow> nat \<Rightarrow> nat"

definition unitMap :: "(string \<times> nat) list" where
  "unitMap = [(''ns'', 1), (''us'', 1000), ([CHR 0xC2, CHR 0xB5, CHR ''s''], 1000),
     ([CHR 0xCE, CHR 0xBC, CHR ''s''], 1000), (''ms'', 1000000), (''s'', 1000000000),
     (''m'', 60000000000), (''h'', 3600000000000)]"

text \<open>\<open>leadingInt\<close> consumes digits and fails above \<open>1 << 63\<close>; \<open>leadingFraction\<close> ignores digits past it.\<close>

fun leadingInt :: "nat \<Rightarrow> string \<Rightarrow> (nat \<times> string) option" where
  "leadingInt x [] = Some (x, [])"
| "leadingInt x (c # s) =
     (if \<not> is_digit c then Some (x, c # s)
      else if x > 2 ^ 63 div 10 then None
      else let x' = x * 10 + nat (digit_val c) in if x' > 2 ^ 63 then None else leadingInt x' s)"

fun leadingFraction :: "bool \<Rightarrow> nat \<Rightarrow> nat \<Rightarrow> string \<Rightarrow> nat \<times> nat \<times> string" where
  "leadingFraction over x scale [] = (x, scale, [])"
| "leadingFraction over x scale (c # s) =
     (if \<not> is_digit c then (x, scale, c # s)
      else if over then leadingFraction over x scale s
      else if x > (2 ^ 63 - 1) div 10 then leadingFraction True x scale s
      else let y = x * 10 + nat (digit_val c) in
        if y > 2 ^ 63 then leadingFraction True x scale s else leadingFraction over y (scale * 10) s)"

definition unit_char :: "char \<Rightarrow> bool" where
  "unit_char c \<longleftrightarrow> c \<noteq> CHR ''.'' \<and> \<not> is_digit c"

text \<open>One round of the loop of \<open>ParseDuration\<close>: a number with its unit, and the rest of the text.\<close>

definition duration_component :: "fscale \<Rightarrow> string \<Rightarrow> (nat \<times> string) option" where
  "duration_component fs s =
     (if s = [] \<or> \<not> (hd s = CHR ''.'' \<or> is_digit (hd s)) then None
      else case leadingInt 0 s of None \<Rightarrow> None | Some (v, s1) \<Rightarrow>
        let pre = length s \<noteq> length s1;
            (f, scale, s2) = (if s1 \<noteq> [] \<and> hd s1 = CHR ''.'' then leadingFraction False 0 1 (tl s1) else (0, 1, s1));
            post = (s1 \<noteq> [] \<and> hd s1 = CHR ''.'' \<and> length (tl s1) \<noteq> length s2);
            u = takeWhile unit_char s2; s3 = dropWhile unit_char s2
        in if \<not> pre \<and> \<not> post then None
           else if u = [] then None
           else case map_of unitMap u of None \<Rightarrow> None | Some unit \<Rightarrow>
             if v > 2 ^ 63 div unit then None
             else let w = (if f > 0 then v * unit + fs f unit scale else v * unit) in
               if f > 0 \<and> w > 2 ^ 63 then None else Some (w, s3))"

lemma leadingInt_length: "leadingInt x s = Some (v, r) \<Longrightarrow> length r \<le> length s"
  by (induction x s rule: leadingInt.induct) (auto simp: Let_def split: if_splits)

lemma leadingFraction_length: "leadingFraction over x k s = (f, k', r) \<Longrightarrow> length r \<le> length s"
  by (induction over x k s rule: leadingFraction.induct) (auto simp: Let_def split: if_splits)

lemma duration_component_shorter:
  assumes "duration_component fs s = Some (v, r)"
  shows "length r < length s"
proof -
  obtain v0 s1 where l: "leadingInt 0 s = Some (v0, s1)"
    using assms by (auto simp: duration_component_def split: if_splits option.splits)
  obtain f k s2 where q: "(if s1 \<noteq> [] \<and> hd s1 = CHR ''.'' then leadingFraction False 0 1 (tl s1) else (0, 1, s1)) = (f, k, s2)"
    by (metis prod_cases3)
  have "length s2 \<le> length s1"
    using q leadingFraction_length [of False 0 1 "tl s1" f k s2] by (cases s1) (auto split: if_splits)
  then have le: "length s2 \<le> length s" using leadingInt_length [OF l] by simp
  have "takeWhile unit_char s2 \<noteq> []" "r = dropWhile unit_char s2"
    using assms unfolding duration_component_def l option.case prod.case q Let_def
    by (auto split: if_splits option.splits)
  moreover have "length s2 = length (takeWhile unit_char s2) + length (dropWhile unit_char s2)"
    by (metis length_append takeWhile_dropWhile_id)
  ultimately show ?thesis using le by (cases "takeWhile unit_char s2") simp_all
qed

function duration_sum :: "fscale \<Rightarrow> nat \<Rightarrow> string \<Rightarrow> nat option" where
  "duration_sum fs d s =
     (if s = [] then Some d
      else case duration_component fs s of None \<Rightarrow> None
        | Some (v, r) \<Rightarrow> if d + v > 2 ^ 63 then None else duration_sum fs (d + v) r)"
  by pat_completeness auto
termination
  by (relation "measure (\<lambda>(_, _, s). length s)") (auto dest: duration_component_shorter)

declare duration_sum.simps [simp del]

definition parseDuration :: "fscale \<Rightarrow> string \<Rightarrow> int option" where
  "parseDuration fs s0 =
     (let neg = (s0 \<noteq> [] \<and> hd s0 = CHR ''-'');
          s = (if s0 \<noteq> [] \<and> (hd s0 = CHR ''-'' \<or> hd s0 = CHR ''+'') then tl s0 else s0)
      in if s = ''0'' then Some 0
         else if s = [] then None
         else case duration_sum fs 0 s of None \<Rightarrow> None
           | Some d \<Rightarrow> if neg then Some (- int d) else if d > 2 ^ 63 - 1 then None else Some (int d))"

section \<open>Resolving a healthcheck\<close>

record healthcheck =
  hcTest :: "string list"
  hcInterval :: string
  hcTimeout :: string
  hcStartPeriod :: string
  hcStartInterval :: string
  hcRetries :: int

definition Disabled :: "healthcheck \<Rightarrow> bool" where
  "Disabled h \<longleftrightarrow> hcTest h \<noteq> [] \<and> hd (hcTest h) = ''NONE''"

record plan =
  argv :: "string list"
  interval :: int
  startInterval :: int
  timeout :: int
  startPeriod :: int
  retries :: int

definition second :: int where
  "second = 1000000000"

definition DefaultInterval :: int where
  "DefaultInterval = 30 * second"

definition DefaultTimeout :: int where
  "DefaultTimeout = 30 * second"

definition DefaultRetries :: int where
  "DefaultRetries = 3"

definition dur :: "fscale \<Rightarrow> string \<Rightarrow> int \<Rightarrow> int" where
  "dur fs s def =
     (if s = '''' then def
      else case parseDuration fs s of None \<Rightarrow> def | Some d \<Rightarrow> if d \<le> 0 then def else d)"

text \<open>
  \<open>strings.ToUpper\<close> as far as a comparison with an ASCII word can see: ASCII letters, and the two
  runes outside ASCII whose upper case is an ASCII letter (dotless i and long s).
\<close>

fun to_upper :: "string \<Rightarrow> string" where
  "to_upper [] = []"
| "to_upper (c # s) =
     (if c \<in> set ''abcdefghijklmnopqrstuvwxyz'' then char_of (of_char c - 32 :: nat) # to_upper s
      else if c = CHR 0xC4 \<and> s \<noteq> [] \<and> hd s = CHR 0xB1 then CHR ''I'' # to_upper (tl s)
      else if c = CHR 0xC5 \<and> s \<noteq> [] \<and> hd s = CHR 0xBF then CHR ''S'' # to_upper (tl s)
      else c # to_upper s)"

definition argvFor :: "string list \<Rightarrow> string list" where
  "argvFor test =
     (let w = to_upper (hd test) in
      if w = ''CMD'' then tl test
      else if w = ''CMD-SHELL'' then [''/bin/sh'', ''-c'', join_with '' '' (tl test)]
      else if w = ''NONE'' then []
      else test)"

definition resolve :: "fscale \<Rightarrow> healthcheck option \<Rightarrow> plan option" where
  "resolve fs hc =
     (case hc of None \<Rightarrow> None | Some h \<Rightarrow>
        if Disabled h \<or> hcTest h = [] then None
        else if argvFor (hcTest h) = [] then None
        else Some \<lparr>argv = argvFor (hcTest h),
               interval = dur fs (hcInterval h) DefaultInterval,
               startInterval = dur fs (hcStartInterval h) 0,
               timeout = dur fs (hcTimeout h) DefaultTimeout,
               startPeriod = dur fs (hcStartPeriod h) 0,
               retries = (if hcRetries h \<le> 0 then DefaultRetries else hcRetries h)\<rparr>)"

lemma dur_nonneg: "0 \<le> def \<Longrightarrow> 0 \<le> dur fs s def"
  by (auto simp: dur_def split: option.splits)

lemma dur_pos: "0 < def \<Longrightarrow> 0 < dur fs s def"
  by (auto simp: dur_def split: option.splits)

lemma resolved_plan:
  assumes "resolve fs hc = Some p"
  shows "argv p \<noteq> []" "0 < interval p" "0 < timeout p" "0 \<le> startInterval p" "0 \<le> startPeriod p" "1 \<le> retries p"
  using assms
  by (auto simp: resolve_def DefaultInterval_def DefaultTimeout_def DefaultRetries_def second_def
      dur_nonneg dur_pos split: option.splits if_splits)

section \<open>The engine\<close>

definition StateStarting :: string where
  "StateStarting = ''starting''"

definition StateHealthy :: string where
  "StateHealthy = ''healthy''"

definition StateUnhealthy :: string where
  "StateUnhealthy = ''unhealthy''"

text \<open>
  A goroutine of \<open>run\<close>: its local variables, whether its context is cancelled, and the place it has
  reached. \<open>AtJudge b\<close> is the point after the context check that follows a probe, with \<open>b\<close> whether
  the probe passed; \<open>AtSet s\<close> is the point before \<open>setState\<close> takes the mutex.
\<close>

datatype place = AtStart | AtTop | AtWait int | AtProbe | AtJudge bool | AtSet string | AtEnd

record loop =
  instanceID :: string
  lplan :: plan
  ctxDone :: bool
  started :: bool
  lfails :: int
  deadline :: int
  place :: place

text \<open>
  The engine with its watchers (instance to the index of the goroutine its cancel function stops),
  its states, every goroutine ever started, and the clock.
\<close>

record engine =
  watchers :: "(string \<times> nat) list"
  states :: "(string \<times> string) list"
  loops :: "loop list"
  clock :: int

definition New :: engine where
  "New = \<lparr>watchers = [], states = [], loops = [], clock = 0\<rparr>"

definition cancel :: "nat \<Rightarrow> loop list \<Rightarrow> loop list" where
  "cancel c ls = ls[c := (ls ! c)\<lparr>ctxDone := True\<rparr>]"

definition goRun :: "string \<Rightarrow> plan \<Rightarrow> loop" where
  "goRun iid p = \<lparr>instanceID = iid, lplan = p, ctxDone = False, started = False, lfails = 0, deadline = 0, place = AtStart\<rparr>"

definition Unwatch :: "string \<Rightarrow> engine \<Rightarrow> engine" where
  "Unwatch iid e =
     (let e1 = (case map_of (watchers e) iid of
                  Some c \<Rightarrow> e\<lparr>loops := cancel c (loops e), watchers := AList.delete iid (watchers e)\<rparr>
                | None \<Rightarrow> e)
      in e1\<lparr>states := AList.delete iid (states e1)\<rparr>)"

definition Watch :: "fscale \<Rightarrow> string \<Rightarrow> healthcheck option \<Rightarrow> engine \<Rightarrow> engine" where
  "Watch fs iid hc e =
     (case resolve fs hc of
        None \<Rightarrow> Unwatch iid e
      | Some p \<Rightarrow>
          let ls = (case map_of (watchers e) iid of Some prev \<Rightarrow> cancel prev (loops e) | None \<Rightarrow> loops e)
          in e\<lparr>watchers := AList.update iid (length ls) (watchers e),
               states := AList.update iid StateStarting (states e),
               loops := ls @ [goRun iid p]\<rparr>)"

definition StopAll :: "engine \<Rightarrow> engine" where
  "StopAll e = e\<lparr>loops := fold (\<lambda>(_, c). cancel c) (watchers e) (loops e), watchers := [], states := []\<rparr>"

definition State :: "string \<Rightarrow> engine \<Rightarrow> string" where
  "State iid e = (case map_of (states e) iid of None \<Rightarrow> '''' | Some s \<Rightarrow> s)"

definition setState :: "string \<Rightarrow> string \<Rightarrow> engine \<Rightarrow> engine" where
  "setState iid s e =
     (if map_of (watchers e) iid \<noteq> None then e\<lparr>states := AList.update iid s (states e)\<rparr> else e)"

section \<open>The probe loop\<close>

definition wait_for :: "int \<Rightarrow> loop \<Rightarrow> int" where
  "wait_for now l =
     (if \<not> started l \<and> startInterval (lplan l) > 0 \<and> now < deadline l then startInterval (lplan l) else interval (lplan l))"

text \<open>What a finished probe does to the loop's variables, and the state it reports, if any.\<close>

definition judge :: "int \<Rightarrow> bool \<Rightarrow> loop \<Rightarrow> loop \<times> string option" where
  "judge now pass l =
     (if pass then (l\<lparr>started := True, lfails := 0\<rparr>, Some StateHealthy)
      else if \<not> started l \<and> now < deadline l then (l, Some StateStarting)
      else let n = lfails l + 1 in
        (l\<lparr>lfails := n\<rparr>, if n \<ge> retries (lplan l) then Some StateUnhealthy else None))"

text \<open>The step a goroutine takes on its own, unless it waits for its timer, its context or its probe.\<close>

definition run_step :: "nat \<Rightarrow> engine \<Rightarrow> engine option" where
  "run_step i e =
     (let l = loops e ! i; put = (\<lambda>l'. e\<lparr>loops := (loops e)[i := l']\<rparr>) in
      case place l of
        AtStart \<Rightarrow> Some (put (l\<lparr>deadline := clock e + startPeriod (lplan l), place := AtTop\<rparr>))
      | AtTop \<Rightarrow> Some (put (l\<lparr>place := AtWait (clock e + wait_for (clock e) l)\<rparr>))
      | AtWait t \<Rightarrow> if clock e \<ge> t then Some (put (l\<lparr>place := AtProbe\<rparr>)) else None
      | AtProbe \<Rightarrow> None
      | AtJudge b \<Rightarrow>
          (case judge (clock e) b l of
             (l', None) \<Rightarrow> Some (put (l'\<lparr>place := AtTop\<rparr>))
           | (l', Some s) \<Rightarrow> Some (put (l'\<lparr>place := AtSet s\<rparr>)))
      | AtSet s \<Rightarrow> Some (setState (instanceID l) s (put (l\<lparr>place := AtTop\<rparr>)))
      | AtEnd \<Rightarrow> None)"

text \<open>The select's other branch: the context is done.\<close>

definition run_done :: "nat \<Rightarrow> engine \<Rightarrow> engine option" where
  "run_done i e =
     (let l = loops e ! i in
      case place l of
        AtWait t \<Rightarrow> if ctxDone l then Some (e\<lparr>loops := (loops e)[i := l\<lparr>place := AtEnd\<rparr>]\<rparr>) else None
      | _ \<Rightarrow> None)"

text \<open>A probe returns an exit code and perhaps an error; a loop cancelled meanwhile ends.\<close>

definition run_probed :: "nat \<Rightarrow> int \<Rightarrow> bool \<Rightarrow> engine \<Rightarrow> engine option" where
  "run_probed i code failed e =
     (let l = loops e ! i in
      case place l of
        AtProbe \<Rightarrow> Some (e\<lparr>loops := (loops e)[i := l\<lparr>place := (if ctxDone l then AtEnd else AtJudge (\<not> failed \<and> code = 0))\<rparr>]\<rparr>)
      | _ \<Rightarrow> None)"

datatype event =
    EWatch string "healthcheck option" | EUnwatch string | EStopAll | ETick nat
  | ERun nat | EDone nat | EProbed nat int bool

fun step :: "fscale \<Rightarrow> event \<Rightarrow> engine \<Rightarrow> engine option" where
  "step fs (EWatch iid hc) e = Some (Watch fs iid hc e)"
| "step fs (EUnwatch iid) e = Some (Unwatch iid e)"
| "step fs EStopAll e = Some (StopAll e)"
| "step fs (ETick d) e = Some (e\<lparr>clock := clock e + int d\<rparr>)"
| "step fs (ERun i) e = (if i < length (loops e) then run_step i e else None)"
| "step fs (EDone i) e = (if i < length (loops e) then run_done i e else None)"
| "step fs (EProbed i code failed) e = (if i < length (loops e) then run_probed i code failed e else None)"

text \<open>A schedule of events, None when one of them is not possible where it stands.\<close>

fun schedule :: "fscale \<Rightarrow> event list \<Rightarrow> engine \<Rightarrow> engine option" where
  "schedule fs [] e = Some e"
| "schedule fs (ev # evs) e = (case step fs ev e of None \<Rightarrow> None | Some e' \<Rightarrow> schedule fs evs e')"

inductive reaches :: "fscale \<Rightarrow> engine \<Rightarrow> bool" for fs where
  start: "reaches fs New"
| event: "reaches fs e \<Longrightarrow> step fs ev e = Some e' \<Longrightarrow> reaches fs e'"

section \<open>Goroutines and cancellation\<close>

lemma cancel_length [simp]: "length (cancel c ls) = length ls"
  by (simp add: cancel_def)

lemma cancel_nth:
  "i < length ls \<Longrightarrow> cancel c ls ! i = (if i = c then (ls ! i)\<lparr>ctxDone := True\<rparr> else ls ! i)"
  by (simp add: cancel_def nth_list_update)

lemma cancelAll_length [simp]: "length (fold (\<lambda>(_, c). cancel c) ws ls) = length ls"
  by (induction ws arbitrary: ls) auto

lemma cancelAll_nth:
  "i < length ls \<Longrightarrow> fold (\<lambda>(_, c). cancel c) ws ls ! i =
     (if i \<in> snd ` set ws then (ls ! i)\<lparr>ctxDone := True\<rparr> else ls ! i)"
proof (induction ws arbitrary: ls)
  case (Cons w ws)
  obtain k c where w: "w = (k, c)" by fastforce
  show ?case using Cons.IH [of "cancel c ls"] Cons.prems by (simp add: w cancel_nth)
qed simp

lemma judge_keeps:
  "judge now b l = (l', r) \<Longrightarrow> instanceID l' = instanceID l \<and> ctxDone l' = ctxDone l \<and> lplan l' = lplan l"
  by (auto simp: judge_def Let_def split: if_splits)

definition vocabulary :: "string set" where
  "vocabulary = {StateStarting, StateHealthy, StateUnhealthy}"

lemma judge_vocabulary: "judge now b l = (l', Some s) \<Longrightarrow> s \<in> vocabulary"
  by (auto simp: judge_def vocabulary_def Let_def split: if_splits)

lemma setState_simps [simp]:
  "watchers (setState iid s e) = watchers e" "loops (setState iid s e) = loops e" "clock (setState iid s e) = clock e"
  by (simp_all add: setState_def)

text \<open>
  Every step of a goroutine replaces its own record by one with the same instance and context, keeps
  the watchers, and touches the states only through \<open>setState\<close>.
\<close>

definition loop_step :: "nat \<Rightarrow> engine \<Rightarrow> engine \<Rightarrow> bool" where
  "loop_step i e e' \<longleftrightarrow> i < length (loops e) \<and> watchers e' = watchers e \<and> clock e' = clock e \<and>
     (\<exists>l'. loops e' = (loops e)[i := l'] \<and> instanceID l' = instanceID (loops e ! i) \<and> ctxDone l' = ctxDone (loops e ! i) \<and>
        (\<forall>s. place l' = AtSet s \<longrightarrow> s \<in> vocabulary) \<and> (place l' = AtEnd \<longrightarrow> ctxDone l')) \<and>
     (states e' = states e \<or>
      (\<exists>s. place (loops e ! i) = AtSet s \<and> map_of (watchers e) (instanceID (loops e ! i)) \<noteq> None \<and>
         states e' = AList.update (instanceID (loops e ! i)) s (states e)))"

fun loop_of :: "event \<Rightarrow> nat option" where
  "loop_of (ERun i) = Some i"
| "loop_of (EDone i) = Some i"
| "loop_of (EProbed i _ _) = Some i"
| "loop_of _ = None"

lemma loop_stepI:
  assumes "i < length (loops e)" "instanceID l' = instanceID (loops e ! i)" "ctxDone l' = ctxDone (loops e ! i)"
    "\<And>s. place l' = AtSet s \<Longrightarrow> s \<in> vocabulary" "place l' = AtEnd \<Longrightarrow> ctxDone l'"
  shows "loop_step i e (e\<lparr>loops := (loops e)[i := l']\<rparr>)"
  unfolding loop_step_def using assms by (intro conjI exI [of _ l']) auto

lemma run_step_loop:
  assumes "i < length (loops e)" "run_step i e = Some e'"
  shows "loop_step i e e'"
proof (cases "place (loops e ! i)")
  case (AtJudge b)
  obtain l' r where j: "judge (clock e) b (loops e ! i) = (l', r)" by fastforce
  show ?thesis using assms AtJudge j judge_keeps [OF j]
    by (cases r) (auto simp: run_step_def Let_def intro!: loop_stepI dest: judge_vocabulary)
next
  case (AtSet s)
  let ?l = "(loops e ! i)\<lparr>place := AtTop\<rparr>"
  have e': "e' = setState (instanceID (loops e ! i)) s (e\<lparr>loops := (loops e)[i := ?l]\<rparr>)"
    using assms AtSet by (simp add: run_step_def Let_def)
  show ?thesis
  proof (cases "map_of (watchers e) (instanceID (loops e ! i)) = None")
    case True
    then show ?thesis using assms(1) by (auto simp: e' setState_def intro!: loop_stepI)
  next
    case False
    then show ?thesis unfolding loop_step_def
      using assms(1) AtSet by (intro conjI exI [of _ ?l] disjI2 exI [of _ s]) (auto simp: e' setState_def)
  qed
qed (use assms in \<open>auto simp: run_step_def Let_def intro!: loop_stepI split: if_splits\<close>)

lemma step_loop:
  assumes "step fs ev e = Some e'" "loop_of ev = Some i"
  shows "loop_step i e e'"
proof (cases ev)
  case (ERun k)
  then show ?thesis using assms run_step_loop by (auto split: if_splits)
next
  case (EDone k)
  then show ?thesis using assms
    by (auto simp: run_done_def Let_def intro!: loop_stepI split: if_splits place.splits)
next
  case (EProbed k c f)
  then show ?thesis using assms
    by (auto simp: run_probed_def Let_def intro!: loop_stepI split: if_splits place.splits)
qed (use assms in auto)

section \<open>The engine's invariant\<close>

definition engine_inv :: "engine \<Rightarrow> bool" where
  "engine_inv e \<longleftrightarrow>
     dom (map_of (watchers e)) = dom (map_of (states e)) \<and>
     (\<forall>iid c. map_of (watchers e) iid = Some c \<longrightarrow>
        c < length (loops e) \<and> instanceID (loops e ! c) = iid \<and> \<not> ctxDone (loops e ! c)) \<and>
     (\<forall>i < length (loops e). \<not> ctxDone (loops e ! i) \<longrightarrow> map_of (watchers e) (instanceID (loops e ! i)) = Some i) \<and>
     (\<forall>iid s. map_of (states e) iid = Some s \<longrightarrow> s \<in> vocabulary) \<and>
     (\<forall>i < length (loops e). (\<forall>s. place (loops e ! i) = AtSet s \<longrightarrow> s \<in> vocabulary) \<and>
        (place (loops e ! i) = AtEnd \<longrightarrow> ctxDone (loops e ! i)))"

lemma engine_invI:
  assumes "dom (map_of (watchers e)) = dom (map_of (states e))"
    "\<And>iid c. map_of (watchers e) iid = Some c \<Longrightarrow>
       c < length (loops e) \<and> instanceID (loops e ! c) = iid \<and> \<not> ctxDone (loops e ! c)"
    "\<And>i. i < length (loops e) \<Longrightarrow> \<not> ctxDone (loops e ! i) \<Longrightarrow> map_of (watchers e) (instanceID (loops e ! i)) = Some i"
    "\<And>iid s. map_of (states e) iid = Some s \<Longrightarrow> s \<in> vocabulary"
    "\<And>i s. i < length (loops e) \<Longrightarrow> place (loops e ! i) = AtSet s \<Longrightarrow> s \<in> vocabulary"
    "\<And>i. i < length (loops e) \<Longrightarrow> place (loops e ! i) = AtEnd \<Longrightarrow> ctxDone (loops e ! i)"
  shows "engine_inv e"
  using assms by (simp add: engine_inv_def)

lemma engine_invD:
  assumes "engine_inv e"
  shows "dom (map_of (watchers e)) = dom (map_of (states e))"
    "map_of (watchers e) iid = Some c \<Longrightarrow> c < length (loops e)"
    "map_of (watchers e) iid = Some c \<Longrightarrow> instanceID (loops e ! c) = iid"
    "map_of (watchers e) iid = Some c \<Longrightarrow> \<not> ctxDone (loops e ! c)"
    "i < length (loops e) \<Longrightarrow> \<not> ctxDone (loops e ! i) \<Longrightarrow> map_of (watchers e) (instanceID (loops e ! i)) = Some i"
    "map_of (states e) iid = Some s \<Longrightarrow> s \<in> vocabulary"
    "i < length (loops e) \<Longrightarrow> place (loops e ! i) = AtSet s \<Longrightarrow> s \<in> vocabulary"
    "i < length (loops e) \<Longrightarrow> place (loops e ! i) = AtEnd \<Longrightarrow> ctxDone (loops e ! i)"
  using assms by (simp_all add: engine_inv_def)

lemma inv_New: "engine_inv New"
  by (simp add: engine_inv_def New_def)

lemma inv_loop_step:
  assumes "engine_inv e" "loop_step i e e'"
  shows "engine_inv e'"
proof -
  obtain l' where l: "i < length (loops e)" "watchers e' = watchers e" "loops e' = (loops e)[i := l']"
      "instanceID l' = instanceID (loops e ! i)" "ctxDone l' = ctxDone (loops e ! i)"
      "\<forall>s. place l' = AtSet s \<longrightarrow> s \<in> vocabulary" "place l' = AtEnd \<longrightarrow> ctxDone l'"
    using assms(2) by (auto simp: loop_step_def)
  have d: "dom (map_of (watchers e)) = dom (map_of (states e))"
    and v: "\<forall>iid s. map_of (states e) iid = Some s \<longrightarrow> s \<in> vocabulary"
    and p: "\<forall>s. place (loops e ! i) = AtSet s \<longrightarrow> s \<in> vocabulary"
    using assms(1) l(1) by (simp_all add: engine_inv_def)
  consider "states e' = states e"
    | s where "place (loops e ! i) = AtSet s" "map_of (watchers e) (instanceID (loops e ! i)) \<noteq> None"
        "states e' = AList.update (instanceID (loops e ! i)) s (states e)"
    using assms(2) unfolding loop_step_def by blast
  then have st: "dom (map_of (states e')) = dom (map_of (watchers e)) \<and>
      (\<forall>iid s. map_of (states e') iid = Some s \<longrightarrow> s \<in> vocabulary)"
  proof cases
    case 1
    then show ?thesis using d v by simp
  next
    case (2 s)
    then have "instanceID (loops e ! i) \<in> dom (map_of (states e))" using d by blast
    then show ?thesis using 2(1,3) d v p by (auto simp: update_conv' simp del: not_None_eq)
  qed
  have w: "\<forall>iid c. map_of (watchers e) iid = Some c \<longrightarrow>
      c < length (loops e') \<and> instanceID (loops e' ! c) = iid \<and> \<not> ctxDone (loops e' ! c)"
    using assms(1) l(3,4,5) l(1) by (simp add: engine_inv_def nth_list_update)
  have live: "\<forall>k < length (loops e'). \<not> ctxDone (loops e' ! k) \<longrightarrow> map_of (watchers e) (instanceID (loops e' ! k)) = Some k"
    using assms(1) l(1,3,4,5) by (simp add: engine_inv_def nth_list_update)
  have pl: "\<forall>k < length (loops e'). (\<forall>s. place (loops e' ! k) = AtSet s \<longrightarrow> s \<in> vocabulary) \<and>
      (place (loops e' ! k) = AtEnd \<longrightarrow> ctxDone (loops e' ! k))"
    using assms(1) l(1,3,6,7) by (simp add: engine_inv_def nth_list_update)
  show ?thesis unfolding engine_inv_def l(2) using st w live pl by simp
qed

lemma inv_Unwatch:
  assumes "engine_inv e"
  shows "engine_inv (Unwatch iid e)"
proof (cases "map_of (watchers e) iid")
  case None
  then have "map_of (states e) iid = None" using assms by (auto simp: engine_inv_def)
  then have "map_of (AList.delete iid (states e)) = map_of (states e)" by (auto simp: delete_conv')
  then show ?thesis using assms None by (simp add: Unwatch_def engine_inv_def)
next
  case (Some c)
  note I = engine_invD [OF assms]
  have w: "map_of (watchers (Unwatch iid e)) = (map_of (watchers e))(iid := None)"
    and s: "map_of (states (Unwatch iid e)) = (map_of (states e))(iid := None)"
    and l: "loops (Unwatch iid e) = cancel c (loops e)"
    using Some by (simp_all add: Unwatch_def delete_conv')
  show ?thesis
  proof (rule engine_invI, unfold w s l cancel_length)
    show "dom ((map_of (watchers e))(iid := None)) = dom ((map_of (states e))(iid := None))"
      using I(1) by simp
  next
    fix k x assume "((map_of (watchers e))(iid := None)) k = Some x"
    then have k: "k \<noteq> iid" "map_of (watchers e) k = Some x" by (auto split: if_splits)
    then have "x \<noteq> c" using I(3) [OF k(2)] I(3) [OF Some] by auto
    then show "x < length (loops e) \<and> instanceID (cancel c (loops e) ! x) = k \<and> \<not> ctxDone (cancel c (loops e) ! x)"
      using I(2,3,4) [OF k(2)] by (simp add: cancel_nth)
  next
    fix i assume i: "i < length (loops e)" "\<not> ctxDone (cancel c (loops e) ! i)"
    then have n: "i \<noteq> c" "\<not> ctxDone (loops e ! i)" by (auto simp: cancel_nth split: if_splits)
    then have "map_of (watchers e) (instanceID (loops e ! i)) = Some i" using I(5) i(1) by blast
    then show "((map_of (watchers e))(iid := None)) (instanceID (cancel c (loops e) ! i)) = Some i"
      using n(1) Some i(1) by (auto simp: cancel_nth)
  qed (use I(6,7,8) in \<open>auto simp: cancel_nth split: if_splits\<close>)
qed

lemma inv_Watch:
  assumes "engine_inv e"
  shows "engine_inv (Watch fs iid hc e)"
proof (cases "resolve fs hc")
  case None
  then show ?thesis using inv_Unwatch [OF assms] by (simp add: Watch_def)
next
  case (Some p)
  note I = engine_invD [OF assms]
  let ?c = "map_of (watchers e) iid"
  define ls where "ls = (case ?c of Some prev \<Rightarrow> cancel prev (loops e) | None \<Rightarrow> loops e)"
  have len: "length ls = length (loops e)" by (simp add: ls_def split: option.split)
  have nth: "ls ! i = (if ?c = Some i then (loops e ! i)\<lparr>ctxDone := True\<rparr> else loops e ! i)" if "i < length (loops e)" for i
    using that by (auto simp: ls_def cancel_nth split: option.split)
  have w: "map_of (watchers (Watch fs iid hc e)) = (map_of (watchers e))(iid \<mapsto> length ls)"
    and s: "map_of (states (Watch fs iid hc e)) = (map_of (states e))(iid \<mapsto> StateStarting)"
    and l: "loops (Watch fs iid hc e) = ls @ [goRun iid p]"
    using Some by (simp_all add: Watch_def Let_def ls_def update_conv')
  show ?thesis
  proof (rule engine_invI, unfold w s l length_append list.size add_0 One_nat_def [symmetric] len Suc_eq_plus1 [symmetric])
    show "dom ((map_of (watchers e))(iid \<mapsto> length (loops e))) = dom ((map_of (states e))(iid \<mapsto> StateStarting))"
      using I(1) by simp
  next
    fix k x assume a: "((map_of (watchers e))(iid \<mapsto> length (loops e))) k = Some x"
    show "x < Suc (length (loops e)) \<and> instanceID ((ls @ [goRun iid p]) ! x) = k \<and> \<not> ctxDone ((ls @ [goRun iid p]) ! x)"
    proof (cases "k = iid")
      case True
      then show ?thesis using a len by (simp add: nth_append goRun_def)
    next
      case False
      then have k: "map_of (watchers e) k = Some x" using a by simp
      then have "?c \<noteq> Some x" using I(3) [OF k] I(3) [of iid x] False by auto
      then show ?thesis using I(2,3,4) [OF k] len nth by (simp add: nth_append)
    qed
  next
    fix i assume i: "i < Suc (length (loops e))" "\<not> ctxDone ((ls @ [goRun iid p]) ! i)"
    show "((map_of (watchers e))(iid \<mapsto> length (loops e))) (instanceID ((ls @ [goRun iid p]) ! i)) = Some i"
    proof (cases "i = length (loops e)")
      case True
      then show ?thesis using len by (simp add: nth_append goRun_def)
    next
      case False
      then have lt: "i < length (loops e)" using i(1) by simp
      then have n: "?c \<noteq> Some i" "\<not> ctxDone (loops e ! i)"
        using i(2) len nth by (auto simp: nth_append split: if_splits)
      then have "map_of (watchers e) (instanceID (loops e ! i)) = Some i" using I(5) lt by blast
      then show ?thesis using n(1) lt len nth by (auto simp: nth_append)
    qed
  qed (use I(6,7,8) len nth in \<open>auto simp: nth_append goRun_def vocabulary_def less_Suc_eq split: if_splits\<close>)
qed

lemma inv_StopAll:
  assumes "engine_inv e"
  shows "engine_inv (StopAll e)"
proof -
  have "i \<in> snd ` set (watchers e)" if "i < length (loops e)" "\<not> ctxDone (loops e ! i)" for i
    using assms that map_of_SomeD [of "watchers e" "instanceID (loops e ! i)" i]
    by (force simp: engine_inv_def)
  then show ?thesis using assms by (auto simp: engine_inv_def StopAll_def cancelAll_nth)
qed

lemma inv_tick: "engine_inv e \<Longrightarrow> engine_inv (e\<lparr>clock := c\<rparr>)"
  by (simp add: engine_inv_def)

lemma inv_step:
  assumes "engine_inv e" "step fs ev e = Some e'"
  shows "engine_inv e'"
proof (cases "loop_of ev")
  case None
  then show ?thesis using assms(2) inv_Watch [OF assms(1)] inv_Unwatch [OF assms(1)] inv_StopAll [OF assms(1)] inv_tick [OF assms(1)]
    by (cases ev) auto
next
  case (Some i)
  then show ?thesis using inv_loop_step [OF assms(1) step_loop [OF assms(2)]] by blast
qed

lemma reaches_inv: "reaches fs e \<Longrightarrow> engine_inv e"
proof (induction rule: reaches.induct)
  case start
  show ?case by (rule inv_New)
next
  case (event e ev e')
  then show ?case by (blast intro: inv_step)
qed

lemma schedule_inv: "engine_inv e \<Longrightarrow> schedule fs es e = Some e' \<Longrightarrow> engine_inv e'"
  by (induction es arbitrary: e) (auto split: option.splits intro: inv_step)

section \<open>Cancelled loops end\<close>

fun rank :: "place \<Rightarrow> nat" where
  "rank (AtJudge _) = 5"
| "rank (AtSet _) = 4"
| "rank AtStart = 4"
| "rank AtTop = 3"
| "rank (AtWait _) = 2"
| "rank AtProbe = 1"
| "rank AtEnd = 0"

text \<open>Whatever is not a step of a goroutine leaves its variables alone and can only cancel it.\<close>

lemma step_others:
  assumes "step fs ev e = Some e'" "loop_of ev \<noteq> Some i" "i < length (loops e)"
  shows "i < length (loops e')" "loops e' ! i = loops e ! i \<or> loops e' ! i = (loops e ! i)\<lparr>ctxDone := True\<rparr>"
proof -
  have "i < length (loops e') \<and> (loops e' ! i = loops e ! i \<or> loops e' ! i = (loops e ! i)\<lparr>ctxDone := True\<rparr>)"
  proof (cases "loop_of ev")
    case (Some k)
    then show ?thesis using step_loop [OF assms(1) Some] assms(2,3) by (auto simp: loop_step_def)
  next
    case None
    have u: "i < length (loops (Unwatch k e)) \<and> (loops (Unwatch k e) ! i = loops e ! i \<or> loops (Unwatch k e) ! i = (loops e ! i)\<lparr>ctxDone := True\<rparr>)" for k
      using assms(3) by (simp add: Unwatch_def cancel_nth split: option.split)
    have w: "i < length (loops (Watch fs k hc e)) \<and>
        (loops (Watch fs k hc e) ! i = loops e ! i \<or> loops (Watch fs k hc e) ! i = (loops e ! i)\<lparr>ctxDone := True\<rparr>)" for k hc
      using assms(3) u [of k] by (simp add: Watch_def Let_def cancel_nth nth_append split: option.split)
    have s: "i < length (loops (StopAll e)) \<and> (loops (StopAll e) ! i = loops e ! i \<or> loops (StopAll e) ! i = (loops e ! i)\<lparr>ctxDone := True\<rparr>)"
      using assms(3) by (simp add: StopAll_def cancelAll_nth)
    show ?thesis
    proof (cases ev)
      case (EWatch k hc)
      then show ?thesis using assms(1) w [of k hc] by simp
    next
      case (EUnwatch k)
      then show ?thesis using assms(1) u [of k] by simp
    next
      case EStopAll
      then show ?thesis using assms(1) s by simp
    next
      case (ETick d)
      then show ?thesis using assms(1,3) by auto
    qed (use None in auto)
  qed
  then show "i < length (loops e')" "loops e' ! i = loops e ! i \<or> loops e' ! i = (loops e ! i)\<lparr>ctxDone := True\<rparr>" by auto
qed

lemma own_step_rank:
  assumes "step fs ev e = Some e'" "loop_of ev = Some i" "ctxDone (loops e ! i)"
  shows "rank (place (loops e' ! i)) < rank (place (loops e ! i))"
proof (cases ev)
  case (ERun k)
  then have s: "i < length (loops e)" "run_step i e = Some e'" using assms by (auto split: if_splits)
  show ?thesis
  proof (cases "place (loops e ! i)")
    case (AtJudge b)
    then show ?thesis using s by (cases "judge (clock e) b (loops e ! i)") (auto simp: run_step_def Let_def split: option.splits)
  qed (use s in \<open>auto simp: run_step_def Let_def split: if_splits\<close>)
next
  case (EDone k)
  then show ?thesis using assms by (auto simp: run_done_def Let_def split: if_splits place.splits)
next
  case (EProbed k c f)
  then show ?thesis using assms by (auto simp: run_probed_def Let_def split: if_splits place.splits)
qed (use assms in auto)

lemma cancelled_countdown:
  assumes "schedule fs es e = Some e'" "i < length (loops e)" "ctxDone (loops e ! i)"
  shows "i < length (loops e') \<and> ctxDone (loops e' ! i) \<and>
    length (filter (\<lambda>ev. loop_of ev = Some i) es) + rank (place (loops e' ! i)) \<le> rank (place (loops e ! i))"
  using assms
proof (induction es arbitrary: e)
  case (Cons ev es)
  then obtain e1 where e1: "step fs ev e = Some e1" "schedule fs es e1 = Some e'" by (auto split: option.splits)
  show ?case
  proof (cases "loop_of ev = Some i")
    case True
    have "i < length (loops e1)" "ctxDone (loops e1 ! i)"
      using step_loop [OF e1(1) True] Cons.prems by (auto simp: loop_step_def)
    then show ?thesis using Cons.IH [OF e1(2)] own_step_rank [OF e1(1) True Cons.prems(3)] True by auto
  next
    case False
    note o = step_others [OF e1(1) False Cons.prems(2)]
    have "ctxDone (loops e1 ! i)" "place (loops e1 ! i) = place (loops e ! i)" using o(2) Cons.prems(3) by auto
    then show ?thesis using Cons.IH [OF e1(2) o(1)] False by simp
  qed
qed simp

lemma cancelled_not_stuck:
  assumes "i < length (loops e)" "ctxDone (loops e ! i)" "place (loops e ! i) \<noteq> AtEnd"
  shows "\<exists>ev. loop_of ev = Some i \<and> step fs ev e \<noteq> None"
proof (cases "place (loops e ! i)")
  case (AtWait t)
  then show ?thesis using assms by (intro exI [of _ "EDone i"]) (simp add: run_done_def)
next
  case AtProbe
  then show ?thesis using assms by (intro exI [of _ "EProbed i 0 False"]) (simp add: run_probed_def)
next
  case (AtJudge b)
  then show ?thesis using assms
    by (intro exI [of _ "ERun i"]) (cases "judge (clock e) b (loops e ! i)", simp add: run_step_def Let_def split: option.split)
qed (use assms in \<open>auto simp: run_step_def Let_def intro!: exI [of _ "ERun i"]\<close>)


section \<open>What a watched instance reports\<close>

text \<open>
  The reference: Docker's rule on the whole history of probes, oldest first, each with the time it was
  judged and whether it passed. Failures since the last pass count, and before any pass only those
  past the start period's deadline.
\<close>

definition docker_state :: "int \<Rightarrow> int \<Rightarrow> (int \<times> bool) list \<Rightarrow> string" where
  "docker_state maxFails dl h =
     (let run = takeWhile (\<lambda>(_, b). \<not> b) (rev h);
          passed = (\<exists>x \<in> set h. snd x);
          counted = (if passed then length run else length (filter (\<lambda>(t, _). dl \<le> t) run))
      in if int counted \<ge> maxFails then StateUnhealthy else if passed then StateHealthy else StateStarting)"

definition run_fails :: "int \<Rightarrow> (int \<times> bool) list \<Rightarrow> nat" where
  "run_fails dl h =
     (let run = takeWhile (\<lambda>(_, b). \<not> b) (rev h)
      in if \<exists>x \<in> set h. snd x then length run else length (filter (\<lambda>(t, _). dl \<le> t) run))"

lemma docker_state_run_fails:
  "docker_state m dl h = (if int (run_fails dl h) \<ge> m then StateUnhealthy
     else if \<exists>x \<in> set h. snd x then StateHealthy else StateStarting)"
  by (simp add: docker_state_def run_fails_def Let_def)

lemma no_pass_run: "\<not> (\<exists>x \<in> set h. snd x) \<Longrightarrow> takeWhile (\<lambda>(_, b). \<not> b) (rev h) = rev h"
  by (subst takeWhile_eq_all_conv) auto

lemma run_fails_pass [simp]: "run_fails dl (h @ [(t, True)]) = 0"
  by (simp add: run_fails_def)

lemma run_fails_fail [simp]:
  "run_fails dl (h @ [(t, False)]) = (if (\<exists>x \<in> set h. snd x) \<or> dl \<le> t then run_fails dl h + 1 else run_fails dl h)"
  by (auto simp: run_fails_def Let_def)

lemma run_fails_early:
  assumes "\<not> (\<exists>x \<in> set h. snd x)" "\<forall>x \<in> set h. fst x < dl"
  shows "run_fails dl h = 0"
proof -
  have "filter (\<lambda>(t, _). dl \<le> t) (rev h) = []" using assms(2) by (force simp: filter_empty_conv)
  then show ?thesis unfolding run_fails_def Let_def no_pass_run [OF assms(1)] if_not_P [OF assms(1)] by simp
qed

lemma judge_docker:
  assumes "judge t b l = (l', r)" "1 \<le> retries (lplan l)" "\<forall>x \<in> set h. fst x \<le> t"
    "started l = (\<exists>x \<in> set h. snd x)" "lfails l = int (run_fails (deadline l) h)"
  shows "started l' = (\<exists>x \<in> set (h @ [(t, b)]). snd x)" "lfails l' = int (run_fails (deadline l) (h @ [(t, b)]))"
    "deadline l' = deadline l"
    "case r of None \<Rightarrow> docker_state (retries (lplan l)) (deadline l) (h @ [(t, b)]) = docker_state (retries (lplan l)) (deadline l) h
     | Some s \<Rightarrow> docker_state (retries (lplan l)) (deadline l) (h @ [(t, b)]) = s"
proof -
  have early: "run_fails (deadline l) h = 0" if "\<not> (\<exists>x \<in> set h. snd x)" "t < deadline l"
  proof (rule run_fails_early [OF that(1)])
    show "\<forall>x \<in> set h. fst x < deadline l" using assms(3) that(2) by fastforce
  qed
  show "started l' = (\<exists>x \<in> set (h @ [(t, b)]). snd x)" "lfails l' = int (run_fails (deadline l) (h @ [(t, b)]))"
    "deadline l' = deadline l"
    using assms by (auto simp: judge_def Let_def split: if_splits)
  show "case r of None \<Rightarrow> docker_state (retries (lplan l)) (deadline l) (h @ [(t, b)]) = docker_state (retries (lplan l)) (deadline l) h
     | Some s \<Rightarrow> docker_state (retries (lplan l)) (deadline l) (h @ [(t, b)]) = s"
  proof (cases "\<exists>x \<in> set h. snd x")
    case True
    then have "started l" "\<exists>x \<in> set (h @ [(t, b)]). snd x" using assms(4) by auto
    then show ?thesis using assms(1,2,5) True unfolding docker_state_run_fails by (cases b) (auto simp: judge_def Let_def split: if_splits)
  next
    case False
    then have "\<not> started l" "(\<exists>x \<in> set (h @ [(t, b)]). snd x) = b" using assms(4) by auto
    then show ?thesis using assms(1,2,5) False early [OF False] unfolding docker_state_run_fails
      by (cases b; cases "t < deadline l") (auto simp: judge_def Let_def split: if_splits)
  qed
qed

text \<open>The probes a goroutine judges along a schedule.\<close>

fun probes :: "fscale \<Rightarrow> nat \<Rightarrow> event list \<Rightarrow> engine \<Rightarrow> (int \<times> bool) list" where
  "probes fs i [] e = []"
| "probes fs i (ev # evs) e =
     (case step fs ev e of None \<Rightarrow> []
      | Some e' \<Rightarrow>
          (case place (loops e ! i) of AtJudge b \<Rightarrow> if ev = ERun i then [(clock e, b)] else [] | _ \<Rightarrow> []) @ probes fs i evs e')"

text \<open>An ended goroutine takes no step.\<close>

lemma ended_no_step:
  assumes "loop_of ev = Some i" "place (loops e ! i) = AtEnd"
  shows "step fs ev e = None"
  using assms by (cases ev) (auto simp: run_step_def run_done_def run_probed_def Let_def)

definition leaves :: "string \<Rightarrow> event \<Rightarrow> bool" where
  "leaves iid ev \<longleftrightarrow> (case ev of EWatch k _ \<Rightarrow> k \<noteq> iid | EUnwatch k \<Rightarrow> k \<noteq> iid | EStopAll \<Rightarrow> False | _ \<Rightarrow> True)"

definition others_ended :: "string \<Rightarrow> nat \<Rightarrow> engine \<Rightarrow> bool" where
  "others_ended iid c e \<longleftrightarrow>
     (\<forall>i < length (loops e). i \<noteq> c \<longrightarrow> instanceID (loops e ! i) = iid \<longrightarrow> place (loops e ! i) = AtEnd)"

lemma leaves_maps:
  assumes "step fs ev e = Some e'" "leaves iid ev" "loop_of ev \<noteq> Some c" "others_ended iid c e"
  shows "map_of (watchers e') iid = map_of (watchers e) iid" "State iid e' = State iid e" "clock e \<le> clock e'"
proof -
  have "map_of (watchers e') iid = map_of (watchers e) iid \<and> map_of (states e') iid = map_of (states e) iid \<and> clock e \<le> clock e'"
  proof (cases "loop_of ev")
    case (Some i)
    note s = step_loop [OF assms(1) Some]
    have "place (loops e ! i) \<noteq> AtEnd" using ended_no_step [OF Some] assms(1) by fastforce
    then have "instanceID (loops e ! i) \<noteq> iid" using s assms(3,4) Some by (auto simp: others_ended_def loop_step_def)
    then show ?thesis using s by (auto simp: loop_step_def update_conv')
  next
    case None
    then show ?thesis using assms(1,2)
      by (cases ev) (auto simp: leaves_def Watch_def Unwatch_def Let_def update_conv' delete_conv' split: option.splits)
  qed
  then show "map_of (watchers e') iid = map_of (watchers e) iid" "State iid e' = State iid e" "clock e \<le> clock e'"
    by (simp_all add: State_def)
qed

lemma leaves_others:
  assumes "step fs ev e = Some e'" "leaves iid ev" "others_ended iid c e"
  shows "others_ended iid c e'"
  unfolding others_ended_def
proof (intro allI impI)
  fix i assume i: "i < length (loops e')" "i \<noteq> c" "instanceID (loops e' ! i) = iid"
  consider (own) "loop_of ev = Some i" | (old) "loop_of ev \<noteq> Some i" "i < length (loops e)"
    | (new) "loop_of ev \<noteq> Some i" "\<not> i < length (loops e)" by blast
  then show "place (loops e' ! i) = AtEnd"
  proof cases
    case own
    have "instanceID (loops e ! i) = iid" "i < length (loops e)"
      using step_loop [OF assms(1) own] i by (auto simp: loop_step_def)
    then have "place (loops e ! i) = AtEnd" using assms(3) i(2) by (simp add: others_ended_def)
    then show ?thesis using ended_no_step [OF own] assms(1) by fastforce
  next
    case old
    then show ?thesis using step_others [OF assms(1) old] i assms(3) by (auto simp: others_ended_def)
  next
    case new
    show ?thesis
    proof (cases "loop_of ev")
      case (Some k)
      then show ?thesis using step_loop [OF assms(1) Some] i(1) new by (auto simp: loop_step_def)
    next
      case None
      then show ?thesis using assms(1,2) i new
        by (cases ev) (auto simp: leaves_def Watch_def Unwatch_def goRun_def Let_def nth_append split: option.splits if_splits)
    qed
  qed
qed

text \<open>The variables and the reported state of a watched instance agree with the reference at every point.\<close>

definition tracks :: "string \<Rightarrow> plan \<Rightarrow> nat \<Rightarrow> engine \<Rightarrow> (int \<times> bool) list \<Rightarrow> bool" where
  "tracks iid p c e h \<longleftrightarrow>
     engine_inv e \<and> map_of (watchers e) iid = Some c \<and> lplan (loops e ! c) = p \<and> others_ended iid c e \<and>
     (\<forall>x \<in> set h. fst x \<le> clock e) \<and> (place (loops e ! c) = AtStart \<longrightarrow> h = []) \<and>
     started (loops e ! c) = (\<exists>x \<in> set h. snd x) \<and>
     lfails (loops e ! c) = int (run_fails (deadline (loops e ! c)) h) \<and>
     (case place (loops e ! c) of AtSet s \<Rightarrow> s | _ \<Rightarrow> State iid e) = docker_state (retries p) (deadline (loops e ! c)) h"

lemma tracks_other_step:
  assumes "tracks iid p c e h" "step fs ev e = Some e'" "leaves iid ev" "loop_of ev \<noteq> Some c"
  shows "tracks iid p c e' h"
proof -
  have T: "engine_inv e" "map_of (watchers e) iid = Some c" "others_ended iid c e" using assms(1) by (simp_all add: tracks_def)
  note m = leaves_maps [OF assms(2,3,4) T(3)]
  have i': "engine_inv e'" by (rule inv_step [OF T(1) assms(2)])
  have w': "map_of (watchers e') iid = Some c" using m(1) T(2) by simp
  have "loops e' ! c = loops e ! c"
    using step_others [OF assms(2,4) engine_invD(2) [OF T(1,2)]] engine_invD(4) [OF i' w'] by auto
  then show ?thesis using assms(1) m i' w' leaves_others [OF assms(2,3) T(3)] by (auto simp: tracks_def split: place.splits)
qed

lemma tracks_own_step:
  assumes "tracks iid p c e h" "1 \<le> retries p" "step fs ev e = Some e'" "loop_of ev = Some c"
  shows "tracks iid p c e' (h @ (case place (loops e ! c) of AtJudge b \<Rightarrow> if ev = ERun c then [(clock e, b)] else [] | _ \<Rightarrow> []))"
proof -
  let ?l = "loops e ! c"
  have T: "engine_inv e" "map_of (watchers e) iid = Some c" "others_ended iid c e" "lplan ?l = p"
      "\<forall>x \<in> set h. fst x \<le> clock e" "place ?l = AtStart \<longrightarrow> h = []" "started ?l = (\<exists>x \<in> set h. snd x)"
      "lfails ?l = int (run_fails (deadline ?l) h)"
      "(case place ?l of AtSet s \<Rightarrow> s | _ \<Rightarrow> State iid e) = docker_state (retries p) (deadline ?l) h"
    using assms(1) by (simp_all add: tracks_def)
  note c = engine_invD(2,3,4) [OF T(1,2)]
  have "leaves iid ev" using assms(4) by (cases ev) (auto simp: leaves_def)
  then have K: "engine_inv e'" "others_ended iid c e'" "map_of (watchers e') iid = Some c" "clock e' = clock e"
    using inv_step [OF T(1) assms(3)] leaves_others [OF assms(3) _ T(3)] step_loop [OF assms(3,4)] T(2) by (auto simp: loop_step_def)
  show ?thesis
  proof (cases ev)
    case (ERun k)
    then have r: "run_step c e = Some e'" "ev = ERun c" using assms(3,4) by (auto split: if_splits)
    show ?thesis
    proof (cases "place ?l")
      case (AtJudge b)
      obtain l' q where j: "judge (clock e) b ?l = (l', q)" by fastforce
      have e': "e' = e\<lparr>loops := (loops e)[c := l'\<lparr>place := (case q of None \<Rightarrow> AtTop | Some s \<Rightarrow> AtSet s)\<rparr>]\<rparr>"
        using r(1) AtJudge j by (cases q) (simp_all add: run_step_def Let_def)
      note jd = judge_docker [OF j _ T(5,7,8)]
      show ?thesis using K T jd judge_keeps [OF j] assms(2) AtJudge r(2) c(1)
        by (cases q) (auto simp: tracks_def e' State_def)
    qed (use K T r c in \<open>auto simp: tracks_def run_step_def Let_def State_def setState_def update_conv' docker_state_def run_fails_def split: if_splits\<close>)
  next
    case (EDone k)
    then show ?thesis using assms(3,4) c(3) by (auto simp: run_done_def Let_def split: place.splits if_splits)
  next
    case (EProbed k x y)
    then show ?thesis using assms(3,4) K T c by (auto simp: tracks_def run_probed_def Let_def State_def split: place.splits if_splits)
  qed (use assms(4) in auto)
qed

lemma tracks_schedule:
  assumes "1 \<le> retries p"
  shows "tracks iid p c e h \<Longrightarrow> schedule fs es e = Some e' \<Longrightarrow> list_all (leaves iid) es \<Longrightarrow> tracks iid p c e' (h @ probes fs c es e)"
proof (induction es arbitrary: e h)
  case (Cons ev es)
  then obtain e1 where e1: "step fs ev e = Some e1" "schedule fs es e1 = Some e'" by (auto split: option.splits)
  let ?n = "case place (loops e ! c) of AtJudge b \<Rightarrow> if ev = ERun c then [(clock e, b)] else [] | _ \<Rightarrow> []"
  have n: "tracks iid p c e1 (h @ ?n)"
  proof (cases "loop_of ev = Some c")
    case True
    then show ?thesis by (rule tracks_own_step [OF Cons.prems(1) assms e1(1)])
  next
    case False
    then have "?n = []" by (auto split: place.split)
    moreover have "leaves iid ev" using Cons.prems(3) by simp
    ultimately show ?thesis using tracks_other_step [OF Cons.prems(1) e1(1) _ False] by simp
  qed
  show ?case using Cons.IH [OF n e1(2)] Cons.prems(3) e1(1) by simp
qed simp

lemma tracks_start:
  assumes "engine_inv e" "resolve fs hc = Some p" "others_ended iid (length (loops e)) e"
  shows "tracks iid p (length (loops e)) (Watch fs iid hc e) []"
proof -
  have i: "engine_inv (Watch fs iid hc e)" by (rule inv_Watch [OF assms(1)])
  have r: "1 \<le> retries p" by (rule resolved_plan(6) [OF assms(2)])
  show ?thesis using i r assms(2,3) unfolding tracks_def others_ended_def
    by (auto simp: Watch_def Let_def update_conv' State_def nth_append goRun_def cancel_nth docker_state_def run_fails_def
        split: option.splits if_splits)
qed

lemma unwatched_step:
  assumes "map_of (watchers e) iid = None" "step fs ev e = Some e'" "\<forall>hc. ev \<noteq> EWatch iid hc"
  shows "map_of (watchers e') iid = None"
proof (cases "loop_of ev")
  case (Some i)
  then show ?thesis using step_loop [OF assms(2) Some] assms(1) by (simp add: loop_step_def)
next
  case None
  then show ?thesis using assms
    by (cases ev) (auto simp: Watch_def Unwatch_def StopAll_def Let_def update_conv' delete_conv' split: option.splits)
qed

lemma unwatched_stays:
  "schedule fs es e = Some e' \<Longrightarrow> \<forall>hc. EWatch iid hc \<notin> set es \<Longrightarrow> map_of (watchers e) iid = None \<Longrightarrow> map_of (watchers e') iid = None"
proof (induction es arbitrary: e)
  case (Cons ev es)
  then obtain e1 where e1: "step fs ev e = Some e1" "schedule fs es e1 = Some e'" by (auto split: option.splits)
  have "map_of (watchers e1) iid = None" by (rule unwatched_step [OF Cons.prems(3) e1(1)]) (use Cons.prems(2) in auto)
  then show ?case using Cons.IH [OF e1(2)] Cons.prems(2) by simp
qed simp

section \<open>Properties\<close>

text \<open>C26. The health engine refines Docker's rule under every interleaving. Once an instance is watched
  with a probe to run, and goroutines left over from an earlier watch of it have ended, then after any
  events that neither watch it again nor stop it (ticks, other instances' changes, steps of every
  goroutine, in any order) the state the engine reports is the one Docker's rule gives for the probes
  judged so far, except for the moment between judging a probe and storing its verdict.\<close>

theorem reported_state_is_docker:
  assumes "reaches fs e" "resolve fs hc = Some p" "others_ended iid (length (loops e)) e"
    "schedule fs es (Watch fs iid hc e) = Some e'" "list_all (leaves iid) es"
    "\<forall>s. place (loops e' ! length (loops e)) \<noteq> AtSet s"
  shows "State iid e' = docker_state (retries p) (deadline (loops e' ! length (loops e)))
    (probes fs (length (loops e)) es (Watch fs iid hc e))"
  using tracks_schedule [OF resolved_plan(6) [OF assms(2)] tracks_start [OF reaches_inv [OF assms(1)] assms(2,3)] assms(4,5)] assms(6)
  by (auto simp: tracks_def split: place.splits)

definition hc0 :: "healthcheck option" where
  "hc0 = Some \<lparr>hcTest = [''CMD'', ''true''], hcInterval = '''', hcTimeout = '''', hcStartPeriod = '''', hcStartInterval = '''', hcRetries = 1\<rparr>"

definition plan0 :: plan where
  "plan0 = \<lparr>argv = [''true''], interval = 30000000000, startInterval = 0, timeout = 30000000000, startPeriod = 0, retries = 1\<rparr>"

lemma resolve_hc0: "resolve fs hc0 = Some plan0"
  by (simp add: resolve_def hc0_def plan0_def Disabled_def argvFor_def dur_def Let_def DefaultInterval_def DefaultTimeout_def second_def)

text \<open>One failing probe, with one retry allowed.\<close>

definition failing_probe :: "event list" where
  "failing_probe = [ERun 0, ERun 0, ETick 30000000000, ERun 0, EProbed 0 1 False, ERun 0, ERun 0]"

lemmas run_defs = Watch_def New_def goRun_def run_step_def run_probed_def run_done_def judge_def wait_for_def setState_def
  cancel_def Let_def resolve_hc0 plan0_def StateStarting_def StateHealthy_def StateUnhealthy_def

theorem reported_state_is_docker_witness:
  "\<exists>e'. schedule (\<lambda>_ _ _. 0) failing_probe (Watch (\<lambda>_ _ _. 0) ''web'' hc0 New) = Some e' \<and> State ''web'' e' = ''unhealthy''"
proof -
  let ?fs = "\<lambda>_ _ _. 0 :: nat"
  obtain e' where e': "schedule ?fs failing_probe (Watch ?fs ''web'' hc0 New) = Some e'" "place (loops e' ! 0) = AtTop"
      "deadline (loops e' ! 0) = 0"
    by (simp add: failing_probe_def run_defs)
  have n: "length (loops New) = 0" "others_ended ''web'' 0 New" by (simp_all add: New_def others_ended_def)
  have "State ''web'' e' = docker_state (retries plan0) 0 (probes ?fs 0 failing_probe (Watch ?fs ''web'' hc0 New))"
    using reported_state_is_docker [OF reaches.start resolve_hc0 _ e'(1), unfolded n(1), OF n(2)] e'(2,3)
    by (simp add: failing_probe_def leaves_def)
  also have "probes ?fs 0 failing_probe (Watch ?fs ''web'' hc0 New) = [(30000000000, False)]"
    by (simp add: failing_probe_def run_defs)
  also have "docker_state (retries plan0) 0 [(30000000000, False)] = ''unhealthy''"
    by (simp add: docker_state_def plan0_def StateUnhealthy_def)
  finally show ?thesis using e'(1) by blast
qed

text \<open>Cancelling stops a probe loop. After its context is cancelled, a goroutine takes at most five
  more steps of its own, whatever else happens, and until it has ended one of its steps is always
  possible (its probe returning counts as a step).\<close>

theorem cancelled_loops_end:
  assumes "schedule fs es e = Some e'" "i < length (loops e)" "ctxDone (loops e ! i)"
  shows "length (filter (\<lambda>ev. loop_of ev = Some i) es) \<le> 5 \<and>
    (place (loops e' ! i) = AtEnd \<or> (\<exists>ev. loop_of ev = Some i \<and> step fs ev e' \<noteq> None))"
proof -
  have "rank q \<le> 5" for q by (cases q) simp_all
  then show ?thesis using cancelled_countdown [OF assms] cancelled_not_stuck [of i e' fs]
    by (metis add_leD1 order_trans)
qed

definition watched_then_unwatched :: engine where
  "watched_then_unwatched = Unwatch ''web'' (Watch (\<lambda>_ _ _. 0) ''web'' hc0 New)"

theorem cancelled_loops_end_witness:
  "ctxDone (loops watched_then_unwatched ! 0) \<and>
   (\<exists>e'. schedule (\<lambda>_ _ _. 0) [ERun 0, ERun 0, EDone 0] watched_then_unwatched = Some e' \<and>
     (place (loops e' ! 0) = AtEnd \<or> (\<exists>ev. loop_of ev = Some 0 \<and> step (\<lambda>_ _ _. 0) ev e' \<noteq> None)))"
proof -
  let ?fs = "\<lambda>_ _ _. 0 :: nat"
  have d: "ctxDone (loops watched_then_unwatched ! 0)" "0 < length (loops watched_then_unwatched)"
    by (simp_all add: watched_then_unwatched_def Unwatch_def run_defs)
  obtain e' where e': "schedule ?fs [ERun 0, ERun 0, EDone 0] watched_then_unwatched = Some e'"
    by (simp add: watched_then_unwatched_def Unwatch_def run_defs)
  show ?thesis using cancelled_loops_end [OF e' d(2,1)] d(1) e' by blast
qed

text \<open>C27. A stopped instance stays silent, and the two maps never disagree. In every reachable state an
  instance has a reported state exactly when it is watched, the state is one of Docker's three words,
  exactly one goroutine that is not cancelled serves it and no other instance, and that goroutine has
  not ended. After \<open>Unwatch\<close>, until it is watched again, the instance reports nothing, even when a
  probe started earlier returns late.\<close>

theorem engine_maps_agree:
  assumes "reaches fs e"
  shows "(State iid e \<noteq> '''' \<longleftrightarrow> (\<exists>c. map_of (watchers e) iid = Some c)) \<and>
    State iid e \<in> {'''', ''starting'', ''healthy'', ''unhealthy''} \<and>
    (\<forall>i < length (loops e). (\<not> ctxDone (loops e ! i) \<and> instanceID (loops e ! i) = iid) = (map_of (watchers e) iid = Some i)) \<and>
    (\<forall>c. map_of (watchers e) iid = Some c \<longrightarrow> place (loops e ! c) \<noteq> AtEnd) \<and>
    (\<forall>es e'. schedule fs es (Unwatch iid e) = Some e' \<and> (\<forall>hc. EWatch iid hc \<notin> set es) \<longrightarrow> State iid e' = '''')"
proof (intro conjI)
  note I = engine_invD [OF reaches_inv [OF assms]]
  have v: "s \<in> vocabulary \<Longrightarrow> s \<in> {''starting'', ''healthy'', ''unhealthy''}" for s
    by (auto simp: vocabulary_def StateStarting_def StateHealthy_def StateUnhealthy_def)
  have d: "(map_of (watchers e) iid = None) = (map_of (states e) iid = None)" using I(1) by (metis domIff)
  show "State iid e \<noteq> '''' \<longleftrightarrow> (\<exists>c. map_of (watchers e) iid = Some c)"
    using d I(6) [of iid, THEN v] by (fastforce simp: State_def split: option.splits)
  show "State iid e \<in> {'''', ''starting'', ''healthy'', ''unhealthy''}"
    using I(6) [of iid, THEN v] by (auto simp: State_def split: option.splits)
  show "\<forall>i < length (loops e). (\<not> ctxDone (loops e ! i) \<and> instanceID (loops e ! i) = iid) = (map_of (watchers e) iid = Some i)"
    using I(3,4,5) by blast
  show "\<forall>c. map_of (watchers e) iid = Some c \<longrightarrow> place (loops e ! c) \<noteq> AtEnd" using I(2,4,8) by blast
  show "\<forall>es e'. schedule fs es (Unwatch iid e) = Some e' \<and> (\<forall>hc. EWatch iid hc \<notin> set es) \<longrightarrow> State iid e' = ''''"
  proof (intro allI impI, elim conjE)
    fix es e' assume s: "schedule fs es (Unwatch iid e) = Some e'" "\<forall>hc. EWatch iid hc \<notin> set es"
    have "map_of (watchers (Unwatch iid e)) iid = None" by (simp add: Unwatch_def delete_conv' split: option.split)
    then have w: "map_of (watchers e') iid = None" by (rule unwatched_stays [OF s])
    have "engine_inv e'" by (rule schedule_inv [OF inv_Unwatch [OF reaches_inv [OF assms]] s(1)])
    then have "map_of (states e') iid = None" using w engine_invD(1) by (metis domIff)
    then show "State iid e' = ''''" by (simp add: State_def)
  qed
qed

theorem engine_maps_agree_witness:
  "reaches (\<lambda>_ _ _. 0) (Watch (\<lambda>_ _ _. 0) ''web'' hc0 New) \<and> State ''web'' (Watch (\<lambda>_ _ _. 0) ''web'' hc0 New) = ''starting'' \<and>
   State ''web'' (Unwatch ''web'' (Watch (\<lambda>_ _ _. 0) ''web'' hc0 New)) = ''''"
proof -
  let ?fs = "\<lambda>_ _ _. 0 :: nat" and ?e = "Watch (\<lambda>_ _ _. 0) ''web'' hc0 New"
  have r: "reaches ?fs ?e" by (rule reaches.event [OF reaches.start, of _ "EWatch ''web'' hc0"]) simp
  have u: "\<forall>es e'. schedule ?fs es (Unwatch ''web'' ?e) = Some e' \<and> (\<forall>hc. EWatch ''web'' hc \<notin> set es) \<longrightarrow> State ''web'' e' = ''''"
    using engine_maps_agree [OF r, of "''web''"] by blast
  have "State ''web'' (Unwatch ''web'' ?e) = ''''" using u [rule_format, of "[]"] by simp
  then show ?thesis using r by (simp add: State_def run_defs)
qed

text \<open>C28. A verdict can outlive its watch. \<open>setState\<close> asks only whether the instance is watched, not by
  which loop: a probe of the old container judged just before a redeploy replaces the watch is stored
  after it, and the new container is reported healthy before its first probe.\<close>

theorem stale_probe_marks_new_container:
  "\<exists>es e c. schedule fs es New = Some e \<and> map_of (watchers e) ''web'' = Some c \<and>
     place (loops e ! c) = AtStart \<and> State ''web'' e = ''healthy''"
proof -
  let ?es = "[EWatch ''web'' hc0, ERun 0, ERun 0, ETick 30000000000, ERun 0, EProbed 0 0 False,
    EWatch ''web'' hc0, ERun 0, ERun 0]"
  show ?thesis by (intro exI [of _ ?es]) (simp add: run_defs State_def)
qed

end
