(* ===== verification/ComposeMerge.thy ===== *)
theory ComposeMerge
  imports GoStd "HOL-Library.AList"
begin

text \<open>
  Merging of Compose documents (\<open>pkg/compose/merge.go\<close> on the types of \<open>types.go\<close>): the metadata tree that
  says which keys a file wrote and how it tagged them, the merge rule of each kind of field, and the
  merge of services and of top-level definitions built from them.
\<close>

section \<open>Documents\<close>

text \<open>Maps from strings are partial functions; nil and empty maps and slices are one value.\<close>

type_synonym strmap = "string \<rightharpoonup> string"

record port =
  pHost :: int
  pContainer :: int
  pProtocol :: string
  pHostIP :: string

record volume =
  vSource :: string
  vTarget :: string
  vReadOnly :: bool
  vSELinux :: string
  vNamed :: bool
  vNoCreateHostPath :: bool

record env_file_ref =
  efPath :: string
  efRequired :: bool

record service_network =
  snName :: string
  snAliases :: "string list"
  snIPv4Address :: string
  snIPv6Address :: string
  snMacAddress :: string
  snPriority :: int

record ulimit =
  uName :: string
  uSoft :: int
  uHard :: int

record dependency =
  depService :: string
  depCondition :: string
  depRequired :: bool
  depRestart :: bool

text \<open>A grant of a top-level config or secret (\<open>ConfigRef\<close>, \<open>SecretRef\<close>, \<open>BuildSecret\<close> have the same fields).\<close>

record grant_ref =
  grSource :: string
  grTarget :: string
  grUID :: string
  grGID :: string
  grMode :: string

record build =
  bContext :: string
  bDockerfile :: string
  bArgs :: strmap
  bTarget :: string
  bCacheFrom :: "string list"
  bAdditionalContexts :: strmap
  bSecrets :: "grant_ref list"
  bSSH :: "string list"
  bLabels :: strmap
  bNoCache :: bool
  bPull :: bool
  bPlatforms :: "string list"
  bTags :: "string list"
  bNetwork :: string
  bCacheTo :: "string list"
  bExtraHosts :: "string list"
  bShmSize :: string
  bDockerfileInline :: string

record resource_limits =
  rlCpus :: string
  rlMemory :: string

record deploy_resources =
  drLimits :: "resource_limits option"
  drReservations :: "resource_limits option"

record deploy_restart_policy =
  rpCondition :: string
  rpDelay :: string
  rpMaxAttempts :: int
  rpWindow :: string

record update_config =
  ucParallelism :: int
  ucOrder :: string
  ucDelay :: string
  ucMonitor :: string
  ucMaxFailureRatio :: string

record deploy =
  dReplicas :: int
  dResources :: "deploy_resources option"
  dRestartPolicy :: "deploy_restart_policy option"
  dLabels :: strmap
  dUpdateConfig :: "update_config option"

record compose_healthcheck =
  chTest :: "string list"
  chInterval :: string
  chTimeout :: string
  chRetries :: int
  chStartPeriod :: string
  chStartInterval :: string
  chDisable :: bool

record extends =
  exService :: string
  exFile :: string

text \<open>
  A service. The blocks that merging only ever takes as a whole (provider, egress, ingress, telemetry,
  credentials) have a type of their own, a parameter.
\<close>

record 'x service_doc =
  Image :: string
  Build :: "build option"
  Entrypoint :: "string list"
  Command :: "string list"
  Environment :: strmap
  EnvFile :: "env_file_ref list"
  Ports :: "port list"
  Expose :: "int list"
  Volumes :: "volume list"
  Networks :: "service_network list"
  Restart :: string
  DependsOn :: "dependency list"
  Deploy :: "deploy option"
  Healthcheck :: "compose_healthcheck option"
  ContainerName :: string
  Privileged :: bool
  User :: string
  WorkingDir :: string
  Hostname :: string
  Labels :: strmap
  StopSignal :: string
  StopGracePeriod :: string
  Init :: "bool option"
  TTY :: bool
  StdinOpen :: bool
  ReadOnly :: bool
  CapAdd :: "string list"
  CapDrop :: "string list"
  SecurityOpt :: "string list"
  GroupAdd :: "string list"
  Sysctls :: strmap
  ExtraHosts :: "string list"
  DNS :: "string list"
  DNSSearch :: "string list"
  DNSOpt :: "string list"
  Ulimits :: "ulimit list"
  Tmpfs :: "string list"
  Devices :: "string list"
  ShmSize :: string
  PID :: string
  IPC :: string
  MemLimit :: string
  CPUs :: string
  Configs :: "grant_ref list"
  Secrets :: "grant_ref list"
  Profiles :: "string list"
  Extends :: "extends option"
  Provider :: "'x option"
  Egress :: "'x option"
  Ingress :: "'x option"
  AgentForward :: bool
  Telemetry :: "'x option"
  Credentials :: "'x option"
  Shells :: "string list"

record secret_def =
  sdFile :: string
  sdEnvironment :: string
  sdExternal :: bool
  sdName :: string

record config_def =
  cdFile :: string
  cdContent :: string
  cdEnvironment :: string
  cdExternal :: bool
  cdName :: string

record volume_def =
  vdExternal :: bool
  vdName :: string
  vdDriver :: string
  vdDriverOpts :: strmap
  vdLabels :: strmap

record ipam_config =
  ipSubnet :: string
  ipGateway :: string
  ipIPRange :: string

record network_def =
  ndExternal :: bool
  ndName :: string
  ndDriver :: string
  ndDriverOpts :: strmap
  ndIPAM :: "ipam_config list option"
  ndAttachable :: bool
  ndInternal :: bool
  ndEnableIPv6 :: bool
  ndLabels :: strmap

section \<open>Metadata\<close>

text \<open>
  \<open>*yamlMeta\<close>: what a file wrote at a position, None for nil. The fields of a mapping are listed; a key
  has one entry.
\<close>

datatype yaml_meta = Meta (metaReset: bool) (metaOverride: bool) (metaFields: "(string \<times> yaml_meta) list")

type_synonym meta = "yaml_meta option"

definition meta_at :: "meta \<Rightarrow> string \<Rightarrow> meta" where
  "meta_at m key = (case m of None \<Rightarrow> None | Some y \<Rightarrow> map_of (metaFields y) key)"

definition has_key :: "meta \<Rightarrow> string \<Rightarrow> bool" where
  "has_key m key \<longleftrightarrow> meta_at m key \<noteq> None"

definition cleared :: "meta \<Rightarrow> bool" where
  "cleared m \<longleftrightarrow> (case m of None \<Rightarrow> False | Some y \<Rightarrow> metaReset y)"

definition replaced :: "meta \<Rightarrow> bool" where
  "replaced m \<longleftrightarrow> (case m of None \<Rightarrow> False | Some y \<Rightarrow> metaOverride y)"

section \<open>The merge rules\<close>

text \<open>\<open>overrideScalar\<close> takes the zero value of its type as an argument.\<close>

definition overrideScalar :: "'a \<Rightarrow> meta \<Rightarrow> string \<Rightarrow> 'a \<Rightarrow> 'a \<Rightarrow> 'a" where
  "overrideScalar zero m key base override =
     (if has_key m key then override else if override \<noteq> zero then override else base)"

abbreviation overrideString :: "meta \<Rightarrow> string \<Rightarrow> string \<Rightarrow> string \<Rightarrow> string" where
  "overrideString \<equiv> overrideScalar ''''"

abbreviation overrideBool :: "meta \<Rightarrow> string \<Rightarrow> bool \<Rightarrow> bool \<Rightarrow> bool" where
  "overrideBool \<equiv> overrideScalar False"

abbreviation overrideInt :: "meta \<Rightarrow> string \<Rightarrow> int \<Rightarrow> int \<Rightarrow> int" where
  "overrideInt \<equiv> overrideScalar 0"

definition overridePtr :: "meta \<Rightarrow> string \<Rightarrow> 'a option \<Rightarrow> 'a option \<Rightarrow> 'a option" where
  "overridePtr m key base override =
     (if has_key m key then override else if override \<noteq> None then override else base)"

definition overrideWhole :: "meta \<Rightarrow> string \<Rightarrow> 'a list \<Rightarrow> 'a list \<Rightarrow> 'a list" where
  "overrideWhole m key base override =
     (if has_key m key then override else if length override > 0 then override else base)"

text \<open>\<open>appendDedup\<close>: the values already in the output are the ones seen.\<close>

fun dedup_onto :: "'a list \<Rightarrow> 'a list \<Rightarrow> 'a list" where
  "dedup_onto out [] = out"
| "dedup_onto out (v # vs) = (if v \<in> set out then dedup_onto out vs else dedup_onto (out @ [v]) vs)"

definition appendDedup :: "'a list \<Rightarrow> 'a list \<Rightarrow> 'a list" where
  "appendDedup base override = dedup_onto (dedup_onto [] base) override"

definition mergeSeq :: "meta \<Rightarrow> string \<Rightarrow> 'a list \<Rightarrow> 'a list \<Rightarrow> 'a list" where
  "mergeSeq m key base override =
     (let c = meta_at m key in
      if cleared c then [] else if replaced c then appendDedup [] override else appendDedup base override)"

definition mergeStringMap :: "strmap \<Rightarrow> strmap \<Rightarrow> strmap" where
  "mergeStringMap base override = base ++ override"

definition mergeMapping :: "meta \<Rightarrow> string \<Rightarrow> strmap \<Rightarrow> strmap \<Rightarrow> strmap" where
  "mergeMapping m key base override =
     (let c = meta_at m key in
      if cleared c then Map.empty else if replaced c then mergeStringMap Map.empty override else mergeStringMap base override)"

text \<open>
  Lists keyed by a name. The index of the output maps a name to its last position; an entry of the
  override is combined with the one of its name, or appended and indexed.
\<close>

fun name_index :: "('a \<Rightarrow> string) \<Rightarrow> nat \<Rightarrow> 'a list \<Rightarrow> (string \<rightharpoonup> nat) \<Rightarrow> (string \<rightharpoonup> nat)" where
  "name_index nm i [] idx = idx"
| "name_index nm i (x # xs) idx = name_index nm (Suc i) xs (idx(nm x \<mapsto> i))"

fun named_loop :: "('a \<Rightarrow> string) \<Rightarrow> ('a \<Rightarrow> 'a \<Rightarrow> 'a) \<Rightarrow> 'a list \<Rightarrow> (string \<rightharpoonup> nat) \<Rightarrow> 'a list \<Rightarrow> 'a list" where
  "named_loop nm comb out idx [] = out"
| "named_loop nm comb out idx (x # xs) =
     (case idx (nm x) of
        Some i \<Rightarrow> named_loop nm comb (out[i := comb (out ! i) x]) idx xs
      | None \<Rightarrow> named_loop nm comb (out @ [x]) (idx(nm x \<mapsto> length out)) xs)"

definition merge_named :: "('a \<Rightarrow> string) \<Rightarrow> ('a \<Rightarrow> 'a \<Rightarrow> 'a) \<Rightarrow> meta \<Rightarrow> 'a list \<Rightarrow> 'a list \<Rightarrow> 'a list" where
  "merge_named nm comb m base override =
     (if cleared m then []
      else let base = (if replaced m then [] else base) in
        named_loop nm comb base (name_index nm 0 base Map.empty) override)"

definition merge_network :: "meta \<Rightarrow> service_network \<Rightarrow> service_network \<Rightarrow> service_network" where
  "merge_network m out sn =
     (let nm = meta_at m (snName sn) in
      out\<lparr>snAliases := mergeSeq nm ''aliases'' (snAliases out) (snAliases sn),
          snIPv4Address := overrideString nm ''ipv4_address'' (snIPv4Address out) (snIPv4Address sn),
          snIPv6Address := overrideString nm ''ipv6_address'' (snIPv6Address out) (snIPv6Address sn),
          snMacAddress := overrideString nm ''mac_address'' (snMacAddress out) (snMacAddress sn),
          snPriority := overrideInt nm ''priority'' (snPriority out) (snPriority sn)\<rparr>)"

definition mergeServiceNetworks :: "meta \<Rightarrow> service_network list \<Rightarrow> service_network list \<Rightarrow> service_network list" where
  "mergeServiceNetworks m base override = merge_named snName (merge_network m) m base override"

definition mergeUlimits :: "meta \<Rightarrow> ulimit list \<Rightarrow> ulimit list \<Rightarrow> ulimit list" where
  "mergeUlimits m base override = merge_named uName (\<lambda>_ u. u) m base override"

definition mergeDependsOn :: "meta \<Rightarrow> dependency list \<Rightarrow> dependency list \<Rightarrow> dependency list" where
  "mergeDependsOn m base override = merge_named depService (\<lambda>_ d. d) m base override"

text \<open>The prologue the merges of nested blocks share: tags first, then nil on either side.\<close>

definition merge_block :: "(meta \<Rightarrow> 'a \<Rightarrow> 'a \<Rightarrow> 'a) \<Rightarrow> meta \<Rightarrow> 'a option \<Rightarrow> 'a option \<Rightarrow> 'a option" where
  "merge_block merge m base override =
     (if cleared m then None
      else if replaced m then override
      else case base of None \<Rightarrow> override
        | Some b \<Rightarrow> (case override of None \<Rightarrow> base | Some v \<Rightarrow> Some (merge m b v)))"

definition mergeBuild :: "meta \<Rightarrow> build option \<Rightarrow> build option \<Rightarrow> build option" where
  "mergeBuild = merge_block (\<lambda>m base override. \<lparr>
     bContext = overrideString m ''context'' (bContext base) (bContext override),
     bDockerfile = overrideString m ''dockerfile'' (bDockerfile base) (bDockerfile override),
     bArgs = mergeMapping m ''args'' (bArgs base) (bArgs override),
     bTarget = overrideString m ''target'' (bTarget base) (bTarget override),
     bCacheFrom = mergeSeq m ''cache_from'' (bCacheFrom base) (bCacheFrom override),
     bAdditionalContexts = mergeMapping m ''additional_contexts'' (bAdditionalContexts base) (bAdditionalContexts override),
     bSecrets = mergeSeq m ''secrets'' (bSecrets base) (bSecrets override),
     bSSH = mergeSeq m ''ssh'' (bSSH base) (bSSH override),
     bLabels = mergeMapping m ''labels'' (bLabels base) (bLabels override),
     bNoCache = overrideBool m ''no_cache'' (bNoCache base) (bNoCache override),
     bPull = overrideBool m ''pull'' (bPull base) (bPull override),
     bPlatforms = mergeSeq m ''platforms'' (bPlatforms base) (bPlatforms override),
     bTags = mergeSeq m ''tags'' (bTags base) (bTags override),
     bNetwork = overrideString m ''network'' (bNetwork base) (bNetwork override),
     bCacheTo = mergeSeq m ''cache_to'' (bCacheTo base) (bCacheTo override),
     bExtraHosts = mergeSeq m ''extra_hosts'' (bExtraHosts base) (bExtraHosts override),
     bShmSize = overrideString m ''shm_size'' (bShmSize base) (bShmSize override),
     bDockerfileInline = overrideString m ''dockerfile_inline'' (bDockerfileInline base) (bDockerfileInline override)\<rparr>)"

definition mergeResourceLimits :: "meta \<Rightarrow> resource_limits option \<Rightarrow> resource_limits option \<Rightarrow> resource_limits option" where
  "mergeResourceLimits = merge_block (\<lambda>m base override. \<lparr>
     rlCpus = overrideString m ''cpus'' (rlCpus base) (rlCpus override),
     rlMemory = overrideString m ''memory'' (rlMemory base) (rlMemory override)\<rparr>)"

definition mergeDeployResources :: "meta \<Rightarrow> deploy_resources option \<Rightarrow> deploy_resources option \<Rightarrow> deploy_resources option" where
  "mergeDeployResources = merge_block (\<lambda>m base override. \<lparr>
     drLimits = mergeResourceLimits (meta_at m ''limits'') (drLimits base) (drLimits override),
     drReservations = mergeResourceLimits (meta_at m ''reservations'') (drReservations base) (drReservations override)\<rparr>)"

definition mergeDeployRestartPolicy :: "meta \<Rightarrow> deploy_restart_policy option \<Rightarrow> deploy_restart_policy option \<Rightarrow> deploy_restart_policy option" where
  "mergeDeployRestartPolicy = merge_block (\<lambda>m base override. \<lparr>
     rpCondition = overrideString m ''condition'' (rpCondition base) (rpCondition override),
     rpDelay = overrideString m ''delay'' (rpDelay base) (rpDelay override),
     rpMaxAttempts = overrideInt m ''max_attempts'' (rpMaxAttempts base) (rpMaxAttempts override),
     rpWindow = overrideString m ''window'' (rpWindow base) (rpWindow override)\<rparr>)"

definition mergeUpdateConfig :: "meta \<Rightarrow> update_config option \<Rightarrow> update_config option \<Rightarrow> update_config option" where
  "mergeUpdateConfig = merge_block (\<lambda>m base override. \<lparr>
     ucParallelism = overrideInt m ''parallelism'' (ucParallelism base) (ucParallelism override),
     ucOrder = overrideString m ''order'' (ucOrder base) (ucOrder override),
     ucDelay = overrideString m ''delay'' (ucDelay base) (ucDelay override),
     ucMonitor = overrideString m ''monitor'' (ucMonitor base) (ucMonitor override),
     ucMaxFailureRatio = overrideString m ''max_failure_ratio'' (ucMaxFailureRatio base) (ucMaxFailureRatio override)\<rparr>)"

definition mergeDeploy :: "meta \<Rightarrow> deploy option \<Rightarrow> deploy option \<Rightarrow> deploy option" where
  "mergeDeploy = merge_block (\<lambda>m base override. \<lparr>
     dReplicas = overrideInt m ''replicas'' (dReplicas base) (dReplicas override),
     dResources = mergeDeployResources (meta_at m ''resources'') (dResources base) (dResources override),
     dRestartPolicy = mergeDeployRestartPolicy (meta_at m ''restart_policy'') (dRestartPolicy base) (dRestartPolicy override),
     dLabels = mergeMapping m ''labels'' (dLabels base) (dLabels override),
     dUpdateConfig = mergeUpdateConfig (meta_at m ''update_config'') (dUpdateConfig base) (dUpdateConfig override)\<rparr>)"

definition mergeHealthcheck :: "meta \<Rightarrow> compose_healthcheck option \<Rightarrow> compose_healthcheck option \<Rightarrow> compose_healthcheck option" where
  "mergeHealthcheck = merge_block (\<lambda>m base override. \<lparr>
     chTest = overrideWhole m ''test'' (chTest base) (chTest override),
     chInterval = overrideString m ''interval'' (chInterval base) (chInterval override),
     chTimeout = overrideString m ''timeout'' (chTimeout base) (chTimeout override),
     chRetries = overrideInt m ''retries'' (chRetries base) (chRetries override),
     chStartPeriod = overrideString m ''start_period'' (chStartPeriod base) (chStartPeriod override),
     chStartInterval = overrideString m ''start_interval'' (chStartInterval base) (chStartInterval override),
     chDisable = overrideBool m ''disable'' (chDisable base) (chDisable override)\<rparr>)"

text \<open>The merge of a service; \<open>Extends\<close> is the one field it leaves as the base has it.\<close>

definition mergeService :: "meta \<Rightarrow> 'x service_doc \<Rightarrow> 'x service_doc \<Rightarrow> 'x service_doc" where
  "mergeService m base override = \<lparr>
     Image = overrideString m ''image'' (Image base) (Image override),
     Build = mergeBuild (meta_at m ''build'') (Build base) (Build override),
     Entrypoint = overrideWhole m ''entrypoint'' (Entrypoint base) (Entrypoint override),
     Command = overrideWhole m ''command'' (Command base) (Command override),
     Environment = mergeMapping m ''environment'' (Environment base) (Environment override),
     EnvFile = mergeSeq m ''env_file'' (EnvFile base) (EnvFile override),
     Ports = mergeSeq m ''ports'' (Ports base) (Ports override),
     Expose = mergeSeq m ''expose'' (Expose base) (Expose override),
     Volumes = mergeSeq m ''volumes'' (Volumes base) (Volumes override),
     Networks = mergeServiceNetworks (meta_at m ''networks'') (Networks base) (Networks override),
     Restart = overrideString m ''restart'' (Restart base) (Restart override),
     DependsOn = mergeDependsOn (meta_at m ''depends_on'') (DependsOn base) (DependsOn override),
     Deploy = mergeDeploy (meta_at m ''deploy'') (Deploy base) (Deploy override),
     Healthcheck = mergeHealthcheck (meta_at m ''healthcheck'') (Healthcheck base) (Healthcheck override),
     ContainerName = overrideString m ''container_name'' (ContainerName base) (ContainerName override),
     Privileged = overrideBool m ''privileged'' (Privileged base) (Privileged override),
     User = overrideString m ''user'' (User base) (User override),
     WorkingDir = overrideString m ''working_dir'' (WorkingDir base) (WorkingDir override),
     Hostname = overrideString m ''hostname'' (Hostname base) (Hostname override),
     Labels = mergeMapping m ''labels'' (Labels base) (Labels override),
     StopSignal = overrideString m ''stop_signal'' (StopSignal base) (StopSignal override),
     StopGracePeriod = overrideString m ''stop_grace_period'' (StopGracePeriod base) (StopGracePeriod override),
     Init = overridePtr m ''init'' (Init base) (Init override),
     TTY = overrideBool m ''tty'' (TTY base) (TTY override),
     StdinOpen = overrideBool m ''stdin_open'' (StdinOpen base) (StdinOpen override),
     ReadOnly = overrideBool m ''read_only'' (ReadOnly base) (ReadOnly override),
     CapAdd = mergeSeq m ''cap_add'' (CapAdd base) (CapAdd override),
     CapDrop = mergeSeq m ''cap_drop'' (CapDrop base) (CapDrop override),
     SecurityOpt = mergeSeq m ''security_opt'' (SecurityOpt base) (SecurityOpt override),
     GroupAdd = mergeSeq m ''group_add'' (GroupAdd base) (GroupAdd override),
     Sysctls = mergeMapping m ''sysctls'' (Sysctls base) (Sysctls override),
     ExtraHosts = mergeSeq m ''extra_hosts'' (ExtraHosts base) (ExtraHosts override),
     DNS = mergeSeq m ''dns'' (DNS base) (DNS override),
     DNSSearch = mergeSeq m ''dns_search'' (DNSSearch base) (DNSSearch override),
     DNSOpt = mergeSeq m ''dns_opt'' (DNSOpt base) (DNSOpt override),
     Ulimits = mergeUlimits (meta_at m ''ulimits'') (Ulimits base) (Ulimits override),
     Tmpfs = mergeSeq m ''tmpfs'' (Tmpfs base) (Tmpfs override),
     Devices = mergeSeq m ''devices'' (Devices base) (Devices override),
     ShmSize = overrideString m ''shm_size'' (ShmSize base) (ShmSize override),
     PID = overrideString m ''pid'' (PID base) (PID override),
     IPC = overrideString m ''ipc'' (IPC base) (IPC override),
     MemLimit = overrideString m ''mem_limit'' (MemLimit base) (MemLimit override),
     CPUs = overrideString m ''cpus'' (CPUs base) (CPUs override),
     Configs = mergeSeq m ''configs'' (Configs base) (Configs override),
     Secrets = mergeSeq m ''secrets'' (Secrets base) (Secrets override),
     Profiles = mergeSeq m ''profiles'' (Profiles base) (Profiles override),
     Extends = Extends base,
     Provider = overridePtr m ''provider'' (Provider base) (Provider override),
     Egress = overridePtr m ''x-cornus-egress'' (Egress base) (Egress override),
     Ingress = overridePtr m ''x-cornus-ingress'' (Ingress base) (Ingress override),
     AgentForward = overrideBool m ''x-cornus-agent-forward'' (AgentForward base) (AgentForward override),
     Telemetry = overridePtr m ''x-cornus-telemetry'' (Telemetry base) (Telemetry override),
     Credentials = overridePtr m ''x-cornus-credentials'' (Credentials base) (Credentials override),
     Shells = overrideWhole m ''x-cornus-shells'' (Shells base) (Shells override)\<rparr>"

definition mergeSecretDef :: "meta \<Rightarrow> secret_def \<Rightarrow> secret_def \<Rightarrow> secret_def" where
  "mergeSecretDef m base override =
     (if replaced m then override else
      \<lparr>sdFile = overrideString m ''file'' (sdFile base) (sdFile override),
       sdEnvironment = overrideString m ''environment'' (sdEnvironment base) (sdEnvironment override),
       sdExternal = overrideBool m ''external'' (sdExternal base) (sdExternal override),
       sdName = overrideString m ''name'' (sdName base) (sdName override)\<rparr>)"

definition mergeConfigDef :: "meta \<Rightarrow> config_def \<Rightarrow> config_def \<Rightarrow> config_def" where
  "mergeConfigDef m base override =
     (if replaced m then override else
      \<lparr>cdFile = overrideString m ''file'' (cdFile base) (cdFile override),
       cdContent = overrideString m ''content'' (cdContent base) (cdContent override),
       cdEnvironment = overrideString m ''environment'' (cdEnvironment base) (cdEnvironment override),
       cdExternal = overrideBool m ''external'' (cdExternal base) (cdExternal override),
       cdName = overrideString m ''name'' (cdName base) (cdName override)\<rparr>)"

definition mergeVolumeDef :: "meta \<Rightarrow> volume_def \<Rightarrow> volume_def \<Rightarrow> volume_def" where
  "mergeVolumeDef m base override =
     (if replaced m then override else
      \<lparr>vdExternal = overrideBool m ''external'' (vdExternal base) (vdExternal override),
       vdName = overrideString m ''name'' (vdName base) (vdName override),
       vdDriver = overrideString m ''driver'' (vdDriver base) (vdDriver override),
       vdDriverOpts = mergeMapping m ''driver_opts'' (vdDriverOpts base) (vdDriverOpts override),
       vdLabels = mergeMapping m ''labels'' (vdLabels base) (vdLabels override)\<rparr>)"

definition mergeNetworkDef :: "meta \<Rightarrow> network_def \<Rightarrow> network_def \<Rightarrow> network_def" where
  "mergeNetworkDef m base override =
     (if replaced m then override else
      \<lparr>ndExternal = overrideBool m ''external'' (ndExternal base) (ndExternal override),
       ndName = overrideString m ''name'' (ndName base) (ndName override),
       ndDriver = overrideString m ''driver'' (ndDriver base) (ndDriver override),
       ndDriverOpts = mergeMapping m ''driver_opts'' (ndDriverOpts base) (ndDriverOpts override),
       ndIPAM = overridePtr m ''ipam'' (ndIPAM base) (ndIPAM override),
       ndAttachable = overrideBool m ''attachable'' (ndAttachable base) (ndAttachable override),
       ndInternal = overrideBool m ''internal'' (ndInternal base) (ndInternal override),
       ndEnableIPv6 = overrideBool m ''enable_ipv6'' (ndEnableIPv6 base) (ndEnableIPv6 override),
       ndLabels = mergeMapping m ''labels'' (ndLabels base) (ndLabels override)\<rparr>)"

section \<open>Sequences\<close>

lemma dedup_onto_append: "dedup_onto out (xs @ ys) = dedup_onto (dedup_onto out xs) ys"
  by (induction out xs rule: dedup_onto.induct) auto

lemma set_dedup_onto [simp]: "set (dedup_onto out vs) = set out \<union> set vs"
  by (induction out vs rule: dedup_onto.induct) auto

lemma dedup_onto_subset: "set vs \<subseteq> set out \<Longrightarrow> dedup_onto out vs = out"
  by (induction vs) auto

lemma dedup_onto_dedup: "dedup_onto out (dedup_onto acc vs) = dedup_onto (dedup_onto out acc) vs"
  by (induction acc vs rule: dedup_onto.induct) (auto simp: dedup_onto_append)

lemma dedup_onto_distinct: "distinct vs \<Longrightarrow> set out \<inter> set vs = {} \<Longrightarrow> dedup_onto out vs = out @ vs"
  by (induction vs arbitrary: out) auto

lemma distinct_dedup_onto: "distinct out \<Longrightarrow> distinct (dedup_onto out vs)"
  by (induction out vs rule: dedup_onto.induct) auto

lemma appendDedup_assoc: "appendDedup (appendDedup a b) c = appendDedup a (appendDedup b c)"
  by (simp add: appendDedup_def dedup_onto_dedup)

lemma appendDedup_again: "appendDedup (appendDedup a b) b = appendDedup a b"
  by (simp add: appendDedup_def dedup_onto_dedup dedup_onto_subset)

lemma appendDedup_self: "distinct b \<Longrightarrow> appendDedup b b = b"
  by (simp add: appendDedup_def dedup_onto_distinct dedup_onto_subset)

lemma appendDedup_Nil: "distinct b \<Longrightarrow> appendDedup [] b = b"
  by (simp add: appendDedup_def dedup_onto_distinct)

section \<open>Lists keyed by name\<close>

definition index_ok :: "('a \<Rightarrow> string) \<Rightarrow> 'a list \<Rightarrow> (string \<rightharpoonup> nat) \<Rightarrow> bool" where
  "index_ok nm out idx \<longleftrightarrow> (\<forall>n i. idx n = Some i \<longleftrightarrow> i < length out \<and> nm (out ! i) = n)"

lemma index_ok_snoc:
  assumes "index_ok nm out idx" "nm x \<notin> nm ` set out"
  shows "index_ok nm (out @ [x]) (idx(nm x \<mapsto> length out))"
  unfolding index_ok_def
proof (intro allI)
  fix n i
  have "i < length out \<Longrightarrow> nm (out ! i) \<noteq> nm x" using assms(2) by (metis imageI nth_mem)
  then show "((idx(nm x \<mapsto> length out)) n = Some i) = (i < length (out @ [x]) \<and> nm ((out @ [x]) ! i) = n)"
    using assms(1) by (cases "n = nm x"; cases "i < length out") (auto simp: index_ok_def nth_append less_Suc_eq)
qed

lemma name_index_ok:
  "index_ok nm out idx \<Longrightarrow> distinct (map nm (out @ xs)) \<Longrightarrow> index_ok nm (out @ xs) (name_index nm (length out) xs idx)"
proof (induction xs arbitrary: out idx)
  case (Cons x xs)
  have "index_ok nm (out @ [x]) (idx(nm x \<mapsto> length out))"
    using index_ok_snoc [OF Cons.prems(1)] Cons.prems(2) by simp
  then show ?case using Cons.IH [of "out @ [x]"] Cons.prems(2) by simp
qed simp

lemma index_ok_empty: "index_ok nm [] Map.empty"
  by (simp add: index_ok_def)

text \<open>The entry of a name, and what the override makes of an entry of the base.\<close>

definition entry :: "('a \<Rightarrow> string) \<Rightarrow> 'a list \<Rightarrow> string \<Rightarrow> 'a option" where
  "entry nm xs n = find (\<lambda>x. nm x = n) xs"

lemma entry_simps [simp]:
  "entry nm [] n = None" "entry nm (x # xs) n = (if nm x = n then Some x else entry nm xs n)"
  by (simp_all add: entry_def)

lemma entry_append: "entry nm (xs @ ys) n = (case entry nm xs n of None \<Rightarrow> entry nm ys n | Some x \<Rightarrow> Some x)"
  by (induction xs) auto

lemma entry_None_iff: "entry nm xs n = None \<longleftrightarrow> n \<notin> nm ` set xs"
  by (induction xs) auto

lemma entry_SomeD: "entry nm xs n = Some x \<Longrightarrow> x \<in> set xs \<and> nm x = n"
  by (induction xs) (auto split: if_splits)

lemma entry_self: "distinct (map nm xs) \<Longrightarrow> x \<in> set xs \<Longrightarrow> entry nm xs (nm x) = Some x"
  by (induction xs) (auto simp: rev_image_eqI)

definition keeps_name :: "('a \<Rightarrow> string) \<Rightarrow> ('a \<Rightarrow> 'a \<Rightarrow> 'a) \<Rightarrow> bool" where
  "keeps_name nm comb \<longleftrightarrow> (\<forall>a b. nm a = nm b \<longrightarrow> nm (comb a b) = nm a)"

definition overlay :: "('a \<Rightarrow> string) \<Rightarrow> ('a \<Rightarrow> 'a \<Rightarrow> 'a) \<Rightarrow> 'a list \<Rightarrow> 'a \<Rightarrow> 'a" where
  "overlay nm comb xs b = (case entry nm xs (nm b) of None \<Rightarrow> b | Some x \<Rightarrow> comb b x)"

lemma overlay_name: "keeps_name nm comb \<Longrightarrow> nm (overlay nm comb xs b) = nm b"
  by (auto simp: overlay_def keeps_name_def dest!: entry_SomeD split: option.split)

lemma named_loop_spec:
  assumes "keeps_name nm comb"
  shows "index_ok nm out idx \<Longrightarrow> distinct (map nm xs) \<Longrightarrow>
    named_loop nm comb out idx xs = map (overlay nm comb xs) out @ filter (\<lambda>x. nm x \<notin> nm ` set out) xs"
proof (induction xs arbitrary: out idx)
  case Nil
  then show ?case by (simp add: overlay_def [abs_def])
next
  case (Cons x xs)
  note d = Cons.prems(2)
  show ?case
  proof (cases "idx (nm x)")
    case (Some i)
    then have i: "i < length out" "nm (out ! i) = nm x" using Cons.prems(1) by (auto simp: index_ok_def)
    let ?out = "out[i := comb (out ! i) x]"
    have same: "nm (?out ! j) = nm (out ! j)" if "j < length out" for j
      using that i assms by (auto simp: nth_list_update keeps_name_def)
    then have ok: "index_ok nm ?out idx" using Cons.prems(1) by (auto simp: index_ok_def)
    have "map nm ?out = map nm out" by (rule nth_equalityI) (use same in auto)
    then have img: "nm ` set ?out = nm ` set out" by (metis list.set_map)
    have only: "j = i" if "j < length out" "nm (out ! j) = nm x" for j
    proof -
      have "idx (nm x) = Some j" using that Cons.prems(1) by (simp add: index_ok_def)
      then show ?thesis using Some by simp
    qed
    have none: "entry nm xs (nm x) = None" using d by (simp add: entry_None_iff)
    have "map (overlay nm comb xs) ?out = map (overlay nm comb (x # xs)) out"
    proof (rule nth_equalityI)
      fix j assume j: "j < length (map (overlay nm comb xs) ?out)"
      show "map (overlay nm comb xs) ?out ! j = map (overlay nm comb (x # xs)) out ! j"
      proof (cases "j = i")
        case True
        have "nm (comb (out ! i) x) = nm x" using assms i(2) by (simp add: keeps_name_def)
        then show ?thesis using True i none by (simp add: overlay_def)
      next
        case False
        then have "nm x \<noteq> nm (out ! j)" using only [of j] j by fastforce
        then show ?thesis using j False by (simp add: overlay_def)
      qed
    qed simp
    moreover have "nm x \<in> nm ` set out" using i by (metis imageI nth_mem)
    ultimately show ?thesis using Cons.IH [OF ok] d Some img by simp
  next
    case None
    have "nm (out ! i) \<noteq> nm x" if "i < length out" for i
    proof
      assume "nm (out ! i) = nm x"
      then have "idx (nm x) = Some i" using that Cons.prems(1) by (simp add: index_ok_def)
      then show False using None by simp
    qed
    then have fresh: "nm x \<notin> nm ` set out" by (force simp: in_set_conv_nth)
    have ok: "index_ok nm (out @ [x]) (idx(nm x \<mapsto> length out))"
      by (rule index_ok_snoc [OF Cons.prems(1) fresh])
    have "map (overlay nm comb xs) out = map (overlay nm comb (x # xs)) out"
      using fresh by (auto simp: overlay_def)
    moreover have "entry nm xs (nm x) = None" using d by (simp add: entry_None_iff)
    then have "overlay nm comb xs x = x" by (simp add: overlay_def)
    moreover have "filter (\<lambda>y. nm y \<notin> nm ` set (out @ [x])) xs = filter (\<lambda>y. nm y \<notin> nm ` set out) xs"
      using d by (intro filter_cong) (auto simp: rev_image_eqI)
    moreover have "named_loop nm comb out idx (x # xs) =
        map (overlay nm comb xs) (out @ [x]) @ filter (\<lambda>y. nm y \<notin> nm ` set (out @ [x])) xs"
      unfolding named_loop.simps None option.case by (rule Cons.IH [OF ok]) (use d in simp)
    ultimately show ?thesis using fresh by simp
  qed
qed

text \<open>
  On lists without repeated names the merge keeps the base's order, combines the entries both have
  and appends the others.
\<close>

lemma merge_named_spec:
  assumes "keeps_name nm comb" "\<not> cleared m" "distinct (map nm base)" "distinct (map nm xs)"
  shows "merge_named nm comb m base xs =
    (if replaced m then xs else map (overlay nm comb xs) base @ filter (\<lambda>x. nm x \<notin> nm ` set base) xs)"
proof -
  have "index_ok nm base (name_index nm 0 base Map.empty)"
    using name_index_ok [OF index_ok_empty [of nm], of base] assms(3) by simp
  then show ?thesis using named_loop_spec [OF assms(1)] index_ok_empty [of nm] assms(2,4)
    by (simp add: merge_named_def Let_def)
qed

lemma merge_named_names:
  assumes "keeps_name nm comb" "\<not> cleared m" "distinct (map nm base)" "distinct (map nm xs)"
  shows "distinct (map nm (merge_named nm comb m base xs))"
proof -
  let ?new = "filter (\<lambda>x. nm x \<notin> nm ` set base) xs"
  have m: "map nm (map (overlay nm comb xs) base @ ?new) = map nm base @ map nm ?new"
    by (simp add: overlay_name [OF assms(1)])
  have "distinct (map nm ?new)" by (rule distinct_map_filter [OF assms(4)])
  moreover have "set (map nm base) \<inter> set (map nm ?new) = {}"
  proof (rule equals0I)
    fix n assume n: "n \<in> set (map nm base) \<inter> set (map nm ?new)"
    have "n \<in> nm ` set base" using IntD1 [OF n] by simp
    moreover obtain y where "y \<in> set ?new" "n = nm y" using IntD2 [OF n] unfolding set_map by (rule imageE)
    ultimately show False by simp
  qed
  ultimately have "distinct (map nm base @ map nm ?new)" using assms(3) by (simp only: distinct_append)
  then have "distinct (map nm (map (overlay nm comb xs) base @ ?new))" unfolding m .
  then show ?thesis unfolding merge_named_spec [OF assms] using assms(4) by (cases "replaced m") simp_all
qed

lemma merge_named_again:
  assumes "keeps_name nm comb" "\<not> cleared m" "distinct (map nm base)" "distinct (map nm xs)"
    "\<And>a x. x \<in> set xs \<Longrightarrow> nm a = nm x \<Longrightarrow> comb (comb a x) x = comb a x" "\<And>x. x \<in> set xs \<Longrightarrow> comb x x = x"
  shows "merge_named nm comb m (merge_named nm comb m base xs) xs = merge_named nm comb m base xs"
proof (cases "replaced m")
  case True
  then show ?thesis using merge_named_spec [OF assms(1,2) _ assms(4)] assms(3,4) by simp
next
  case False
  let ?r = "map (overlay nm comb xs) base @ filter (\<lambda>x. nm x \<notin> nm ` set base) xs"
  have r: "merge_named nm comb m base xs = ?r" using merge_named_spec [OF assms(1-4)] False by simp
  have d: "distinct (map nm ?r)" using merge_named_names [OF assms(1-4)] r by simp
  have "overlay nm comb xs (overlay nm comb xs b) = overlay nm comb xs b" for b
    using overlay_name [OF assms(1), of xs b] assms(5)
    by (auto simp: overlay_def split: option.split dest: entry_SomeD)
  moreover have "overlay nm comb xs x = x" if "x \<in> set xs" for x
    using that assms(6) entry_self [OF assms(4) that] by (simp add: overlay_def)
  ultimately have "map (overlay nm comb xs) ?r = ?r" by (intro map_idI) auto
  moreover have "nm ` set ?r = nm ` set base \<union> nm ` set xs"
    using overlay_name [OF assms(1)] by (auto simp: image_image image_Un)
  then have "filter (\<lambda>x. nm x \<notin> nm ` set ?r) xs = []" by (simp add: filter_empty_conv)
  ultimately show ?thesis using merge_named_spec [OF assms(1,2) d assms(4)] r False by simp
qed

lemma entry_map_overlay:
  "keeps_name nm comb \<Longrightarrow> entry nm (map (overlay nm comb c) b) n = map_option (overlay nm comb c) (entry nm b n)"
  by (induction b) (auto simp: overlay_name)

lemma entry_filter: "n \<notin> S \<Longrightarrow> entry nm (filter (\<lambda>x. nm x \<notin> S) c) n = entry nm c n"
  by (induction c) auto

lemma merge_named_assoc:
  assumes "keeps_name nm comb" "distinct (map nm a)" "distinct (map nm b)" "distinct (map nm c)"
    "\<And>x y z. comb (comb x y) z = comb x (comb y z)"
  shows "merge_named nm comb None (merge_named nm comb None a b) c = merge_named nm comb None a (merge_named nm comb None b c)"
proof -
  have t: "\<not> cleared None" "\<not> replaced None" by (simp_all add: cleared_def replaced_def)
  note spec = merge_named_spec [OF assms(1) t(1)]
  let ?o = "overlay nm comb"
  have ab: "merge_named nm comb None a b = map (?o b) a @ filter (\<lambda>x. nm x \<notin> nm ` set a) b"
    and bc: "merge_named nm comb None b c = map (?o c) b @ filter (\<lambda>x. nm x \<notin> nm ` set b) c"
    using spec assms(2-4) t(2) by simp_all
  have names: "nm ` set (merge_named nm comb None a b) = nm ` set a \<union> nm ` set b"
    using overlay_name [OF assms(1)] by (auto simp: ab image_image image_Un)
  have over: "?o c (?o b x) = ?o (merge_named nm comb None b c) x" for x
  proof (cases "entry nm b (nm x)")
    case None
    then have "entry nm (merge_named nm comb None b c) (nm x) = entry nm c (nm x)"
      using entry_None_iff [of nm b "nm x"] by (simp add: bc entry_append entry_map_overlay [OF assms(1)] entry_filter)
    then show ?thesis using None by (simp add: overlay_def)
  next
    case (Some y)
    then have y: "nm y = nm x" using entry_SomeD by fastforce
    have "entry nm (merge_named nm comb None b c) (nm x) = Some (?o c y)"
      using Some by (simp add: bc entry_append entry_map_overlay [OF assms(1)])
    moreover have "nm (comb x y) = nm x" using assms(1) y by (simp add: keeps_name_def)
    ultimately show ?thesis using Some y assms(5) by (simp add: overlay_def split: option.split)
  qed
  have "filter (\<lambda>x. nm x \<notin> nm ` set a) (map (?o c) b) = map (?o c) (filter (\<lambda>x. nm x \<notin> nm ` set a) b)"
    by (simp add: filter_map comp_def overlay_name [OF assms(1)])
  moreover have "filter (\<lambda>x. nm x \<notin> nm ` set a \<union> nm ` set b) c = filter (\<lambda>x. nm x \<notin> nm ` set a) (filter (\<lambda>x. nm x \<notin> nm ` set b) c)"
    by (simp add: conj_commute)
  moreover have "map (?o c) (map (?o b) a) = map (?o (merge_named nm comb None b c)) a" by (simp add: over)
  ultimately show ?thesis
    using spec [OF merge_named_names [OF assms(1) t(1) assms(2,3)] assms(4)]
      spec [OF assms(2) merge_named_names [OF assms(1) t(1) assms(3,4)]] t(2) names
    by (simp add: bc) (simp add: ab)
qed

section \<open>Laws of the merge\<close>

lemma nil_meta [simp]: "meta_at None k = None" "\<not> has_key None k" "\<not> cleared None" "\<not> replaced None"
  by (simp_all add: meta_at_def has_key_def cleared_def replaced_def)

lemma map_add_twice: "g ++ g = g" "f ++ g ++ g = f ++ g"
  by (auto simp: map_add_def fun_eq_iff split: option.split)

lemma override_assoc [simp]:
  "overrideScalar z None k (overrideScalar z None k a b) c = overrideScalar z None k a (overrideScalar z None k b c)"
  "overridePtr None k (overridePtr None k p q) r = overridePtr None k p (overridePtr None k q r)"
  "overrideWhole None k (overrideWhole None k u v) w = overrideWhole None k u (overrideWhole None k v w)"
  "mergeSeq None k (mergeSeq None k u v) w = mergeSeq None k u (mergeSeq None k v w)"
  "mergeMapping None k (mergeMapping None k f g) h = mergeMapping None k f (mergeMapping None k g h)"
  by (auto simp: overrideScalar_def overridePtr_def overrideWhole_def mergeSeq_def mergeMapping_def mergeStringMap_def appendDedup_assoc)

lemma override_again [simp]:
  "overrideScalar z m k (overrideScalar z m k a b) b = overrideScalar z m k a b"
  "overridePtr m k (overridePtr m k p q) q = overridePtr m k p q"
  "overrideWhole m k (overrideWhole m k u v) v = overrideWhole m k u v"
  "mergeSeq m k (mergeSeq m k u v) v = mergeSeq m k u v"
  "mergeMapping m k (mergeMapping m k f g) g = mergeMapping m k f g"
  by (simp_all add: overrideScalar_def overridePtr_def overrideWhole_def mergeSeq_def mergeMapping_def mergeStringMap_def
      appendDedup_again map_add_twice Let_def)

text \<open>A file without \<open>!reset\<close>; merging a block onto itself.\<close>

fun no_reset :: "yaml_meta \<Rightarrow> bool" where
  "no_reset (Meta r v fs) \<longleftrightarrow> \<not> r \<and> (\<forall>(k, y) \<in> set fs. no_reset y)"

definition resets :: "meta \<Rightarrow> bool" where
  "resets m \<longleftrightarrow> (case m of None \<Rightarrow> False | Some y \<Rightarrow> \<not> no_reset y)"

lemma resets_at [simp]: "\<not> resets m \<Longrightarrow> \<not> resets (meta_at m k)"
  by (cases m; cases "the m") (auto simp: resets_def meta_at_def split: option.splits dest!: map_of_SomeD)

lemma resets_cleared [simp]: "\<not> resets m \<Longrightarrow> \<not> cleared m"
  by (cases m; cases "the m") (auto simp: resets_def cleared_def)

lemma override_self [simp]:
  "overrideScalar z m k b b = b"
  "overrideWhole m k v v = v"
  "\<not> resets m \<Longrightarrow> distinct v \<Longrightarrow> mergeSeq m k v v = v"
  "\<not> resets m \<Longrightarrow> mergeMapping m k g g = g"
  by (simp_all add: overrideScalar_def overrideWhole_def mergeSeq_def mergeMapping_def mergeStringMap_def
      appendDedup_self appendDedup_Nil map_add_twice Let_def)

lemma merge_block_assoc:
  assumes "\<And>x y z. f None (f None x y) z = f None x (f None y z)"
  shows "merge_block f None (merge_block f None a b) c = merge_block f None a (merge_block f None b c)"
  using assms by (cases a; cases b; cases c) (simp_all add: merge_block_def)

lemma merge_block_again:
  assumes "\<And>x y. b = Some y \<Longrightarrow> f m (f m x y) y = f m x y" "\<And>y. b = Some y \<Longrightarrow> f m y y = y"
  shows "merge_block f m (merge_block f m a b) b = merge_block f m a b"
  using assms by (cases a; cases b) (simp_all add: merge_block_def)

lemma merge_block_self:
  assumes "\<And>y. b = Some y \<Longrightarrow> f m y y = y" "\<not> resets m"
  shows "merge_block f m b b = b"
  using assms by (cases b) (simp_all add: merge_block_def)

lemmas block_defs = mergeBuild_def mergeResourceLimits_def mergeDeployResources_def mergeDeployRestartPolicy_def
  mergeUpdateConfig_def mergeDeploy_def mergeHealthcheck_def

lemma blocks_assoc [simp]:
  "mergeBuild None (mergeBuild None a b) c = mergeBuild None a (mergeBuild None b c)"
  "mergeResourceLimits None (mergeResourceLimits None l l') l'' = mergeResourceLimits None l (mergeResourceLimits None l' l'')"
  "mergeDeployRestartPolicy None (mergeDeployRestartPolicy None p p') p'' = mergeDeployRestartPolicy None p (mergeDeployRestartPolicy None p' p'')"
  "mergeUpdateConfig None (mergeUpdateConfig None u u') u'' = mergeUpdateConfig None u (mergeUpdateConfig None u' u'')"
  "mergeHealthcheck None (mergeHealthcheck None h h') h'' = mergeHealthcheck None h (mergeHealthcheck None h' h'')"
  unfolding block_defs by (rule merge_block_assoc, simp)+

lemma resources_assoc [simp]:
  "mergeDeployResources None (mergeDeployResources None a b) c = mergeDeployResources None a (mergeDeployResources None b c)"
  unfolding mergeDeployResources_def by (rule merge_block_assoc) simp

lemma deploy_assoc [simp]: "mergeDeploy None (mergeDeploy None a b) c = mergeDeploy None a (mergeDeploy None b c)"
  unfolding mergeDeploy_def by (rule merge_block_assoc) simp

lemma keyed_names:
  "keeps_name snName (merge_network m)" "keeps_name uName (\<lambda>_ u. u)" "keeps_name depService (\<lambda>_ d. d)"
  by (simp_all add: keeps_name_def merge_network_def Let_def)

text \<open>Documents as the decoders make them: keyed lists name each entry once.\<close>

definition keyed_once :: "'x service_doc \<Rightarrow> bool" where
  "keyed_once s \<longleftrightarrow> distinct (map snName (Networks s)) \<and> distinct (map uName (Ulimits s)) \<and> distinct (map depService (DependsOn s))"

text \<open>A document whose nested sequences have no repeated entry.\<close>

definition build_distinct :: "build \<Rightarrow> bool" where
  "build_distinct b \<longleftrightarrow> distinct (bCacheFrom b) \<and> distinct (bSecrets b) \<and> distinct (bSSH b) \<and> distinct (bPlatforms b) \<and>
     distinct (bTags b) \<and> distinct (bCacheTo b) \<and> distinct (bExtraHosts b)"

definition no_repeats :: "'x service_doc \<Rightarrow> bool" where
  "no_repeats s \<longleftrightarrow> (\<forall>n \<in> set (Networks s). distinct (snAliases n)) \<and> (case Build s of None \<Rightarrow> True | Some b \<Rightarrow> build_distinct b)"

lemma networks_assoc:
  assumes "distinct (map snName a)" "distinct (map snName b)" "distinct (map snName c)"
  shows "mergeServiceNetworks None (mergeServiceNetworks None a b) c = mergeServiceNetworks None a (mergeServiceNetworks None b c)"
  unfolding mergeServiceNetworks_def by (rule merge_named_assoc [OF keyed_names(1) assms]) (simp add: merge_network_def Let_def)

lemma ulimits_assoc:
  assumes "distinct (map uName a)" "distinct (map uName b)" "distinct (map uName c)"
  shows "mergeUlimits None (mergeUlimits None a b) c = mergeUlimits None a (mergeUlimits None b c)"
  unfolding mergeUlimits_def by (rule merge_named_assoc [OF keyed_names(2) assms]) simp

lemma depends_assoc:
  assumes "distinct (map depService a)" "distinct (map depService b)" "distinct (map depService c)"
  shows "mergeDependsOn None (mergeDependsOn None a b) c = mergeDependsOn None a (mergeDependsOn None b c)"
  unfolding mergeDependsOn_def by (rule merge_named_assoc [OF keyed_names(3) assms]) simp

lemma networks_again:
  assumes "\<not> resets m" "distinct (map snName a)" "distinct (map snName b)" "\<forall>n \<in> set b. distinct (snAliases n)"
  shows "mergeServiceNetworks m (mergeServiceNetworks m a b) b = mergeServiceNetworks m a b"
  unfolding mergeServiceNetworks_def
  by (rule merge_named_again [OF keyed_names(1) resets_cleared [OF assms(1)] assms(2,3)]) (use assms(1,4) in \<open>simp_all add: merge_network_def Let_def\<close>)

lemma ulimits_again:
  assumes "\<not> resets m" "distinct (map uName a)" "distinct (map uName b)"
  shows "mergeUlimits m (mergeUlimits m a b) b = mergeUlimits m a b"
  unfolding mergeUlimits_def by (rule merge_named_again [OF keyed_names(2) resets_cleared [OF assms(1)] assms(2,3)]) simp_all

lemma depends_again:
  assumes "\<not> resets m" "distinct (map depService a)" "distinct (map depService b)"
  shows "mergeDependsOn m (mergeDependsOn m a b) b = mergeDependsOn m a b"
  unfolding mergeDependsOn_def by (rule merge_named_again [OF keyed_names(3) resets_cleared [OF assms(1)] assms(2,3)]) simp_all

lemma blocks_self [simp]:
  "\<not> resets m \<Longrightarrow> mergeResourceLimits m l l = l"
  "\<not> resets m \<Longrightarrow> mergeDeployRestartPolicy m p p = p"
  "\<not> resets m \<Longrightarrow> mergeUpdateConfig m u u = u"
  unfolding block_defs by (rule merge_block_self; simp)+

lemma resources_self [simp]: "\<not> resets m \<Longrightarrow> mergeDeployResources m r r = r"
  unfolding mergeDeployResources_def by (rule merge_block_self; simp)

lemma blocks_again [simp]:
  "\<not> resets m \<Longrightarrow> mergeResourceLimits m (mergeResourceLimits m l l') l' = mergeResourceLimits m l l'"
  "\<not> resets m \<Longrightarrow> mergeDeployRestartPolicy m (mergeDeployRestartPolicy m p p') p' = mergeDeployRestartPolicy m p p'"
  "\<not> resets m \<Longrightarrow> mergeUpdateConfig m (mergeUpdateConfig m u u') u' = mergeUpdateConfig m u u'"
  "\<not> resets m \<Longrightarrow> mergeHealthcheck m (mergeHealthcheck m h h') h' = mergeHealthcheck m h h'"
  unfolding block_defs by (rule merge_block_again; simp)+

lemma resources_again [simp]: "\<not> resets m \<Longrightarrow> mergeDeployResources m (mergeDeployResources m a b) b = mergeDeployResources m a b"
  unfolding mergeDeployResources_def by (rule merge_block_again; simp)

lemma deploy_again [simp]: "\<not> resets m \<Longrightarrow> mergeDeploy m (mergeDeploy m a b) b = mergeDeploy m a b"
  unfolding mergeDeploy_def by (rule merge_block_again; simp)

lemma build_again:
  "\<not> resets m \<Longrightarrow> case b of None \<Rightarrow> True | Some x \<Rightarrow> build_distinct x \<Longrightarrow> mergeBuild m (mergeBuild m a b) b = mergeBuild m a b"
  unfolding mergeBuild_def by (rule merge_block_again) (simp_all add: build_distinct_def)

text \<open>C23. Where files are merged without tags or presence information, grouping does not matter: nesting
  one file's services inside another (as include and extends do) and listing the files in order give
  the same service.\<close>

theorem merge_associative:
  assumes "keyed_once a" "keyed_once b" "keyed_once c"
  shows "mergeService None (mergeService None a b) c = mergeService None a (mergeService None b c)"
  using assms by (simp add: mergeService_def keyed_once_def networks_assoc ulimits_assoc depends_assoc)


text \<open>The zero value of a service.\<close>

definition zeroService :: "'x service_doc" where
  "zeroService = \<lparr>Image = '''', Build = None, Entrypoint = [], Command = [], Environment = Map.empty, EnvFile = [], Ports = [],
     Expose = [], Volumes = [], Networks = [], Restart = '''', DependsOn = [], Deploy = None, Healthcheck = None,
     ContainerName = '''', Privileged = False, User = '''', WorkingDir = '''', Hostname = '''', Labels = Map.empty,
     StopSignal = '''', StopGracePeriod = '''', Init = None, TTY = False, StdinOpen = False, ReadOnly = False, CapAdd = [],
     CapDrop = [], SecurityOpt = [], GroupAdd = [], Sysctls = Map.empty, ExtraHosts = [], DNS = [], DNSSearch = [], DNSOpt = [],
     Ulimits = [], Tmpfs = [], Devices = [], ShmSize = '''', PID = '''', IPC = '''', MemLimit = '''', CPUs = '''', Configs = [],
     Secrets = [], Profiles = [], Extends = None, Provider = None, Egress = None, Ingress = None, AgentForward = False,
     Telemetry = None, Credentials = None, Shells = []\<rparr>"

definition web_service :: "unit service_doc" where
  "web_service = zeroService\<lparr>Image := ''web:1'', Expose := [80],
     DependsOn := [\<lparr>depService = ''db'', depCondition = ''service_started'', depRequired = True, depRestart = False\<rparr>]\<rparr>"

definition web_override :: "unit service_doc" where
  "web_override = zeroService\<lparr>Image := ''web:2'', Expose := [80, 443],
     DependsOn := [\<lparr>depService = ''db'', depCondition = ''service_healthy'', depRequired = True, depRestart = False\<rparr>]\<rparr>"

definition web_meta :: meta where
  "web_meta = Some (Meta False False [(''image'', Meta False False []), (''expose'', Meta False True [])])"

lemma web_services: "keyed_once web_service" "keyed_once web_override" "no_repeats web_override" "\<not> resets web_meta"
  by (simp_all add: keyed_once_def no_repeats_def resets_def web_service_def web_override_def web_meta_def zeroService_def)

theorem merge_associative_witness:
  "keyed_once web_service \<and> keyed_once web_override \<and>
   Image (mergeService None (mergeService None web_service web_override) web_service) = ''web:1'' \<and>
   Expose (mergeService None web_service (mergeService None web_override web_service)) = [80, 443]"
  using merge_associative [OF web_services(1,2,1)] web_services
  by (simp add: mergeService_def web_service_def web_override_def zeroService_def overrideScalar_def mergeSeq_def appendDedup_def)


end
