(* ===== verification/ComposeProject.thy ===== *)
theory ComposeProject
  imports ComposeMerge
begin

text \<open>
  A loaded Compose project (\<open>pkg/compose/project.go\<close>): the dependency order of its services, the view that a
  set of active profiles selects, and the order of a view.
\<close>

section \<open>Projects\<close>

text \<open>Go maps that the code ranges over are association lists with distinct keys.\<close>

record 'x project =
  prName :: string
  prServices :: "(string \<times> 'x service_doc) list"
  prSecrets :: "(string \<times> secret_def) list"
  prConfigs :: "(string \<times> config_def) list"
  prVolumes :: "(string \<times> volume_def) list"
  prNetworks :: "(string \<times> network_def) list"
  prEgress :: "'x option"
  prIngress :: "'x option"
  prTelemetry :: "'x option"
  prCredentials :: "'x option"
  prShells :: "string list"

type_synonym 'x services = "(string \<times> 'x service_doc) list"

definition Names :: "dependency list \<Rightarrow> string list" where
  "Names d = map depService d"

section \<open>Order\<close>

datatype mark = Unvisited | Active | Done

type_synonym visit_state = "(string \<Rightarrow> mark) \<times> string list"

definition cycle_error :: "string list \<Rightarrow> string" where
  "cycle_error stack = ''compose: dependency cycle: '' @ join_with '' -> '' stack"

text \<open>
  The recursive closure \<open>visit\<close> and its loop over the sorted dependencies. The first argument bounds the
  depth of the recursion; None means it was exceeded.
\<close>

fun visit :: "nat \<Rightarrow> 'x services \<Rightarrow> string \<Rightarrow> string list \<Rightarrow> visit_state \<Rightarrow> (string + visit_state) option"
  and visit_deps :: "nat \<Rightarrow> 'x services \<Rightarrow> string list \<Rightarrow> string list \<Rightarrow> visit_state \<Rightarrow> (string + visit_state) option" where
  "visit 0 svcs n stack st = None"
| "visit (Suc k) svcs n stack st =
     (case fst st n of
        Done \<Rightarrow> Some (Inr st)
      | Active \<Rightarrow> Some (Inl (cycle_error (stack @ [n])))
      | Unvisited \<Rightarrow>
          (let deps = (case map_of svcs n of None \<Rightarrow> [] | Some s \<Rightarrow> sort (Names (DependsOn s))) in
           case visit_deps k svcs deps (stack @ [n]) ((fst st)(n := Active), snd st) of
             None \<Rightarrow> None
           | Some (Inl e) \<Rightarrow> Some (Inl e)
           | Some (Inr st') \<Rightarrow> Some (Inr ((fst st')(n := Done), snd st' @ [n]))))"
| "visit_deps k svcs [] stack st = Some (Inr st)"
| "visit_deps k svcs (dep # deps) stack st =
     (if map_of svcs dep = None then visit_deps k svcs deps stack st
      else case visit k svcs dep stack st of
        None \<Rightarrow> None
      | Some (Inl e) \<Rightarrow> Some (Inl e)
      | Some (Inr st') \<Rightarrow> visit_deps k svcs deps stack st')"

text \<open>The loop over the sorted names is the loop over dependencies with an empty stack: every name is a service.\<close>

definition Order :: "'x services \<Rightarrow> (string + string list) option" where
  "Order svcs =
     (case visit_deps (Suc (length svcs)) svcs (sort (map fst svcs)) [] (\<lambda>_. Unvisited, []) of
        None \<Rightarrow> None
      | Some (Inl e) \<Rightarrow> Some (Inl e)
      | Some (Inr st) \<Rightarrow> Some (Inr (snd st)))"

section \<open>Dependencies and what the search keeps\<close>

definition depends :: "'x services \<Rightarrow> (string \<times> string) set" where
  "depends svcs = {(n, d). \<exists>s. map_of svcs n = Some s \<and> d \<in> set (Names (DependsOn s)) \<and> d \<in> dom (map_of svcs)}"

definition dep_closed :: "'x services \<Rightarrow> string list \<Rightarrow> bool" where
  "dep_closed svcs ord \<longleftrightarrow> (\<forall>i < length ord. \<forall>d. (ord ! i, d) \<in> depends svcs \<longrightarrow> d \<in> set (take i ord))"

lemma dep_closed_snoc:
  "dep_closed svcs ord \<Longrightarrow> \<forall>d. (n, d) \<in> depends svcs \<longrightarrow> d \<in> set ord \<Longrightarrow> dep_closed svcs (ord @ [n])"
  by (simp add: dep_closed_def nth_append less_Suc_eq)

definition chain :: "'x services \<Rightarrow> string list \<Rightarrow> bool" where
  "chain svcs stack \<longleftrightarrow> successively (\<lambda>x y. (x, y) \<in> depends svcs) stack"

lemma chain_snoc:
  "chain svcs stack \<Longrightarrow> (stack \<noteq> [] \<Longrightarrow> (last stack, n) \<in> depends svcs) \<Longrightarrow> chain svcs (stack @ [n])"
  by (auto simp: chain_def successively_append_iff)

lemma chain_reach:
  assumes "chain svcs stack" "n \<in> set stack"
  shows "(n, last stack) \<in> (depends svcs)\<^sup>*"
  using assms
proof (induction stack rule: rev_induct)
  case (snoc m stack)
  then have c: "chain svcs stack" "stack \<noteq> [] \<Longrightarrow> (last stack, m) \<in> depends svcs"
    by (auto simp: chain_def successively_append_iff)
  show ?case
  proof (cases "n \<in> set stack")
    case True
    then have "(last stack, m) \<in> depends svcs" using c(2) by fastforce
    then show ?thesis using snoc.IH [OF c(1) True] by (simp add: rtrancl.rtrancl_into_rtrancl)
  next
    case False
    then show ?thesis using snoc.prems(2) by simp
  qed
qed simp

definition unvisited :: "'x services \<Rightarrow> (string \<Rightarrow> mark) \<Rightarrow> string set" where
  "unvisited svcs m = {x \<in> dom (map_of svcs). m x = Unvisited}"

lemma finite_unvisited [simp]: "finite (unvisited svcs m)"
  by (simp add: unvisited_def finite_dom_map_of)

text \<open>
  The search's invariant: done services are the ones in the order, active ones the ones on the stack,
  which is a chain of dependencies; every ordered service comes after its dependencies.
\<close>

definition search_ok :: "'x services \<Rightarrow> string list \<Rightarrow> visit_state \<Rightarrow> bool" where
  "search_ok svcs stack st \<longleftrightarrow>
     (\<forall>x. fst st x = Done \<longleftrightarrow> x \<in> set (snd st)) \<and> (\<forall>x. fst st x = Active \<longleftrightarrow> x \<in> set stack) \<and>
     distinct (snd st) \<and> set (snd st) \<subseteq> dom (map_of svcs) \<and> dep_closed svcs (snd st) \<and> chain svcs stack"

lemma search_okD:
  assumes "search_ok svcs stack st"
  shows "x \<in> set (snd st) \<longleftrightarrow> fst st x = Done" "x \<in> set stack \<longleftrightarrow> fst st x = Active"
  using assms by (simp_all add: search_ok_def)

definition search_grows :: "'x services \<Rightarrow> visit_state \<Rightarrow> visit_state \<Rightarrow> bool" where
  "search_grows svcs st st' \<longleftrightarrow> set (snd st) \<subseteq> set (snd st') \<and> unvisited svcs (fst st') \<subseteq> unvisited svcs (fst st)"

lemma search_grows_refl [simp]: "search_grows svcs st st"
  by (simp add: search_grows_def)

lemma search_grows_trans: "search_grows svcs a b \<Longrightarrow> search_grows svcs b c \<Longrightarrow> search_grows svcs a c"
  by (auto simp: search_grows_def)

definition cyclic_deps :: "'x services \<Rightarrow> bool" where
  "cyclic_deps svcs \<longleftrightarrow> (\<exists>n. (n, n) \<in> (depends svcs)\<^sup>+)"

text \<open>What a visit achieves: an error only with a cycle, otherwise its targets are done.\<close>

definition search_result :: "'x services \<Rightarrow> string list \<Rightarrow> visit_state \<Rightarrow> string set \<Rightarrow> (string + visit_state) option \<Rightarrow> bool" where
  "search_result svcs stack st targets r \<longleftrightarrow>
     (case r of None \<Rightarrow> False
      | Some (Inl _) \<Rightarrow> cyclic_deps svcs
      | Some (Inr st') \<Rightarrow> search_ok svcs stack st' \<and> search_grows svcs st st' \<and> targets \<subseteq> set (snd st'))"

lemma visit_correct:
  "search_ok svcs stack st \<Longrightarrow> n \<in> dom (map_of svcs) \<Longrightarrow> (stack \<noteq> [] \<Longrightarrow> (last stack, n) \<in> depends svcs) \<Longrightarrow>
     card (unvisited svcs (fst st)) < k \<Longrightarrow> search_result svcs stack st {n} (visit k svcs n stack st)"
  "search_ok svcs stack st \<Longrightarrow> (\<And>d. d \<in> set deps \<Longrightarrow> d \<in> dom (map_of svcs) \<Longrightarrow> stack \<noteq> [] \<Longrightarrow> (last stack, d) \<in> depends svcs) \<Longrightarrow>
     card (unvisited svcs (fst st)) < k \<Longrightarrow>
     search_result svcs stack st (set deps \<inter> dom (map_of svcs)) (visit_deps k svcs deps stack st)"
proof (induction k svcs n stack st and k svcs deps stack st rule: visit_visit_deps.induct)
  case (1 svcs n stack st)
  then show ?case by simp
next
  case (2 k svcs n stack st)
  show ?case
  proof (cases "fst st n")
    case Done
    then have "n \<in> set (snd st)" using "2.prems"(1) by (simp add: search_ok_def)
    then show ?thesis using Done "2.prems"(1) by (simp add: search_result_def)
  next
    case Active
    then have "n \<in> set stack" "chain svcs stack" using "2.prems"(1) by (auto simp: search_ok_def)
    then have "(n, last stack) \<in> (depends svcs)\<^sup>*" "stack \<noteq> []" using chain_reach by fastforce+
    then have "cyclic_deps svcs" using "2.prems"(3) unfolding cyclic_deps_def by (meson rtrancl_into_trancl1)
    then show ?thesis using Active by (simp add: search_result_def)
  next
    case Unvisited
    obtain s where s: "map_of svcs n = Some s" using "2.prems"(2) by blast
    let ?deps = "sort (Names (DependsOn s))" and ?st = "((fst st)(n := Active), snd st)"
    have new: "n \<notin> set (snd st)" "n \<notin> set stack" using search_okD [OF "2.prems"(1)] Unvisited by simp_all
    have ok: "search_ok svcs (stack @ [n]) ?st"
      using "2.prems"(1,3) new chain_snoc [of svcs stack n] unfolding search_ok_def by auto
    have u: "unvisited svcs (fst ?st) = unvisited svcs (fst st) - {n}" by (auto simp: unvisited_def)
    have "n \<in> unvisited svcs (fst st)" using Unvisited s by (auto simp: unvisited_def)
    then have "card (unvisited svcs (fst ?st)) < card (unvisited svcs (fst st))" unfolding u by (rule card_Diff1_less [OF finite_unvisited])
    then have lt: "card (unvisited svcs (fst ?st)) < k" using "2.prems"(4) by linarith
    have dp: "\<And>d. d \<in> set ?deps \<Longrightarrow> d \<in> dom (map_of svcs) \<Longrightarrow> (last (stack @ [n]), d) \<in> depends svcs"
      using s by (auto simp: depends_def)
    have r: "search_result svcs (stack @ [n]) ?st (set ?deps \<inter> dom (map_of svcs)) (visit_deps k svcs ?deps (stack @ [n]) ?st)"
    proof (rule "2.IH" [OF Unvisited _ ok _ lt])
      show "?deps = (case map_of svcs n of None \<Rightarrow> [] | Some s \<Rightarrow> sort (Names (DependsOn s)))" using s by simp
    qed (use dp in blast)
    show ?thesis
    proof (cases "visit_deps k svcs ?deps (stack @ [n]) ?st")
      case None
      then show ?thesis using r by (simp add: search_result_def)
    next
      case (Some q)
      show ?thesis
      proof (cases q)
        case (Inl e)
        then show ?thesis using r Some s Unvisited by (simp add: search_result_def)
      next
        case (Inr st')
        have o: "search_ok svcs (stack @ [n]) st'" "search_grows svcs ?st st'" "set ?deps \<inter> dom (map_of svcs) \<subseteq> set (snd st')"
          using r Some Inr by (auto simp: search_result_def)
        have "fst st' n = Active" using search_okD(2) [OF o(1), of n] by simp
        then have fresh: "n \<notin> set (snd st')" using search_okD(1) [OF o(1), of n] by simp
        have "\<forall>d. (n, d) \<in> depends svcs \<longrightarrow> d \<in> set (snd st')" using o(3) s by (auto simp: depends_def)
        then have "dep_closed svcs (snd st' @ [n])" using o(1) dep_closed_snoc by (auto simp: search_ok_def)
        then have "search_ok svcs stack ((fst st')(n := Done), snd st' @ [n])"
          using o(1) fresh new(2) s "2.prems"(1) unfolding search_ok_def by auto
        moreover have "search_grows svcs st ((fst st')(n := Done), snd st' @ [n])"
          using o(2) u unfolding search_grows_def by (auto simp: unvisited_def)
        ultimately show ?thesis using Some Inr s Unvisited by (simp add: search_result_def)
      qed
    qed
  qed
next
  case (3 k svcs stack st)
  then show ?case by (simp add: search_result_def)
next
  case (4 k svcs dep deps stack st)
  show ?case
  proof (cases "map_of svcs dep = None")
    case True
    then have "dep \<notin> dom (map_of svcs)" by blast
    then show ?thesis using "4.IH"(1) [OF True "4.prems"(1) _ "4.prems"(3)] "4.prems"(2) True by simp
  next
    case False
    then obtain s where s: "map_of svcs dep = Some s" by blast
    then have d: "dep \<in> dom (map_of svcs)" by blast
    have r: "search_result svcs stack st {dep} (visit k svcs dep stack st)"
      using "4.IH"(2) [OF False "4.prems"(1) d _ "4.prems"(3)] "4.prems"(2) d by simp
    show ?thesis
    proof (cases "visit k svcs dep stack st")
      case None
      then show ?thesis using r s by (simp add: search_result_def)
    next
      case (Some q)
      show ?thesis
      proof (cases q)
        case (Inl e)
        then show ?thesis using r Some Inl s by (simp add: search_result_def)
      next
        case (Inr st')
        have o: "search_ok svcs stack st'" "search_grows svcs st st'" "dep \<in> set (snd st')"
          using r Some Inr by (auto simp: search_result_def)
        have "card (unvisited svcs (fst st')) < k"
          using o(2) "4.prems"(3) card_mono [OF finite_unvisited] unfolding search_grows_def by (meson le_less_trans)
        then have t: "search_result svcs stack st' (set deps \<inter> dom (map_of svcs)) (visit_deps k svcs deps stack st')"
          using "4.IH"(3) [OF False Some Inr o(1)] "4.prems"(2) by simp
        show ?thesis using t o(2,3) Some Inr s unfolding search_result_def
          by (auto split: option.splits sum.splits intro: search_grows_trans simp: search_grows_def)
      qed
    qed
  qed
qed

lemma dep_closed_before:
  assumes "dep_closed svcs ord" "(x, y) \<in> (depends svcs)\<^sup>+"
  shows "i < length ord \<Longrightarrow> ord ! i = x \<Longrightarrow> \<exists>j < i. ord ! j = y"
  using assms(2)
proof (induction arbitrary: i rule: converse_trancl_induct)
  case (base x)
  then have "y \<in> set (take i ord)" using assms(1) by (auto simp: dep_closed_def)
  then show ?case using base by (auto simp: in_set_conv_nth)
next
  case (step x z)
  then have "z \<in> set (take i ord)" using assms(1) by (auto simp: dep_closed_def)
  then obtain k where "k < i" "ord ! k = z" using step.prems(1) by (auto simp: in_set_conv_nth)
  then show ?case using step.IH [of k] step.prems(1) by (meson less_trans)
qed

lemma topological_acyclic:
  assumes "dep_closed svcs ord" "distinct ord" "set ord = dom (map_of svcs)"
  shows "\<not> cyclic_deps svcs"
proof
  assume "cyclic_deps svcs"
  then obtain n where n: "(n, n) \<in> (depends svcs)\<^sup>+" unfolding cyclic_deps_def by blast
  then have "n \<in> dom (map_of svcs)" by (cases rule: converse_tranclE) (auto simp: depends_def)
  then obtain i where i: "i < length ord" "ord ! i = n" using assms(3) by (metis in_set_conv_nth)
  then obtain j where "j < i" "ord ! j = n" using dep_closed_before [OF assms(1) n] by blast
  then show False using assms(2) i by (auto simp: nth_eq_iff_index_eq)
qed

lemma Order_result:
  "search_result svcs [] (\<lambda>_. Unvisited, []) (fst ` set svcs) (visit_deps (Suc (length svcs)) svcs (sort (map fst svcs)) [] (\<lambda>_. Unvisited, []))"
proof -
  have "unvisited svcs (\<lambda>_. Unvisited) \<subseteq> fst ` set svcs" by (auto simp: unvisited_def dom_map_of_conv_image_fst)
  then have "card (unvisited svcs (\<lambda>_. Unvisited)) \<le> card (fst ` set svcs)" by (rule card_mono [rotated]) simp
  also have "\<dots> \<le> length svcs" using card_length [of "map fst svcs"] by simp
  finally have c: "card (unvisited svcs (fst (\<lambda>_. Unvisited, [] :: string list))) < Suc (length svcs)" by simp
  have "search_ok svcs [] (\<lambda>_. Unvisited, [])" by (simp add: search_ok_def dep_closed_def chain_def)
  from visit_correct(2) [OF this _ c, of "sort (map fst svcs)"] show ?thesis by (simp add: dom_map_of_conv_image_fst)
qed

lemma Order_cases:
  obtains e where "Order svcs = Some (Inl e)" "cyclic_deps svcs"
  | ord where "Order svcs = Some (Inr ord)" "distinct ord" "set ord = fst ` set svcs" "dep_closed svcs ord"
  using Order_result [of svcs]
  by (auto simp: Order_def search_result_def search_ok_def dom_map_of_conv_image_fst split: option.splits sum.splits)

section \<open>Profiles\<close>

record 'x view =
  viewProject :: "'x project"
  viewServices :: "'x services"

fun push_deps :: "'x services \<Rightarrow> string list \<Rightarrow> string list \<times> string list \<Rightarrow> string list \<times> string list" where
  "push_deps all [] (enabled, queue) = (enabled, queue)"
| "push_deps all (dep # deps) (enabled, queue) =
     (if map_of all dep \<noteq> None \<and> dep \<notin> set enabled then push_deps all deps (dep # enabled, queue @ [dep])
      else push_deps all deps (enabled, queue))"

definition disabled :: "'x services \<Rightarrow> string list \<Rightarrow> nat" where
  "disabled all enabled = length (filter (\<lambda>n. n \<notin> set enabled) (map fst all))"

lemma disabled_less:
  assumes "dep \<in> dom (map_of all)" "dep \<notin> set enabled"
  shows "disabled all (dep # enabled) < disabled all enabled"
proof -
  have "filter (\<lambda>n. n \<notin> set (dep # enabled)) (map fst all) = filter (\<lambda>n. n \<noteq> dep) (filter (\<lambda>n. n \<notin> set enabled) (map fst all))"
    by (auto intro: filter_cong)
  moreover have "dep \<in> set (filter (\<lambda>n. n \<notin> set enabled) (map fst all))" using assms by (simp add: dom_map_of_conv_image_fst)
  then have "length (filter (\<lambda>n. n \<noteq> dep) (filter (\<lambda>n. n \<notin> set enabled) (map fst all))) < length (filter (\<lambda>n. n \<notin> set enabled) (map fst all))"
    by (rule length_filter_less) simp
  ultimately show ?thesis by (simp add: disabled_def)
qed

lemma push_deps_measure:
  "push_deps all deps (en, q) = (en', q') \<Longrightarrow> 2 * disabled all en' + length q' \<le> 2 * disabled all en + length q"
proof (induction all deps "(en, q)" arbitrary: en q rule: push_deps.induct)
  case (2 all dep deps en q)
  show ?case
  proof (cases "map_of all dep \<noteq> None \<and> dep \<notin> set en")
    case True
    then have "disabled all (dep # en) < disabled all en" by (intro disabled_less) auto
    then show ?thesis using "2.hyps"(1) [OF True] "2.prems" True by fastforce
  next
    case False
    have "push_deps all deps (en, q) = (en', q')" using "2.prems" False unfolding push_deps.simps if_not_P [OF False] by simp
    then show ?thesis by (rule "2.hyps"(2) [OF False])
  qed
qed simp

text \<open>The worklist loop of \<open>View\<close>; it takes from the end of the queue.\<close>

function view_loop :: "'x services \<Rightarrow> string list \<Rightarrow> string list \<Rightarrow> string list" where
  "view_loop all enabled queue =
     (if queue = [] then enabled
      else case map_of all (last queue) of
        None \<Rightarrow> view_loop all enabled (butlast queue)
      | Some s \<Rightarrow> (case push_deps all (Names (DependsOn s)) (enabled, butlast queue) of
                   (enabled', queue') \<Rightarrow> view_loop all enabled' queue'))"
  by pat_completeness auto
termination
proof (relation "measure (\<lambda>(all, enabled, queue). 2 * disabled all enabled + length queue)", goal_cases)
  case (3 all enabled queue s enabled' queue')
  then have "2 * disabled all enabled' + length queue' \<le> 2 * disabled all enabled + length (butlast queue)"
    using push_deps_measure by metis
  moreover have "length (butlast queue) < length queue" using 3(1) by simp
  ultimately show ?case by simp
qed auto

declare view_loop.simps [simp del]

definition selected_by :: "string list \<Rightarrow> 'x service_doc \<Rightarrow> bool" where
  "selected_by profiles s \<longleftrightarrow> Profiles s = [] \<or> (\<exists>pr \<in> set (Profiles s). pr \<noteq> '''' \<and> pr \<in> set profiles)"

definition View :: "string list \<Rightarrow> 'x project \<Rightarrow> 'x view" where
  "View profiles p =
     (let all = prServices p in
      if \<forall>(_, s) \<in> set all. Profiles s = [] then \<lparr>viewProject = p, viewServices = all\<rparr>
      else let enabled = map fst (filter (\<lambda>(_, s). selected_by profiles s) all); final = view_loop all enabled enabled
        in \<lparr>viewProject = p, viewServices = filter (\<lambda>(n, _). n \<in> set final) all\<rparr>)"

text \<open>\<open>selected\<close> builds a project from the view's services and nine of the project's eleven fields.\<close>

definition selected :: "'x view \<Rightarrow> 'x project" where
  "selected v =
     (let p = viewProject v in
      \<lparr>prName = prName p, prServices = viewServices v, prSecrets = prSecrets p, prConfigs = prConfigs p,
       prVolumes = prVolumes p, prNetworks = prNetworks p, prEgress = prEgress p, prIngress = prIngress p,
       prTelemetry = prTelemetry p, prCredentials = None, prShells = []\<rparr>)"

definition viewOrder :: "'x view \<Rightarrow> (string + string list) option" where
  "viewOrder v = Order (prServices (selected v))"

lemma push_deps_result:
  "push_deps all deps (en, q) = (en', q') \<Longrightarrow>
     set en' = set en \<union> (set deps \<inter> dom (map_of all)) \<and> set q \<subseteq> set q' \<and> set q' \<subseteq> set q \<union> set en' \<and> set en' \<subseteq> set en \<union> set q'"
proof (induction all deps "(en, q)" arbitrary: en q rule: push_deps.induct)
  case (2 all dep deps en q)
  show ?case
  proof (cases "map_of all dep \<noteq> None \<and> dep \<notin> set en")
    case True
    have "push_deps all deps (dep # en, q @ [dep]) = (en', q')" using "2.prems" unfolding push_deps.simps if_P [OF True] .
    from "2.hyps"(1) [OF True this] show ?thesis using True by auto
  next
    case False
    have "push_deps all deps (en, q) = (en', q')" using "2.prems" unfolding push_deps.simps if_not_P [OF False] .
    from "2.hyps"(2) [OF False this] show ?thesis using False by auto
  qed
qed simp

text \<open>The loop's invariant: what is enabled is reachable from the roots, and only queued services may miss dependencies.\<close>

definition loop_inv :: "'x services \<Rightarrow> string set \<Rightarrow> string list \<Rightarrow> string list \<Rightarrow> bool" where
  "loop_inv all roots enabled queue \<longleftrightarrow>
     roots \<subseteq> set enabled \<and> set enabled \<subseteq> (depends all)\<^sup>* `` roots \<and> set queue \<subseteq> set enabled \<and>
     (\<forall>n \<in> set enabled - set queue. \<forall>d. (n, d) \<in> depends all \<longrightarrow> d \<in> set enabled)"

lemma closed_is_closure:
  assumes "loop_inv all roots enabled []"
  shows "set enabled = (depends all)\<^sup>* `` roots"
proof
  show "set enabled \<subseteq> (depends all)\<^sup>* `` roots" using assms by (simp add: loop_inv_def)
  have "(r, n) \<in> (depends all)\<^sup>* \<Longrightarrow> r \<in> roots \<Longrightarrow> n \<in> set enabled" for r n
    by (induction rule: rtrancl_induct) (use assms in \<open>auto simp: loop_inv_def\<close>)
  then show "(depends all)\<^sup>* `` roots \<subseteq> set enabled" by blast
qed

lemma loop_inv_pop:
  assumes "loop_inv all roots enabled queue" "queue \<noteq> []" "map_of all (last queue) = None"
  shows "loop_inv all roots enabled (butlast queue)"
proof -
  note q = set_last_butlast [OF assms(2)]
  have none: "(last queue, d) \<notin> depends all" for d using assms(3) by (simp add: depends_def)
  show ?thesis unfolding loop_inv_def
  proof (intro conjI ballI allI impI)
    show "roots \<subseteq> set enabled" "set enabled \<subseteq> (depends all)\<^sup>* `` roots" using assms(1) by (simp_all add: loop_inv_def)
    show "set (butlast queue) \<subseteq> set enabled" using assms(1) q by (simp add: loop_inv_def)
  next
    fix n d assume n: "n \<in> set enabled - set (butlast queue)" "(n, d) \<in> depends all"
    then have "n \<in> set enabled - set queue" using none [of d] q by auto
    then show "d \<in> set enabled" using assms(1) n(2) by (simp add: loop_inv_def)
  qed
qed

lemma loop_inv_push:
  assumes "loop_inv all roots enabled queue" "queue \<noteq> []" "map_of all (last queue) = Some s"
    "push_deps all (Names (DependsOn s)) (enabled, butlast queue) = (enabled', queue')"
  shows "loop_inv all roots enabled' queue'"
proof -
  have q: "set queue = insert (last queue) (set (butlast queue))" by (rule set_last_butlast [OF assms(2)])
  have d: "(last queue, d) \<in> depends all \<longleftrightarrow> d \<in> set (Names (DependsOn s)) \<inter> dom (map_of all)" for d
    using assms(3) by (auto simp: depends_def)
  have r: "set enabled' = set enabled \<union> (set (Names (DependsOn s)) \<inter> dom (map_of all))"
      "set queue' \<subseteq> set (butlast queue) \<union> set enabled'" "set enabled' \<subseteq> set enabled \<union> set queue'" "set (butlast queue) \<subseteq> set queue'"
    using push_deps_result [OF assms(4)] by blast+
  have e: "set enabled \<subseteq> set enabled'" unfolding r(1) by (rule Un_upper1)
  have i: "roots \<subseteq> set enabled" "set enabled \<subseteq> (depends all)\<^sup>* `` roots" "set queue \<subseteq> set enabled"
      "\<And>n d. n \<in> set enabled - set queue \<Longrightarrow> (n, d) \<in> depends all \<Longrightarrow> d \<in> set enabled"
    using assms(1) unfolding loop_inv_def by blast+
  have l: "last queue \<in> (depends all)\<^sup>* `` roots" using assms(1) q by (auto simp: loop_inv_def)
  have "set (Names (DependsOn s)) \<inter> dom (map_of all) \<subseteq> (depends all)\<^sup>* `` roots"
    using l d by (auto intro: rtrancl.rtrancl_into_rtrancl)
  then have reach: "set enabled' \<subseteq> (depends all)\<^sup>* `` roots" unfolding r(1) using i(2) by (rule Un_least [rotated])
  show ?thesis unfolding loop_inv_def
  proof (intro conjI ballI allI impI)
    show "roots \<subseteq> set enabled'" using i(1) e by (rule order_trans)
    show "set enabled' \<subseteq> (depends all)\<^sup>* `` roots" by (rule reach)
    have "set (butlast queue) \<subseteq> set enabled'" using i(3) e unfolding q by blast
    then show "set queue' \<subseteq> set enabled'" using r(2) by blast
  next
    fix n x assume n: "n \<in> set enabled' - set queue'" "(n, x) \<in> depends all"
    show "x \<in> set enabled'"
    proof (cases "n = last queue")
      case True
      then show ?thesis using n(2) d [of x] unfolding r(1) by simp
    next
      case False
      then have "n \<in> set enabled - set queue" using n(1) r(3,4) unfolding q by blast
      then have "x \<in> set enabled" using i(4) n(2) by blast
      then show ?thesis using e by blast
    qed
  qed
qed

lemma view_loop_closure:
  "loop_inv all roots enabled queue \<Longrightarrow> set (view_loop all enabled queue) = (depends all)\<^sup>* `` roots"
proof (induction all enabled queue rule: view_loop.induct)
  case (1 all enabled queue)
  show ?case
  proof (cases "queue = []")
    case True
    then show ?thesis using 1(3) closed_is_closure by (simp add: view_loop.simps [of all enabled "[]"])
  next
    case False
    show ?thesis
    proof (cases "map_of all (last queue)")
      case None
      then show ?thesis using 1(1) [OF False None loop_inv_pop [OF 1(3) False None]] False
        by (simp add: view_loop.simps [of all enabled queue])
    next
      case (Some s)
      obtain en' q' where p: "push_deps all (Names (DependsOn s)) (enabled, butlast queue) = (en', q')" by fastforce
      show ?thesis using 1(2) [OF False Some p [symmetric] loop_inv_push [OF 1(3) False Some p]] False Some p
        by (simp add: view_loop.simps [of all enabled queue])
    qed
  qed
qed

lemma map_of_filter_keys: "map_of (filter (\<lambda>(n, _). n \<in> S) xs) = (map_of xs) |` S"
  by (induction xs) (auto simp: restrict_map_def fun_eq_iff)

lemma depends_filter:
  "depends (filter (\<lambda>(n, _). n \<in> S) all) = {(n, d) \<in> depends all. n \<in> S \<and> d \<in> S}"
  by (auto simp: depends_def map_of_filter_keys restrict_map_def dom_def split: if_splits)

text \<open>The services a set of profiles selects by itself.\<close>

definition view_roots :: "string list \<Rightarrow> 'x services \<Rightarrow> string set" where
  "view_roots profiles all = {n. \<exists>s. (n, s) \<in> set all \<and> selected_by profiles s}"

lemma view_services:
  "\<exists>S. S = (depends (prServices p))\<^sup>* `` view_roots profiles (prServices p) \<and>
     viewServices (View profiles p) = filter (\<lambda>(n, _). n \<in> S) (prServices p)"
proof (intro exI conjI)
  let ?all = "prServices p" and ?R = "view_roots profiles (prServices p)"
  show "(depends ?all)\<^sup>* `` ?R = (depends ?all)\<^sup>* `` ?R" by (rule refl)
  show "viewServices (View profiles p) = filter (\<lambda>(n, _). n \<in> (depends ?all)\<^sup>* `` ?R) ?all"
  proof (cases "\<forall>(_, s) \<in> set ?all. Profiles s = []")
    case True
    then have "n \<in> (depends ?all)\<^sup>* `` ?R" if "(n, s) \<in> set ?all" for n s
      using that unfolding view_roots_def selected_by_def by blast
    then have "filter (\<lambda>(n, _). n \<in> (depends ?all)\<^sup>* `` ?R) ?all = ?all" by (intro filter_True) auto
    then show ?thesis using True by (simp add: View_def)
  next
    case False
    let ?en = "map fst (filter (\<lambda>(_, s). selected_by profiles s) ?all)"
    have "set ?en = ?R" by (force simp: view_roots_def)
    then have "loop_inv ?all ?R ?en ?en" by (auto simp: loop_inv_def)
    from view_loop_closure [OF this] show ?thesis unfolding View_def Let_def if_not_P [OF False] by simp
  qed
qed

section \<open>Properties\<close>

text \<open>C20. \<open>Order\<close> always returns. Either it reports a cycle, and the dependencies among the services really
  are cyclic, or it lists every service exactly once, each after all of its dependencies that are
  services, and there is no cycle.\<close>

theorem order_is_topological:
  "\<exists>r. Order svcs = Some r \<and>
     (case r of Inl _ \<Rightarrow> cyclic_deps svcs
      | Inr ord \<Rightarrow> distinct ord \<and> set ord = fst ` set svcs \<and> \<not> cyclic_deps svcs \<and>
          (\<forall>i < length ord. \<forall>d. (ord ! i, d) \<in> depends svcs \<longrightarrow> d \<in> set (take i ord)))"
proof (cases svcs rule: Order_cases)
  case (1 e)
  then show ?thesis by simp
next
  case (2 ord)
  then have "\<not> cyclic_deps svcs" using topological_acyclic by (metis dom_map_of_conv_image_fst)
  then show ?thesis using 2 by (simp add: dep_closed_def)
qed

definition svc :: "string list \<Rightarrow> string list \<Rightarrow> unit service_doc" where
  "svc deps profiles = zeroService\<lparr>DependsOn := map (\<lambda>d. \<lparr>depService = d, depCondition = ''service_started'', depRequired = True, depRestart = False\<rparr>) deps,
     Profiles := profiles\<rparr>"

lemma svc_simps [simp]: "Names (DependsOn (svc deps profiles)) = deps" "Profiles (svc deps profiles) = profiles"
  by (simp_all add: svc_def Names_def comp_def)

definition shop :: "unit services" where
  "shop = [(''web'', svc [''db'', ''cache''] []), (''db'', svc [] [''full'']), (''cache'', svc [''db''] [''full'']), (''debug'', svc [''debug''] [''dev''])]"

theorem order_is_topological_witness:
  "Order (take 3 shop) = Some (Inr [''db'', ''cache'', ''web'']) \<and> \<not> cyclic_deps (take 3 shop)"
proof -
  have o: "Order (take 3 shop) = Some (Inr [''db'', ''cache'', ''web''])"
    by (simp add: Order_def shop_def eval_nat_numeral)
  then show ?thesis using order_is_topological [of "take 3 shop"] by simp
qed

text \<open>C21. A profile's view starts whole. The view selects exactly the services some active profile selects
  and everything they depend on, directly or not. Its order, when there is one, lists each of them after
  all of the dependencies it has in the whole project, and fails only when the selected services
  themselves form a cycle, whatever the other services look like.\<close>

theorem view_order_complete:
  "fst ` set (viewServices (View profiles p)) =
     {n \<in> fst ` set (prServices p). \<exists>r \<in> view_roots profiles (prServices p). (r, n) \<in> (depends (prServices p))\<^sup>*} \<and>
   (case viewOrder (View profiles p) of
      None \<Rightarrow> False
    | Some (Inl _) \<Rightarrow> cyclic_deps (viewServices (View profiles p))
    | Some (Inr ord) \<Rightarrow> set ord = fst ` set (viewServices (View profiles p)) \<and>
        (\<forall>i < length ord. \<forall>d. (ord ! i, d) \<in> depends (prServices p) \<longrightarrow> d \<in> set (take i ord)))"
proof -
  let ?all = "prServices p" and ?vs = "viewServices (View profiles p)"
  obtain S where S: "S = (depends ?all)\<^sup>* `` view_roots profiles ?all" "?vs = filter (\<lambda>(n, _). n \<in> S) ?all"
    using view_services by blast
  have names: "fst ` set ?vs = {n \<in> fst ` set ?all. n \<in> S}" by (force simp: S(2))
  have step: "(n, d) \<in> depends ?vs" if "n \<in> S" "(n, d) \<in> depends ?all" for n d
  proof -
    have "d \<in> S" using that unfolding S(1) by (auto intro: rtrancl.rtrancl_into_rtrancl)
    then show ?thesis using that by (simp add: S(2) depends_filter)
  qed
  have o: "viewOrder (View profiles p) = Order ?vs" by (simp add: viewOrder_def selected_def Let_def)
  have "case Order ?vs of None \<Rightarrow> False | Some (Inl _) \<Rightarrow> cyclic_deps ?vs
    | Some (Inr ord) \<Rightarrow> set ord = fst ` set ?vs \<and> (\<forall>i < length ord. \<forall>d. (ord ! i, d) \<in> depends ?all \<longrightarrow> d \<in> set (take i ord))"
  proof (cases ?vs rule: Order_cases)
    case (1 e)
    then show ?thesis by simp
  next
    case (2 ord)
    have "d \<in> set (take i ord)" if "i < length ord" "(ord ! i, d) \<in> depends ?all" for i d
    proof -
      have "ord ! i \<in> S" using nth_mem [OF that(1)] 2(3) names by blast
      then show ?thesis using step that 2(4) by (auto simp: dep_closed_def)
    qed
    then show ?thesis using 2(1,3) by simp
  qed
  moreover have "fst ` set ?vs = {n \<in> fst ` set ?all. \<exists>r \<in> view_roots profiles ?all. (r, n) \<in> (depends ?all)\<^sup>*}"
    using names by (auto simp: S(1))
  ultimately show ?thesis unfolding o by blast
qed

definition shop_project :: "unit project" where
  "shop_project = \<lparr>prName = ''shop'', prServices = shop, prSecrets = [], prConfigs = [], prVolumes = [], prNetworks = [],
     prEgress = None, prIngress = None, prTelemetry = None, prCredentials = Some (), prShells = [''/bin/sh'']\<rparr>"

theorem view_order_complete_witness:
  "viewOrder (View [] shop_project) = Some (Inr [''db'', ''cache'', ''web'']) \<and>
   fst ` set (viewServices (View [] shop_project)) = {''db'', ''cache'', ''web''}"
proof -
  have v: "viewServices (View [] shop_project) = take 3 shop"
    by (simp add: View_def shop_project_def shop_def selected_by_def view_loop.simps eval_nat_numeral)
  then have o: "viewOrder (View [] shop_project) = Some (Inr [''db'', ''cache'', ''web''])"
    by (simp add: viewOrder_def selected_def Let_def Order_def shop_def eval_nat_numeral)
  then show ?thesis using view_order_complete [of "[]" shop_project] by auto
qed

text \<open>
  The project-wide credentials and shell candidates never reach the plan of a view: \<open>selected\<close> copies
  the other fields only.
\<close>

lemma view_drops_credentials:
  "prCredentials (selected (View profiles p)) = None \<and> prShells (selected (View profiles p)) = []"
  by (simp add: selected_def Let_def)

end
