(* ===== verification/Paths.thy ===== *)
theory Paths
  imports Prelude
begin

text \<open>Directories of slash-separated paths: what the code uses of Go's \<open>path/filepath\<close> beyond \<open>path\<close>.\<close>

definition path_is_abs :: "string \<Rightarrow> bool" where
  "path_is_abs p \<longleftrightarrow> has_prefix p ''/''"

text \<open>\<open>filepath.Dir\<close> on slash-separated paths.\<close>

definition path_dir :: "string \<Rightarrow> string" where
  "path_dir p = path_clean (rev (dropWhile (\<lambda>c. c \<noteq> CHR ''/'') (rev p)))"

end
