(* ===== verification/ComposeLoad.thy ===== *)
theory ComposeLoad
  imports ComposeMerge Paths
begin

text \<open>
  Loading of Compose documents: the resolution of \<open>extends\<close> (\<open>pkg/compose/extends.go\<close>), the expansion of
  \<open>include\<close> (\<open>include.go\<close>) and the merge of the files of a project (\<open>LoadDocumentWithOptions\<close> of \<open>project.go\<close>).
  Parsing of one file (\<open>parseFile\<close>, over the file system and a YAML library) is an argument.
\<close>

section \<open>Documents\<close>

record include_ref =
  irPath :: "string list"
  irEnvFile :: "string list"
  irProjectDirectory :: string

record 'x document =
  docName :: string
  docServices :: "(string \<times> 'x service_doc) list"
  docSecrets :: "(string \<times> secret_def) list"
  docConfigs :: "(string \<times> config_def) list"
  docVolumes :: "(string \<times> volume_def) list"
  docNetworks :: "(string \<times> network_def) list"
  docInclude :: "include_ref list"
  docEgress :: "'x option"
  docIngress :: "'x option"
  docTelemetry :: "'x option"
  docCredentials :: "'x option"
  docShells :: "string list"

record 'x parsed_file =
  pfDoc :: "'x document"
  pfMeta :: meta

section \<open>Paths\<close>

text \<open>\<open>filepath.Abs\<close> of a path joined to an absolute directory is its cleaned form.\<close>

definition resolve_path :: "string \<Rightarrow> string \<Rightarrow> string" where
  "resolve_path dir p = path_clean (if path_is_abs p then p else path_join [dir, p])"

section \<open>extends\<close>

type_synonym service_key = "string \<times> string"

text \<open>
  The resolver's state: the keys being resolved and the services resolved so far. A key is a pair; the
  code joins file and service with a NUL byte, which no file name contains. The files it has parsed are
  the argument \<open>proj\<close>, since parsing the same file again gives the same result.
\<close>

record 'x resolver =
  resolving :: "service_key list"
  resolved :: "(service_key \<times> 'x service_doc) list"

datatype load_error = ECircular string string | ENoService string string | ENoTarget string | EParse string | EIncludeCycle string
  | ENoServices | ENoFiles

type_synonym 'x files = "string \<Rightarrow> load_error + 'x parsed_file"

definition base_file :: "string \<Rightarrow> extends \<Rightarrow> string" where
  "base_file absFile ex = (if exFile ex = '''' then absFile else resolve_path (path_dir absFile) (exFile ex))"

text \<open>The extending service on top of its base, without the base's dependencies.\<close>

definition extend_service :: "'x parsed_file \<Rightarrow> string \<Rightarrow> 'x service_doc \<Rightarrow> 'x service_doc \<Rightarrow> 'x service_doc" where
  "extend_service pf name base svc =
     (mergeService (meta_at (meta_at (pfMeta pf) ''services'') name) (base\<lparr>DependsOn := []\<rparr>) (svc\<lparr>Extends := None\<rparr>))\<lparr>Extends := None\<rparr>"

fun resolveService :: "nat \<Rightarrow> 'x files \<Rightarrow> 'x resolver \<Rightarrow> string \<Rightarrow> string \<Rightarrow> ((load_error + 'x service_doc) \<times> 'x resolver) option" where
  "resolveService 0 proj r absFile name = None"
| "resolveService (Suc k) proj r absFile name =
     (case map_of (resolved r) (absFile, name) of
        Some s \<Rightarrow> Some (Inr s, r)
      | None \<Rightarrow>
          if (absFile, name) \<in> set (resolving r) then Some (Inl (ECircular name absFile), r)
          else case proj absFile of
            Inl e \<Rightarrow> Some (Inl e, r)
          | Inr pf \<Rightarrow>
              (case map_of (docServices (pfDoc pf)) name of
                 None \<Rightarrow> Some (Inl (ENoService absFile name), r)
               | Some svc \<Rightarrow>
                   (case Extends svc of
                      None \<Rightarrow> Some (Inr svc, r\<lparr>resolved := ((absFile, name), svc) # resolved r\<rparr>)
                    | Some ex \<Rightarrow>
                        if exService ex = '''' then Some (Inl (ENoTarget name), r)
                        else case resolveService k proj (r\<lparr>resolving := (absFile, name) # resolving r\<rparr>) (base_file absFile ex) (exService ex) of
                          None \<Rightarrow> None
                        | Some (res, r2) \<Rightarrow>
                            let r3 = r2\<lparr>resolving := removeAll (absFile, name) (resolving r2)\<rparr> in
                            (case res of
                               Inl e \<Rightarrow> Some (Inl e, r3)
                             | Inr base \<Rightarrow>
                                 let s = extend_service pf name base svc in
                                 Some (Inr s, r3\<lparr>resolved := ((absFile, name), s) # resolved r3\<rparr>)))))"

fun resolve_all :: "nat \<Rightarrow> 'x files \<Rightarrow> string \<Rightarrow> 'x resolver \<Rightarrow> string list \<Rightarrow> (load_error + (string \<times> 'x service_doc) list) option" where
  "resolve_all k proj absFile r [] = Some (Inr [])"
| "resolve_all k proj absFile r (name # names) =
     (case resolveService k proj r absFile name of
        None \<Rightarrow> None
      | Some (Inl e, _) \<Rightarrow> Some (Inl e)
      | Some (Inr s, r') \<Rightarrow>
          (case resolve_all k proj absFile r' names of
             None \<Rightarrow> None
           | Some (Inl e) \<Rightarrow> Some (Inl e)
           | Some (Inr out) \<Rightarrow> Some (Inr ((name, s) # out))))"

text \<open>\<open>resolveExtends\<close>: the file cache is seeded with the file itself.\<close>

definition resolveExtends :: "nat \<Rightarrow> 'x files \<Rightarrow> string \<Rightarrow> 'x parsed_file \<Rightarrow> (load_error + 'x parsed_file) option" where
  "resolveExtends k parse absFile pf =
     (if \<forall>(_, s) \<in> set (docServices (pfDoc pf)). Extends s = None then Some (Inr pf)
      else case resolve_all k (parse(absFile := Inr pf)) absFile \<lparr>resolving = [], resolved = []\<rparr> (map fst (docServices (pfDoc pf))) of
        None \<Rightarrow> None
      | Some (Inl e) \<Rightarrow> Some (Inl e)
      | Some (Inr out) \<Rightarrow> Some (Inr (pf\<lparr>pfDoc := (pfDoc pf)\<lparr>docServices := out\<rparr>\<rparr>)))"

section \<open>What extends means\<close>

text \<open>The reference: a service with its chain of bases, without caches and without a stack.\<close>

inductive extends_to :: "'x files \<Rightarrow> service_key \<Rightarrow> 'x service_doc \<Rightarrow> bool" for proj where
  plain: "proj f = Inr pf \<Longrightarrow> map_of (docServices (pfDoc pf)) n = Some svc \<Longrightarrow> Extends svc = None \<Longrightarrow> extends_to proj (f, n) svc"
| based: "proj f = Inr pf \<Longrightarrow> map_of (docServices (pfDoc pf)) n = Some svc \<Longrightarrow> Extends svc = Some ex \<Longrightarrow> exService ex \<noteq> '''' \<Longrightarrow>
    extends_to proj (base_file f ex, exService ex) b \<Longrightarrow> extends_to proj (f, n) (extend_service pf n b svc)"

inductive_cases extends_toE: "extends_to proj (f, n) s"

text \<open>One step of the chain.\<close>

definition base_of :: "'x files \<Rightarrow> (service_key \<times> service_key) set" where
  "base_of proj = {((f, n), (f', n')). \<exists>pf svc ex. proj f = Inr pf \<and> map_of (docServices (pfDoc pf)) n = Some svc \<and>
     Extends svc = Some ex \<and> exService ex \<noteq> '''' \<and> f' = base_file f ex \<and> n' = exService ex}"

lemma base_of_single: "(k, a) \<in> base_of proj \<Longrightarrow> (k, b) \<in> base_of proj \<Longrightarrow> a = b"
  by (auto simp: base_of_def)

lemma extends_to_acyclic: "extends_to proj k s \<Longrightarrow> (k, k) \<notin> (base_of proj)\<^sup>+"
proof (induction rule: extends_to.induct)
  case (plain f pf n svc)
  then have "((f, n), x) \<notin> base_of proj" for x by (auto simp: base_of_def)
  then show ?case by (meson tranclD)
next
  case (based f pf n svc ex b)
  let ?b = "(base_file f ex, exService ex)"
  have step: "((f, n), ?b) \<in> base_of proj" using based by (auto simp: base_of_def)
  show ?case
  proof
    assume "((f, n), (f, n)) \<in> (base_of proj)\<^sup>+"
    then obtain z where "((f, n), z) \<in> base_of proj" "(z, (f, n)) \<in> (base_of proj)\<^sup>*" by (meson tranclD)
    then have "(?b, (f, n)) \<in> (base_of proj)\<^sup>*" using base_of_single step by metis
    then have "(?b, ?b) \<in> (base_of proj)\<^sup>+" using step by (rule rtrancl_into_trancl1)
    then show False using based.IH by blast
  qed
qed

definition cache_sound :: "'x files \<Rightarrow> 'x resolver \<Rightarrow> bool" where
  "cache_sound proj r \<longleftrightarrow> (\<forall>(k, s) \<in> set (resolved r). extends_to proj k s)"

definition closed_keys :: "'x files \<Rightarrow> service_key set \<Rightarrow> bool" where
  "closed_keys proj K \<longleftrightarrow> finite K \<and> base_of proj `` K \<subseteq> K"

definition resolves_exactly :: "'x files \<Rightarrow> service_key \<Rightarrow> load_error + 'x service_doc \<Rightarrow> bool" where
  "resolves_exactly proj k res \<longleftrightarrow> (case res of Inr s \<Rightarrow> extends_to proj k s | Inl _ \<Rightarrow> \<not> (\<exists>s. extends_to proj k s))"

lemma resolve_based:
  assumes K: "closed_keys proj K"
    and IH: "\<And>r f n. cache_sound proj r \<Longrightarrow> \<forall>x \<in> set (resolving r). (x, (f, n)) \<in> (base_of proj)\<^sup>+ \<Longrightarrow> (f, n) \<in> K \<Longrightarrow>
      set (resolving r) \<subseteq> K \<Longrightarrow> card (K - set (resolving r)) < k \<Longrightarrow>
      \<exists>res r'. resolveService k proj r f n = Some (res, r') \<and> resolves_exactly proj (f, n) res \<and> cache_sound proj r' \<and>
        set (resolving r') = set (resolving r)"
    and pre: "cache_sound proj r" "\<forall>x \<in> set (resolving r). (x, (f, n)) \<in> (base_of proj)\<^sup>+" "(f, n) \<in> K"
      "set (resolving r) \<subseteq> K" "card (K - set (resolving r)) < Suc k"
    and at: "map_of (resolved r) (f, n) = None" "(f, n) \<notin> set (resolving r)" "proj f = Inr pf"
      "map_of (docServices (pfDoc pf)) n = Some svc" "Extends svc = Some ex" "exService ex \<noteq> ''''"
  shows "\<exists>res r'. resolveService (Suc k) proj r f n = Some (res, r') \<and> resolves_exactly proj (f, n) res \<and> cache_sound proj r' \<and>
    set (resolving r') = set (resolving r)"
proof -
  let ?r = "r\<lparr>resolving := (f, n) # resolving r\<rparr>" and ?b = "(base_file f ex, exService ex)"
  have step: "((f, n), ?b) \<in> base_of proj" using at by (auto simp: base_of_def)
  have fin: "finite K" and bK: "?b \<in> K" using K step pre(3) by (auto simp: closed_keys_def)
  have "card (K - set (resolving ?r)) < card (K - set (resolving r))"
    using fin pre(3) at(2) by (intro psubset_card_mono) auto
  then have lt: "card (K - set (resolving ?r)) < k" using pre(5) by linarith
  have up: "\<forall>x \<in> set (resolving ?r). (x, ?b) \<in> (base_of proj)\<^sup>+"
    using pre(2) step by (auto intro: trancl_into_trancl)
  obtain res r2 where r2: "resolveService k proj ?r (base_file f ex) (exService ex) = Some (res, r2)"
      "resolves_exactly proj ?b res" "cache_sound proj r2" "set (resolving r2) = insert (f, n) (set (resolving r))"
    using IH [OF _ up bK _ lt] pre(1,3,4) by (auto simp: cache_sound_def)
  show ?thesis
  proof (cases res)
    case (Inl e)
    then have "\<not> (\<exists>s. extends_to proj (f, n) s)" using r2(2) at by (auto simp: resolves_exactly_def elim: extends_toE)
    then show ?thesis using Inl r2 at by (auto simp: resolves_exactly_def cache_sound_def Let_def)
  next
    case (Inr b)
    then have "extends_to proj (f, n) (extend_service pf n b svc)"
      using r2(2) at extends_to.based by (simp add: resolves_exactly_def)
    then show ?thesis using Inr r2 at by (auto simp: resolves_exactly_def cache_sound_def Let_def)
  qed
qed

lemma resolveService_exact:
  assumes "closed_keys proj K"
  shows "cache_sound proj r \<Longrightarrow> \<forall>x \<in> set (resolving r). (x, (f, n)) \<in> (base_of proj)\<^sup>+ \<Longrightarrow> (f, n) \<in> K \<Longrightarrow>
    set (resolving r) \<subseteq> K \<Longrightarrow> card (K - set (resolving r)) < k \<Longrightarrow>
    \<exists>res r'. resolveService k proj r f n = Some (res, r') \<and> resolves_exactly proj (f, n) res \<and> cache_sound proj r' \<and>
      set (resolving r') = set (resolving r)"
proof (induction k arbitrary: r f n)
  case (Suc k)
  note sound = Suc.prems(1)
  show ?case
  proof (cases "map_of (resolved r) (f, n)")
    case (Some s)
    then have "extends_to proj (f, n) s" using sound map_of_SomeD by (fastforce simp: cache_sound_def)
    then show ?thesis using Some sound by (simp add: resolves_exactly_def)
  next
    case None
    note fresh = None
    show ?thesis
    proof (cases "(f, n) \<in> set (resolving r)")
      case True
      then have "((f, n), (f, n)) \<in> (base_of proj)\<^sup>+" using Suc.prems(2) by blast
      then have "\<not> (\<exists>s. extends_to proj (f, n) s)" using extends_to_acyclic by blast
      then show ?thesis using True fresh sound by (simp add: resolves_exactly_def)
    next
      case False
      show ?thesis
      proof (cases "proj f")
        case (Inl e)
        then have "\<not> (\<exists>s. extends_to proj (f, n) s)" by (auto elim: extends_toE)
        then show ?thesis using Inl False fresh sound by (simp add: resolves_exactly_def)
      next
        case (Inr pf)
        note pf = Inr
        show ?thesis
        proof (cases "map_of (docServices (pfDoc pf)) n")
          case None
          then have "\<not> (\<exists>s. extends_to proj (f, n) s)" using pf by (auto elim: extends_toE)
          then show ?thesis using None pf False fresh sound by (simp add: resolves_exactly_def)
        next
          case (Some svc)
          note svc = Some
          show ?thesis
          proof (cases "Extends svc")
            case None
            then have "extends_to proj (f, n) svc" using extends_to.plain pf svc by blast
            then show ?thesis using None pf svc False fresh sound by (simp add: resolves_exactly_def cache_sound_def)
          next
            case (Some ex)
            show ?thesis
            proof (cases "exService ex = ''''")
              case True
              then have "\<not> (\<exists>s. extends_to proj (f, n) s)" using pf svc Some by (auto elim: extends_toE)
              then show ?thesis using True Some pf svc False fresh sound by (simp add: resolves_exactly_def)
            next
              case named: False
              then show ?thesis using resolve_based [OF assms Suc.IH Suc.prems fresh False pf svc Some] by blast
            qed
          qed
        qed
      qed
    qed
  qed
qed simp

lemma resolve_all_exact:
  assumes "closed_keys proj K" "card K < k"
  shows "cache_sound proj r \<Longrightarrow> resolving r = [] \<Longrightarrow> (\<And>n. n \<in> set names \<Longrightarrow> (f, n) \<in> K) \<Longrightarrow>
    \<exists>res. resolve_all k proj f r names = Some res \<and>
      (case res of Inl _ \<Rightarrow> (\<exists>n \<in> set names. \<not> (\<exists>s. extends_to proj (f, n) s))
       | Inr out \<Rightarrow> map fst out = names \<and> (\<forall>(n, s) \<in> set out. extends_to proj (f, n) s))"
proof (induction names arbitrary: r)
  case (Cons n names)
  have "card (K - set (resolving r)) < k" using assms(2) Cons.prems(2) by simp
  then obtain res r' where r': "resolveService k proj r f n = Some (res, r')" "resolves_exactly proj (f, n) res"
      "cache_sound proj r'" "resolving r' = []"
    using resolveService_exact [OF assms(1) Cons.prems(1), of f n k] Cons.prems by auto
  obtain rest where t: "resolve_all k proj f r' names = Some rest"
      "case rest of Inl _ \<Rightarrow> (\<exists>n \<in> set names. \<not> (\<exists>s. extends_to proj (f, n) s))
       | Inr out \<Rightarrow> map fst out = names \<and> (\<forall>(n, s) \<in> set out. extends_to proj (f, n) s)"
    using Cons.IH [OF r'(3,4)] Cons.prems(3) by auto
  show ?case using r'(1,2) t by (cases res; cases rest) (auto simp: resolves_exactly_def)
qed simp

section \<open>include\<close>

text \<open>The merge of the definitions of a file into the ones collected so far, key by key.\<close>

fun merge_defs :: "(meta \<Rightarrow> 'a \<Rightarrow> 'a \<Rightarrow> 'a) \<Rightarrow> meta \<Rightarrow> (string \<times> 'a) list \<Rightarrow> (string \<times> 'a) list \<Rightarrow> (string \<times> 'a) list" where
  "merge_defs mrg m dst [] = dst"
| "merge_defs mrg m dst ((name, x) # xs) =
     merge_defs mrg m (AList.update name (case map_of dst name of Some existing \<Rightarrow> mrg (meta_at m name) existing x | None \<Rightarrow> x) dst) xs"

definition mergeProjectInto :: "'x document \<Rightarrow> 'x parsed_file \<Rightarrow> 'x document" where
  "mergeProjectInto dst f =
     (let ov = pfDoc f; m = pfMeta f in
      dst\<lparr>docName := (if docName ov \<noteq> '''' then docName ov else docName dst),
          docServices := merge_defs mergeService (meta_at m ''services'') (docServices dst) (docServices ov),
          docSecrets := merge_defs mergeSecretDef (meta_at m ''secrets'') (docSecrets dst) (docSecrets ov),
          docVolumes := merge_defs mergeVolumeDef (meta_at m ''volumes'') (docVolumes dst) (docVolumes ov),
          docNetworks := merge_defs mergeNetworkDef (meta_at m ''networks'') (docNetworks dst) (docNetworks ov)\<rparr>)"

definition emptyDocument :: "'x document" where
  "emptyDocument = \<lparr>docName = '''', docServices = [], docSecrets = [], docConfigs = [], docVolumes = [], docNetworks = [],
     docInclude = [], docEgress = None, docIngress = None, docTelemetry = None, docCredentials = None, docShells = []\<rparr>"

definition resolveEnvFiles :: "string \<Rightarrow> string list \<Rightarrow> string list" where
  "resolveEnvFiles base envFile = map (\<lambda>f. if path_is_abs f then f else path_join [base, f]) envFile"

text \<open>The files of an include list in order, each with the env files of its entry.\<close>

definition include_targets :: "string \<Rightarrow> include_ref list \<Rightarrow> (string \<times> string list) list" where
  "include_targets dir includes =
     concat (map (\<lambda>ref.
       let envBase = (if irProjectDirectory ref = '''' then dir
                      else if path_is_abs (irProjectDirectory ref) then irProjectDirectory ref
                      else path_join [dir, irProjectDirectory ref])
       in map (\<lambda>rel. (resolve_path dir rel, resolveEnvFiles envBase (irEnvFile ref))) (irPath ref)) includes)"

definition overlay_includes :: "'x document \<Rightarrow> 'x parsed_file \<Rightarrow> 'x parsed_file" where
  "overlay_includes base pf =
     (let b = mergeProjectInto base pf in
      pf\<lparr>pfDoc := (pfDoc pf)\<lparr>docInclude := [], docName := docName b, docServices := docServices b, docSecrets := docSecrets b,
           docVolumes := docVolumes b, docNetworks := docNetworks b\<rparr>\<rparr>)"

text \<open>
  \<open>expand\<close>, its loop over the included files, and \<open>load\<close>; the first argument bounds the nesting, the
  second is the bound for \<open>extends\<close>. Parsing depends on the env files of the entry.
\<close>

type_synonym 'x parser = "string \<Rightarrow> string list \<Rightarrow> load_error + 'x parsed_file"

fun expand :: "nat \<Rightarrow> nat \<Rightarrow> 'x parser \<Rightarrow> 'x parsed_file \<Rightarrow> string \<Rightarrow> string list \<Rightarrow> (load_error + 'x parsed_file) option"
  and expand_paths :: "nat \<Rightarrow> nat \<Rightarrow> 'x parser \<Rightarrow> (string \<times> string list) list \<Rightarrow> string list \<Rightarrow> 'x document \<Rightarrow> (load_error + 'x document) option" where
  "expand k j parse pf absFile stack =
     (if docInclude (pfDoc pf) = [] then Some (Inr pf)
      else case expand_paths k j parse (include_targets (path_dir absFile) (docInclude (pfDoc pf))) stack emptyDocument of
        None \<Rightarrow> None
      | Some (Inl e) \<Rightarrow> Some (Inl e)
      | Some (Inr base) \<Rightarrow> Some (Inr (overlay_includes base pf)))"
| "expand_paths k j parse [] stack base = Some (Inr base)"
| "expand_paths 0 j parse (t # ts) stack base = None"
| "expand_paths (Suc k) j parse ((incAbs, envFiles) # ts) stack base =
     (if incAbs \<in> set stack then Some (Inl (EIncludeCycle incAbs))
      else case parse incAbs envFiles of
        Inl e \<Rightarrow> Some (Inl e)
      | Inr pf0 \<Rightarrow>
          (case resolveExtends j (\<lambda>f. parse f envFiles) incAbs pf0 of
             None \<Rightarrow> None
           | Some (Inl e) \<Rightarrow> Some (Inl e)
           | Some (Inr pf1) \<Rightarrow>
               (case expand k j parse pf1 incAbs (incAbs # stack) of
                  None \<Rightarrow> None
                | Some (Inl e) \<Rightarrow> Some (Inl e)
                | Some (Inr inc) \<Rightarrow> expand_paths (Suc k) j parse ts stack (mergeProjectInto base inc))))"

definition processInclude :: "nat \<Rightarrow> nat \<Rightarrow> 'x parser \<Rightarrow> 'x parsed_file \<Rightarrow> string \<Rightarrow> (load_error + 'x parsed_file) option" where
  "processInclude k j parse pf absFile = expand k j parse pf absFile [absFile]"

definition loadFile :: "nat \<Rightarrow> nat \<Rightarrow> 'x parser \<Rightarrow> string list \<Rightarrow> string \<Rightarrow> (load_error + 'x parsed_file) option" where
  "loadFile k j parse envFiles absFile =
     (case parse absFile envFiles of
        Inl e \<Rightarrow> Some (Inl e)
      | Inr pf \<Rightarrow>
          (case resolveExtends j (\<lambda>f. parse f envFiles) absFile pf of
             None \<Rightarrow> None
           | Some (Inl e) \<Rightarrow> Some (Inl e)
           | Some (Inr pf1) \<Rightarrow> processInclude k j parse pf1 absFile))"

text \<open>One file folded into the project: unlike an include, this merges configs and the project-wide blocks.\<close>

definition mergeFile :: "'x document \<Rightarrow> 'x parsed_file \<Rightarrow> 'x document" where
  "mergeFile merged f =
     (let p = pfDoc f; m = pfMeta f; last_wins = (\<lambda>new old. if new \<noteq> None then new else old) in
      merged\<lparr>docName := (if docName p \<noteq> '''' then docName p else docName merged),
             docEgress := last_wins (docEgress p) (docEgress merged),
             docIngress := last_wins (docIngress p) (docIngress merged),
             docTelemetry := last_wins (docTelemetry p) (docTelemetry merged),
             docCredentials := last_wins (docCredentials p) (docCredentials merged),
             docShells := (if docShells p \<noteq> [] then docShells p else docShells merged),
             docServices := merge_defs mergeService (meta_at m ''services'') (docServices merged) (docServices p),
             docSecrets := merge_defs mergeSecretDef (meta_at m ''secrets'') (docSecrets merged) (docSecrets p),
             docConfigs := merge_defs mergeConfigDef (meta_at m ''configs'') (docConfigs merged) (docConfigs p),
             docVolumes := merge_defs mergeVolumeDef (meta_at m ''volumes'') (docVolumes merged) (docVolumes p),
             docNetworks := merge_defs mergeNetworkDef (meta_at m ''networks'') (docNetworks merged) (docNetworks p)\<rparr>)"

fun load_files :: "nat \<Rightarrow> nat \<Rightarrow> 'x parser \<Rightarrow> string list \<Rightarrow> string list \<Rightarrow> 'x document \<Rightarrow> (load_error + 'x document) option" where
  "load_files k j parse envFiles [] merged = Some (Inr merged)"
| "load_files k j parse envFiles (f # fs) merged =
     (case loadFile k j parse envFiles f of
        None \<Rightarrow> None
      | Some (Inl e) \<Rightarrow> Some (Inl e)
      | Some (Inr pf) \<Rightarrow> load_files k j parse envFiles fs (mergeFile merged pf))"

definition LoadDocument :: "nat \<Rightarrow> nat \<Rightarrow> 'x parser \<Rightarrow> string list \<Rightarrow> string list \<Rightarrow> (load_error + 'x document) option" where
  "LoadDocument k j parse envFiles files =
     (if files = [] then Some (Inl ENoFiles)
      else case load_files k j parse envFiles files emptyDocument of
        None \<Rightarrow> None
      | Some (Inl e) \<Rightarrow> Some (Inl e)
      | Some (Inr merged) \<Rightarrow> if docServices merged = [] then Some (Inl ENoServices) else Some (Inr merged))"

section \<open>Properties\<close>

text \<open>C24. Resolving \<open>extends\<close> always returns and is exact. When the services that extend one another are
  finitely many, the resolver with its caches and its stack gives each service of the file what its
  chain of bases means; it fails only when some service has no meaning: its chain runs in a circle,
  leaves the files that parse, or names a service that is not there.\<close>

theorem extends_is_exact:
  assumes "closed_keys (parse(f := Inr pf)) K" "card K < k" "\<forall>n \<in> fst ` set (docServices (pfDoc pf)). (f, n) \<in> K"
    "distinct (map fst (docServices (pfDoc pf)))"
  shows "\<exists>res. resolveExtends k parse f pf = Some res \<and>
    (case res of
       Inl _ \<Rightarrow> (\<exists>n \<in> fst ` set (docServices (pfDoc pf)). \<not> (\<exists>s. extends_to (parse(f := Inr pf)) (f, n) s))
     | Inr pf' \<Rightarrow> map fst (docServices (pfDoc pf')) = map fst (docServices (pfDoc pf)) \<and>
         (\<forall>(n, s) \<in> set (docServices (pfDoc pf')). extends_to (parse(f := Inr pf)) (f, n) s))"
proof (cases "\<forall>(_, s) \<in> set (docServices (pfDoc pf)). Extends s = None")
  case True
  have "extends_to (parse(f := Inr pf)) (f, n) s" if "(n, s) \<in> set (docServices (pfDoc pf))" for n s
    using that True assms(4) by (intro extends_to.plain [where pf = pf]) auto
  then show ?thesis using True by (auto simp: resolveExtends_def)
next
  case False
  let ?r = "\<lparr>resolving = [], resolved = []\<rparr> :: 'a resolver"
  have "cache_sound (parse(f := Inr pf)) ?r" by (simp add: cache_sound_def)
  then obtain res where res: "resolve_all k (parse(f := Inr pf)) f ?r (map fst (docServices (pfDoc pf))) = Some res"
      "case res of Inl _ \<Rightarrow> (\<exists>n \<in> set (map fst (docServices (pfDoc pf))). \<not> (\<exists>s. extends_to (parse(f := Inr pf)) (f, n) s))
       | Inr out \<Rightarrow> map fst out = map fst (docServices (pfDoc pf)) \<and> (\<forall>(n, s) \<in> set out. extends_to (parse(f := Inr pf)) (f, n) s)"
    using resolve_all_exact [OF assms(1,2), of ?r "map fst (docServices (pfDoc pf))" f] assms(3) by auto
  then show ?thesis unfolding resolveExtends_def if_not_P [OF False] by (cases res) auto
qed

definition based_services :: "(string \<times> unit service_doc) list" where
  "based_services = [(''base'', zeroService\<lparr>Image := ''img:1''\<rparr>),
     (''web'', zeroService\<lparr>Extends := Some \<lparr>exService = ''base'', exFile = ''''\<rparr>\<rparr>)]"

definition based_file :: "unit parsed_file" where
  "based_file = \<lparr>pfDoc = emptyDocument\<lparr>docServices := based_services\<rparr>, pfMeta = None\<rparr>"

definition no_files :: "unit files" where
  "no_files f = Inl (EParse f)"

theorem extends_is_exact_witness:
  "\<exists>pf' s. resolveExtends 3 no_files ''/c.yaml'' based_file = Some (Inr pf') \<and> map_of (docServices (pfDoc pf')) ''web'' = Some s \<and>
     Image s = ''img:1'' \<and> extends_to (no_files(''/c.yaml'' := Inr based_file)) (''/c.yaml'', ''web'') s"
proof -
  let ?K = "{(''/c.yaml'', ''base''), (''/c.yaml'', ''web'')}"
  have K: "closed_keys (no_files(''/c.yaml'' := Inr based_file)) ?K" "card ?K < 3"
    by (auto simp: closed_keys_def base_of_def no_files_def based_file_def based_services_def base_file_def zeroService_def
        emptyDocument_def split: if_splits)
  have n: "\<forall>n \<in> fst ` set (docServices (pfDoc based_file)). (''/c.yaml'', n) \<in> ?K" "distinct (map fst (docServices (pfDoc based_file)))"
    by (simp_all add: based_file_def based_services_def emptyDocument_def)
  obtain pf' s where r: "resolveExtends 3 no_files ''/c.yaml'' based_file = Some (Inr pf')"
      "map_of (docServices (pfDoc pf')) ''web'' = Some s" "Image s = ''img:1''"
    by (simp add: resolveExtends_def based_file_def based_services_def base_file_def zeroService_def emptyDocument_def
        extend_service_def mergeService_def overrideScalar_def Let_def eval_nat_numeral)
  then show ?thesis using extends_is_exact [OF K n] by (fastforce dest: map_of_SomeD)
qed

text \<open>An include never brings in configs: the expanded file keeps the ones it had.\<close>

lemma include_drops_configs:
  "expand k j parse pf absFile stack = Some (Inr pf') \<Longrightarrow> docConfigs (pfDoc pf') = docConfigs (pfDoc pf)"
  by (auto simp: overlay_includes_def Let_def split: if_splits option.splits sum.splits)

end
