(* ===== verification/IpAddr.thy ===== *)
theory IpAddr
  imports GoStd
begin

text \<open>
  IP addresses as text, the way \<open>net\<close> and \<open>net/netip\<close> read and print them: IPv4 as 32-bit words, and \<open>net.IP\<close> values
  as byte lists of length 4 or 16.
\<close>

section \<open>IPv4\<close>

type_synonym ip4 = "32 word"

text \<open>An octet: digits, no leading zero, at most 255.\<close>

definition parse_octet :: "string \<Rightarrow> nat option" where
  "parse_octet s =
     (if s = [] \<or> \<not> list_all is_digit s \<or> (length s > 1 \<and> hd s = CHR ''0'') \<or> digits_val s > 255 then None
      else Some (nat (digits_val s)))"

text \<open>\<open>netip.ParseAddr\<close> where its result is asked for \<open>Is4\<close>: four octets. Any other text is None.\<close>

definition parse_ip4 :: "string \<Rightarrow> ip4 option" where
  "parse_ip4 s =
     (case map parse_octet (split_byte CHR ''.'' s) of
        [Some a, Some b, Some c, Some d] \<Rightarrow> Some (of_nat (((a * 256 + b) * 256 + c) * 256 + d))
      | _ \<Rightarrow> None)"

definition ip4_string :: "ip4 \<Rightarrow> string" where
  "ip4_string a =
     (let n = unat a in join_with ''.'' (map nat_digits [n div 16777216, n div 65536 mod 256, n div 256 mod 256, n mod 256]))"

lemma unat_lt [simp]: "unat (a :: ip4) < 2 ^ 32"
  using unsigned_less [of a, where ?'a = nat] by simp

lemma unat_small: "n < 2 ^ 32 \<Longrightarrow> unat (of_nat n :: ip4) = n"
  by (simp add: unat_of_nat take_bit_nat_eq_self)

section \<open>IP values\<close>

type_synonym ip = "8 word list"

definition ip4_bytes :: "ip4 \<Rightarrow> ip" where
  "ip4_bytes a = map (\<lambda>k. of_nat (unat a div 256 ^ k mod 256)) [3, 2, 1, 0]"

definition bytes_ip4 :: "ip \<Rightarrow> ip4" where
  "bytes_ip4 bs = of_nat (foldl (\<lambda>n b. n * 256 + unat b) 0 bs)"

definition v4_in_v6 :: ip where
  "v4_in_v6 = replicate 10 0 @ [255, 255]"

text \<open>\<open>IP.To4\<close>: the four bytes of an IPv4 address in either form.\<close>

definition To4 :: "ip \<Rightarrow> ip option" where
  "To4 p = (if length p = 4 then Some p else if length p = 16 \<and> take 12 p = v4_in_v6 then Some (drop 12 p) else None)"

text \<open>\<open>IP.Equal\<close>: the forms of one IPv4 address are equal.\<close>

definition ip_equal :: "ip \<Rightarrow> ip \<Rightarrow> bool" where
  "ip_equal p q =
     (if length p = length q then p = q
      else if length p = 4 \<and> length q = 16 then take 12 q = v4_in_v6 \<and> p = drop 12 q
      else if length p = 16 \<and> length q = 4 then take 12 p = v4_in_v6 \<and> q = drop 12 p
      else False)"

section \<open>Reading\<close>

definition hex_value :: "char \<Rightarrow> nat option" where
  "hex_value c =
     (if c \<in> set ''0123456789'' then Some (of_char c - 48)
      else if c \<in> set ''abcdef'' then Some (of_char c - 87)
      else if c \<in> set ''ABCDEF'' then Some (of_char c - 55) else None)"

definition is_hex :: "char \<Rightarrow> bool" where
  "is_hex c \<longleftrightarrow> hex_value c \<noteq> None"

definition hex_group :: "string \<Rightarrow> nat" where
  "hex_group s = foldl (\<lambda>n c. n * 16 + (case hex_value c of Some d \<Rightarrow> d | None \<Rightarrow> 0)) 0 s"

definition group_bytes :: "string \<Rightarrow> ip" where
  "group_bytes s = [of_nat (hex_group s div 256), of_nat (hex_group s mod 256)]"

text \<open>
  The loop of \<open>netip.parseIPv6\<close>: the bytes read so far, where the ellipsis was, and the rest of the text. The first
  argument is larger than the length of the text; every round takes at least one byte of it.
\<close>

fun parse_groups :: "nat \<Rightarrow> ip \<Rightarrow> nat option \<Rightarrow> string \<Rightarrow> (ip \<times> nat option) option" where
  "parse_groups 0 bs ell s = None"
| "parse_groups (Suc k) bs ell s =
     (if length bs \<ge> 16 then (if s = [] then Some (bs, ell) else None)
      else
        let g = takeWhile is_hex s; r = dropWhile is_hex s in
        if g = [] \<or> length g > 4 then None
        else if r \<noteq> [] \<and> hd r = CHR ''.'' then
          (if (ell = None \<and> length bs \<noteq> 12) \<or> length bs + 4 > 16 then None
           else map_option (\<lambda>a. (bs @ ip4_bytes a, ell)) (parse_ip4 s))
        else if r = [] then Some (bs @ group_bytes g, ell)
        else if hd r \<noteq> CHR '':'' \<or> length r = 1 then None
        else if r ! 1 = CHR '':'' then
          (if ell \<noteq> None then None
           else if drop 2 r = [] then Some (bs @ group_bytes g, Some (length bs + 2))
           else parse_groups k (bs @ group_bytes g) (Some (length bs + 2)) (drop 2 r))
        else parse_groups k (bs @ group_bytes g) ell (drop 1 r))"

text \<open>The ellipsis stands for at least one group of zeros.\<close>

definition fill_ellipsis :: "ip \<times> nat option \<Rightarrow> ip option" where
  "fill_ellipsis p =
     (case p of
        (bs, None) \<Rightarrow> if length bs = 16 then Some bs else None
      | (bs, Some i) \<Rightarrow> if length bs < 16 then Some (take i bs @ replicate (16 - length bs) 0 @ drop i bs) else None)"

definition parse_ip6 :: "string \<Rightarrow> ip option" where
  "parse_ip6 s =
     (if has_prefix s ''::'' then
        (if drop 2 s = [] then Some (replicate 16 0)
         else Option.bind (parse_groups (Suc (length s)) [] (Some 0) (drop 2 s)) fill_ellipsis)
      else Option.bind (parse_groups (Suc (length s)) [] None s) fill_ellipsis)"

text \<open>\<open>net.ParseIP\<close>: the first separator decides the family; a zone is refused; the result has 16 bytes.\<close>

definition ParseIP :: "string \<Rightarrow> ip option" where
  "ParseIP s =
     (case dropWhile (\<lambda>c. c \<notin> {CHR ''.'', CHR '':'', CHR ''%''}) s of
        c # _ \<Rightarrow>
          if c = CHR ''.'' then map_option (\<lambda>a. v4_in_v6 @ ip4_bytes a) (parse_ip4 s)
          else if c = CHR '':'' \<and> CHR ''%'' \<notin> set s then parse_ip6 s else None
      | [] \<Rightarrow> None)"

section \<open>Printing\<close>

fun pair_groups :: "ip \<Rightarrow> nat list" where
  "pair_groups (a # b # bs) = (unat a * 256 + unat b) # pair_groups bs"
| "pair_groups bs = []"

fun strip_zeros :: "string \<Rightarrow> string" where
  "strip_zeros (c # d # cs) = (if c = CHR ''0'' then strip_zeros (d # cs) else c # d # cs)"
| "strip_zeros s = s"

definition group_string :: "nat \<Rightarrow> string" where
  "group_string g = strip_zeros (map hex_digit [g div 4096, g div 256 mod 16, g div 16 mod 16, g mod 16])"

definition zero_run :: "nat list \<Rightarrow> nat \<Rightarrow> nat" where
  "zero_run gs i = length (takeWhile (\<lambda>g. g = 0) (drop i gs))"

text \<open>The first of the longest runs of at least two zero groups.\<close>

definition longest_run :: "nat list \<Rightarrow> (nat \<times> nat) option" where
  "longest_run gs =
     (let best = foldl (\<lambda>b i. if zero_run gs i > snd b then (i, zero_run gs i) else b) (0, 1) [0..<length gs] in
      if snd best \<ge> 2 then Some best else None)"

definition ip6_string :: "ip \<Rightarrow> string" where
  "ip6_string p =
     (let gs = pair_groups p in
      case longest_run gs of
        None \<Rightarrow> join_with '':'' (map group_string gs)
      | Some (i, n) \<Rightarrow>
          join_with '':'' (map group_string (take i gs)) @ ''::'' @ join_with '':'' (map group_string (drop (i + n) gs)))"

definition ip_string :: "ip \<Rightarrow> string" where
  "ip_string p = (case To4 p of Some q \<Rightarrow> ip4_string (bytes_ip4 q) | None \<Rightarrow> ip6_string p)"

section \<open>Host and port\<close>

text \<open>\<open>net.SplitHostPort\<close>: None is an error.\<close>

definition SplitHostPort :: "string \<Rightarrow> (string \<times> string) option" where
  "SplitHostPort s =
     (case str_last_index '':'' s of
        None \<Rightarrow> None
      | Some i \<Rightarrow>
          if s ! 0 = CHR ''['' then
            (case index_byte CHR '']'' s of
               None \<Rightarrow> None
             | Some e \<Rightarrow>
                 if Suc e \<noteq> i \<or> CHR ''['' \<in> set (drop 1 s) \<or> CHR '']'' \<in> set (drop (Suc e) s) then None
                 else Some (take (e - 1) (drop 1 s), drop (Suc i) s))
          else if CHR '':'' \<in> set (take i s) \<or> CHR ''['' \<in> set s \<or> CHR '']'' \<in> set s then None
          else Some (take i s, drop (Suc i) s))"

section \<open>Kinds\<close>

definition IsLoopback :: "ip \<Rightarrow> bool" where
  "IsLoopback p = (case To4 p of Some q \<Rightarrow> q ! 0 = 127 | None \<Rightarrow> p = replicate 15 0 @ [1])"

lemma length_ip4_bytes [simp]: "length (ip4_bytes a) = 4"
  by (simp add: ip4_bytes_def)

text \<open>An address that parses has sixteen bytes.\<close>

lemma fill_length: "fill_ellipsis q = Some p \<Longrightarrow> length p = 16"
  by (auto simp: fill_ellipsis_def split: prod.splits option.splits if_splits)

lemma parse_ip6_length: "parse_ip6 s = Some p \<Longrightarrow> length p = 16"
  by (auto simp: parse_ip6_def bind_eq_Some_conv fill_length simp del: split_paired_Ex split: if_splits)

lemma ParseIP_length: "ParseIP s = Some p \<Longrightarrow> length p = 16"
  by (auto simp: ParseIP_def v4_in_v6_def parse_ip6_length split: list.splits if_splits)

end
