(* ===== verification/UserNet.thy ===== *)
theory UserNet
  imports Sha256 IpAddr
begin

text \<open>
  Static addresses on Compose user networks (\<open>pkg/compose/usernet.go\<close>): IPv4 addresses and prefixes as
  \<open>net/netip\<close> reads and prints them, the deterministic choice of a free host address, and the
  allocation of one network with its pins, and the pass over all networks of a project with the names its
  services resolve.
\<close>

section \<open>Prefixes\<close>

record subnet =
  snAddr :: ip4
  snBits :: nat

text \<open>\<open>netip.ParsePrefix\<close> where its result is asked for an IPv4 address.\<close>

definition parse_prefix4 :: "string \<Rightarrow> subnet option" where
  "parse_prefix4 s =
     (case str_last_index ''/'' s of
        None \<Rightarrow> None
      | Some i \<Rightarrow>
          let bits = drop (Suc i) s in
          (case parse_ip4 (take i s) of
             None \<Rightarrow> None
           | Some a \<Rightarrow>
               if length bits > 1 \<and> (hd bits = CHR ''0'' \<or> \<not> is_digit (hd bits)) then None
               else (case parse_int 64 bits of
                       None \<Rightarrow> None
                     | Some b \<Rightarrow> if b < 0 \<or> b > 32 then None else Some \<lparr>snAddr = a, snBits = nat b\<rparr>)))"

definition subnet_size :: "subnet \<Rightarrow> nat" where
  "subnet_size p = 2 ^ (32 - snBits p)"

definition subnet_base :: "subnet \<Rightarrow> ip4" where
  "subnet_base p = of_nat (unat (snAddr p) div subnet_size p * subnet_size p)"

definition masked :: "subnet \<Rightarrow> subnet" where
  "masked p = p\<lparr>snAddr := subnet_base p\<rparr>"

definition in_subnet :: "subnet \<Rightarrow> ip4 \<Rightarrow> bool" where
  "in_subnet p a \<longleftrightarrow> unat a div subnet_size p = unat (snAddr p) div subnet_size p"

definition subnet_string :: "subnet \<Rightarrow> string" where
  "subnet_string p = ip4_string (snAddr p) @ ''/'' @ nat_digits (snBits p)"

section \<open>Names and default subnets\<close>

definition dns_char :: "char \<Rightarrow> char" where
  "dns_char c =
     (if c \<in> set ''ABCDEFGHIJKLMNOPQRSTUVWXYZ'' then char_of (of_char c + 32 :: nat)
      else if c \<in> set ''abcdefghijklmnopqrstuvwxyz0123456789-'' then c else CHR ''-'')"

definition trim_dashes :: "string \<Rightarrow> string" where
  "trim_dashes s = rev (dropWhile (\<lambda>c. c = CHR ''-'') (rev (dropWhile (\<lambda>c. c = CHR ''-'') s)))"

text \<open>\<open>userNetSanitize\<close> on ASCII names.\<close>

definition userNetSanitize :: "string \<Rightarrow> string" where
  "userNetSanitize s = trim_dashes (map dns_char s)"

definition userNetLabel :: "string \<Rightarrow> string" where
  "userNetLabel logical =
     (let b0 = userNetSanitize logical; b1 = (if b0 = '''' then ''net'' else b0);
          b2 = (if length b1 > 54 then trim_dashes (take 54 b1) else b1)
      in b2 @ ''-'' @ hex_encode (take 4 (sha256 (map of_char logical))))"

definition MultusDefaultSubnet :: "string \<Rightarrow> string" where
  "MultusDefaultSubnet networkName =
     ''10.222.'' @ nat_digits (unat (sha256 (map of_char (userNetLabel networkName)) ! 0)) @ ''.0/24''"

section \<open>Choosing a free address\<close>

type_synonym taken = "(ip4 \<times> string) list"

definition be_nat :: "8 word list \<Rightarrow> nat" where
  "be_nat bs = foldl (\<lambda>a b. a * 256 + unat b) 0 bs"

definition host_at :: "subnet \<Rightarrow> nat \<Rightarrow> ip4" where
  "host_at p idx = subnet_base p + of_nat (2 + idx)"

definition usable :: "subnet \<Rightarrow> nat" where
  "usable p = subnet_size p - 3"

definition hash_index :: "subnet \<Rightarrow> string \<Rightarrow> nat \<Rightarrow> nat" where
  "hash_index p name k = be_nat (take 8 (sha256 (map of_char (name @ [CHR 0x00] @ nat_digits k)))) mod usable p"

text \<open>The linear scan from the first hashed index, as far as \<open>off\<close> goes.\<close>

function scan_free :: "subnet \<Rightarrow> taken \<Rightarrow> nat \<Rightarrow> nat \<Rightarrow> ip4 option" where
  "scan_free p tk start off =
     (if off \<ge> usable p then None
      else let a = host_at p ((start + off) mod usable p) in
        if map_of tk a = None then Some a else scan_free p tk start (Suc off))"
  by pat_completeness auto
termination
  by (relation "measure (\<lambda>(p, _, _, off). usable p - off)") auto

declare scan_free.simps [simp del]

definition staticIPFor :: "string \<Rightarrow> subnet \<Rightarrow> taken \<Rightarrow> ip4 option" where
  "staticIPFor name p tk =
     (case find (\<lambda>k. map_of tk (host_at p (hash_index p name k)) = None) [0..<8] of
        Some k \<Rightarrow> Some (host_at p (hash_index p name k))
      | None \<Rightarrow> scan_free p tk (hash_index p name 0) 0)"

section \<open>Allocating a network\<close>

record attachment =
  atName :: string
  atDriver :: string
  atDriverOpts :: "string \<rightharpoonup> string"
  atAliases :: "string list"
  atDefault :: bool
  atIP :: string
  atSubnet :: string

record member =
  mbService :: string
  mbAtt :: attachment
  mbSpecName :: string
  mbReplicas :: int

datatype net_error = PinHostLocal string | PinNoSubnet string | PinScaled string | NotIPv4 string | Outside string
  | BothPin string string | NoFree string

definition opt_of :: "member \<Rightarrow> string \<Rightarrow> string" where
  "opt_of m k = (case atDriverOpts (mbAtt m) k of None \<Rightarrow> '''' | Some v \<Rightarrow> v)"

definition set_ip :: "subnet \<Rightarrow> ip4 \<Rightarrow> member \<Rightarrow> member" where
  "set_ip p a m = m\<lparr>mbAtt := (mbAtt m)\<lparr>atIP := ip4_string a @ ''/'' @ nat_digits (snBits p)\<rparr>\<rparr>"

definition pinned :: "member \<Rightarrow> bool" where
  "pinned m \<longleftrightarrow> atIP (mbAtt m) \<noteq> ''''"

text \<open>The first pass: explicit pins.\<close>

fun pin_loop :: "subnet \<Rightarrow> taken \<Rightarrow> member list \<Rightarrow> net_error + (member list \<times> taken)" where
  "pin_loop p tk [] = Inr ([], tk)"
| "pin_loop p tk (m # ms) =
     (if \<not> pinned m then (case pin_loop p tk ms of Inl e \<Rightarrow> Inl e | Inr (ms', tk') \<Rightarrow> Inr (m # ms', tk'))
      else case parse_ip4 (atIP (mbAtt m)) of
        None \<Rightarrow> Inl (NotIPv4 (mbService m))
      | Some a \<Rightarrow>
          if \<not> in_subnet p a then Inl (Outside (mbService m))
          else (case map_of tk a of
                  Some holder \<Rightarrow> Inl (BothPin holder (mbService m))
                | None \<Rightarrow>
                    (case pin_loop p ((a, mbService m) # tk) ms of
                       Inl e \<Rightarrow> Inl e
                     | Inr (ms', tk') \<Rightarrow> Inr (set_ip p a m # ms', tk'))))"

text \<open>The second pass: derived addresses for the members without one.\<close>

fun derive_loop :: "subnet \<Rightarrow> taken \<Rightarrow> member list \<Rightarrow> net_error + (member list \<times> taken)" where
  "derive_loop p tk [] = Inr ([], tk)"
| "derive_loop p tk (m # ms) =
     (if pinned m then (case derive_loop p tk ms of Inl e \<Rightarrow> Inl e | Inr (ms', tk') \<Rightarrow> Inr (m # ms', tk'))
      else case staticIPFor (mbSpecName m) p tk of
        None \<Rightarrow> Inl (NoFree (mbService m))
      | Some a \<Rightarrow>
          (case derive_loop p ((a, mbService m) # tk) ms of
             Inl e \<Rightarrow> Inl e
           | Inr (ms', tk') \<Rightarrow> Inr (set_ip p a m # ms', tk')))"

text \<open>The subnet of the network, from the options of its first member.\<close>

definition subnetStr :: "string \<Rightarrow> member list \<Rightarrow> string" where
  "subnetStr netName mems =
     (if opt_of (hd mems) ''subnet'' = '''' then MultusDefaultSubnet netName else opt_of (hd mems) ''subnet'')"

text \<open>
  \<open>allocateUserNet\<close>: None leaves the network dynamically addressed; otherwise the members with their
  addresses and who holds each address (the source's table maps the holders to the printed address).
\<close>

definition allocateUserNet :: "string \<Rightarrow> member list \<Rightarrow> net_error + (member list \<times> taken) option" where
  "allocateUserNet netName mems =
     (let first_pin = find pinned mems in
      if opt_of (hd mems) ''ipam'' = ''host-local'' then
        (case first_pin of Some m \<Rightarrow> Inl (PinHostLocal (mbService m)) | None \<Rightarrow> Inr None)
      else
        let dynamic = (case first_pin of Some m \<Rightarrow> Inl (PinNoSubnet (mbService m)) | None \<Rightarrow> Inr None)
        in case parse_prefix4 (subnetStr netName mems) of
             None \<Rightarrow> dynamic
           | Some p0 \<Rightarrow>
               if snBits p0 > 29 then dynamic
               else
                 let p = masked p0 in
                 if \<exists>m \<in> set mems. mbReplicas m > 1 then
                   (case first_pin of Some m \<Rightarrow> Inl (PinScaled (mbService m)) | None \<Rightarrow> Inr None)
                 else (case pin_loop p [] mems of
                         Inl e \<Rightarrow> Inl e
                       | Inr (ms1, tk1) \<Rightarrow>
                           (case derive_loop p tk1 ms1 of
                              Inl e \<Rightarrow> Inl e
                            | Inr (ms2, tk2) \<Rightarrow> Inr (Some (ms2, tk2)))))"

section \<open>All networks of a project\<close>

text \<open>
  What \<open>applyUserNetIPs\<close> reads and writes of a service's plan. The plans are an association list by service name.
\<close>

record user_plan =
  plSpecName :: string
  plReplicas :: int
  plProxy :: bool
  plNetworks :: "attachment list"
  plDNS :: "(string \<rightharpoonup> string) option"

type_synonym user_plans = "(string \<times> user_plan) list"

definition multusDrivers :: "string list" where
  "multusDrivers = [''bridge'', ''ipvlan'', ''macvlan'']"

definition static_att :: "attachment \<Rightarrow> bool" where
  "static_att att \<longleftrightarrow> atDriver att \<in> set multusDrivers \<and> \<not> atDefault att"

text \<open>An address pinned on any other network is dropped.\<close>

definition drop_pins :: "user_plan \<Rightarrow> user_plan" where
  "drop_pins pl = pl\<lparr>plNetworks := map (\<lambda>att. if static_att att then att else att\<lparr>atIP := []\<rparr>) (plNetworks pl)\<rparr>"

definition as_member :: "string \<Rightarrow> user_plan \<Rightarrow> attachment \<Rightarrow> member" where
  "as_member svc pl att = \<lparr>mbService = svc, mbAtt = att, mbSpecName = plSpecName pl, mbReplicas = plReplicas pl\<rparr>"

definition on_net :: "string \<Rightarrow> attachment \<Rightarrow> bool" where
  "on_net netName att \<longleftrightarrow> static_att att \<and> atName att = netName"

definition members_of :: "user_plans \<Rightarrow> string \<Rightarrow> member list" where
  "members_of pls netName = concat (map (\<lambda>(svc, pl). map (as_member svc pl) (filter (on_net netName) (plNetworks pl))) pls)"

definition net_names :: "user_plans \<Rightarrow> string list" where
  "net_names pls = sort (remdups (concat (map (\<lambda>(svc, pl). map atName (filter static_att (plNetworks pl))) pls)))"

text \<open>The members point into the plans: the addresses go back, in the order the members were taken.\<close>

fun put_atts :: "string \<Rightarrow> member list \<Rightarrow> attachment list \<Rightarrow> attachment list \<times> member list" where
  "put_atts netName ms [] = ([], ms)"
| "put_atts netName ms (att # atts) =
     (if on_net netName att then
        (case ms of
           [] \<Rightarrow> (att # atts, [])
         | m # ms' \<Rightarrow> let (r, rest) = put_atts netName ms' atts in (mbAtt m # r, rest))
      else let (r, rest) = put_atts netName ms atts in (att # r, rest))"

fun put_members :: "string \<Rightarrow> member list \<Rightarrow> user_plans \<Rightarrow> user_plans" where
  "put_members netName ms [] = []"
| "put_members netName ms ((svc, pl) # pls) =
     (let (atts, rest) = put_atts netName ms (plNetworks pl) in (svc, pl\<lparr>plNetworks := atts\<rparr>) # put_members netName rest pls)"

text \<open>The table of a network: service to address, the last write first.\<close>

definition ip_table :: "taken \<Rightarrow> string \<rightharpoonup> string" where
  "ip_table tk = map_of (map (\<lambda>(a, svc). (svc, ip4_string a)) tk)"

fun allocate_all :: "user_plans \<Rightarrow> (string \<rightharpoonup> (string \<rightharpoonup> string)) \<Rightarrow> string list \<Rightarrow>
    net_error + (user_plans \<times> (string \<rightharpoonup> (string \<rightharpoonup> string)))" where
  "allocate_all pls ips [] = Inr (pls, ips)"
| "allocate_all pls ips (netName # ns) =
     (case allocateUserNet netName (members_of pls netName) of
        Inl e \<Rightarrow> Inl e
      | Inr None \<Rightarrow> allocate_all pls ips ns
      | Inr (Some (ms, tk)) \<Rightarrow> allocate_all (put_members netName ms pls) (ips(netName \<mapsto> ip_table tk)) ns)"

definition add_alias :: "string \<Rightarrow> string \<Rightarrow> (string \<rightharpoonup> string) \<Rightarrow> (string \<rightharpoonup> string)" where
  "add_alias ip alias recs = (if recs alias = None then recs(alias \<mapsto> ip) else recs)"

definition table_ip :: "(string \<rightharpoonup> string) \<Rightarrow> string \<Rightarrow> string" where
  "table_ip table svc = (case table svc of None \<Rightarrow> [] | Some ip \<Rightarrow> ip)"

definition peer_records :: "(string \<rightharpoonup> string) \<Rightarrow> member \<Rightarrow> (string \<rightharpoonup> string) \<Rightarrow> (string \<rightharpoonup> string)" where
  "peer_records table peer = fold (add_alias (table_ip table (mbService peer))) (atAliases (mbAtt peer))"

definition net_records :: "user_plans \<Rightarrow> (string \<rightharpoonup> (string \<rightharpoonup> string)) \<Rightarrow> attachment \<Rightarrow> (string \<rightharpoonup> string) \<Rightarrow> (string \<rightharpoonup> string)" where
  "net_records pls ips att recs =
     (case ips (atName att) of None \<Rightarrow> recs | Some table \<Rightarrow> fold (peer_records table) (members_of pls (atName att)) recs)"

definition service_records :: "user_plans \<Rightarrow> (string \<rightharpoonup> (string \<rightharpoonup> string)) \<Rightarrow> user_plan \<Rightarrow> (string \<rightharpoonup> string)" where
  "service_records pls ips pl = fold (net_records pls ips) (plNetworks pl) Map.empty"

definition set_dns :: "user_plans \<Rightarrow> (string \<rightharpoonup> (string \<rightharpoonup> string)) \<Rightarrow> user_plan \<Rightarrow> user_plan" where
  "set_dns pls ips pl =
     (if plProxy pl \<or> list_all (\<lambda>att. case ips (atName att) of None \<Rightarrow> True
           | Some _ \<Rightarrow> list_all (\<lambda>peer. atAliases (mbAtt peer) = []) (members_of pls (atName att))) (plNetworks pl)
      then pl else pl\<lparr>plDNS := Some (service_records pls ips pl)\<rparr>)"

text \<open>\<open>applyUserNetIPs\<close>: the plans in the order of their names, with addresses and records.\<close>

definition applyUserNetIPs :: "user_plans \<Rightarrow> net_error + user_plans" where
  "applyUserNetIPs plans =
     (let pls = map (map_prod id drop_pins) (sort_key fst plans) in
      case allocate_all pls Map.empty (net_names pls) of
        Inl e \<Rightarrow> Inl e
      | Inr (pls', ips) \<Rightarrow> Inr (map (map_prod id (set_dns pls' ips)) pls'))"

section \<open>Host addresses\<close>

definition usable_subnet :: "subnet \<Rightarrow> bool" where
  "usable_subnet p \<longleftrightarrow> snBits p \<le> 29 \<and> snAddr p = subnet_base p"

lemma subnet_size_pos [simp]: "0 < subnet_size p"
  by (simp add: subnet_size_def)

lemma subnet_size_le: "subnet_size p \<le> 2 ^ 32"
  unfolding subnet_size_def by (rule power_increasing) simp_all

lemma subnet_size_dvd: "subnet_size p dvd 2 ^ 32"
  unfolding subnet_size_def by (rule le_imp_power_dvd) simp

lemma unat_plus_small: "unat (a :: ip4) + n < 2 ^ 32 \<Longrightarrow> unat (a + of_nat n) = unat a + n"
  using unat_small [of n] by (simp add: unat_word_ariths)

lemma unat_base: "unat (subnet_base p) = unat (snAddr p) div subnet_size p * subnet_size p"
proof -
  have "unat (snAddr p) div subnet_size p * subnet_size p \<le> unat (snAddr p)" by (rule div_times_less_eq_dividend)
  also have "\<dots> < 2 ^ 32" by (rule unat_lt)
  finally show ?thesis unfolding subnet_base_def by (rule unat_small)
qed

lemma base_room: "unat (subnet_base p) + subnet_size p \<le> 2 ^ 32"
proof -
  obtain q where q: "2 ^ 32 = subnet_size p * q" using subnet_size_dvd by (rule dvdE)
  have "unat (snAddr p) div subnet_size p < q"
    using unat_lt [of "snAddr p"] unfolding q by (simp add: div_less_iff_less_mult mult.commute)
  then have "(unat (snAddr p) div subnet_size p + 1) * subnet_size p \<le> q * subnet_size p" by (intro mult_le_mono1) simp
  then show ?thesis unfolding unat_base q by (simp add: mult.commute)
qed

lemma masked_usable: "snBits p \<le> 29 \<Longrightarrow> usable_subnet (masked p)"
proof -
  have "subnet_size (masked p) = subnet_size p" by (simp add: subnet_size_def masked_def)
  then have "unat (subnet_base (masked p)) = unat (subnet_base p)"
    unfolding unat_base [of "masked p"] by (simp add: masked_def unat_base)
  then have "subnet_base (masked p) = subnet_base p" by (rule word_unat_eq_iff [THEN iffD2])
  then show "snBits p \<le> 29 \<Longrightarrow> usable_subnet (masked p)"
    by (simp add: usable_subnet_def masked_def)
qed

lemma size_ge: "usable_subnet p \<Longrightarrow> 8 \<le> subnet_size p"
proof -
  assume "usable_subnet p"
  then have "(2 :: nat) ^ 3 \<le> 2 ^ (32 - snBits p)" unfolding usable_subnet_def by (intro power_increasing) auto
  then show ?thesis by (simp add: subnet_size_def)
qed

lemma host_at_unat:
  assumes "usable_subnet p" "idx < usable p"
  shows "unat (host_at p idx) = unat (subnet_base p) + 2 + idx"
proof -
  have lt: "unat (subnet_base p) + (2 + idx) < 2 ^ 32"
    using base_room [of p] assms(2) size_ge [OF assms(1)] unfolding usable_def by linarith
  show ?thesis unfolding host_at_def unat_plus_small [OF lt] by simp
qed

text \<open>The addresses a derived member never gets: network, gateway and broadcast.\<close>

definition reserved :: "subnet \<Rightarrow> ip4 set" where
  "reserved p = {subnet_base p, subnet_base p + 1, subnet_base p + of_nat (subnet_size p - 1)}"

lemma host_at_good:
  assumes "usable_subnet p" "idx < usable p"
  shows "in_subnet p (host_at p idx)" "host_at p idx \<notin> reserved p"
proof -
  note u = host_at_unat [OF assms] and s = size_ge [OF assms(1)]
  have k: "2 + idx < subnet_size p" using assms(2) s by (simp add: usable_def)
  have "(unat (snAddr p) div subnet_size p * subnet_size p + (2 + idx)) div subnet_size p = unat (snAddr p) div subnet_size p"
    using k by (simp only: div_mult_self3 div_less add_0_right subnet_size_pos [THEN less_imp_neq, symmetric] not_False_eq_True)
  then show "in_subnet p (host_at p idx)" unfolding in_subnet_def u by (simp only: unat_base add.assoc)
  have room: "unat (subnet_base p) + (subnet_size p - 1) < 2 ^ 32" using base_room [of p] s by linarith
  note last = unat_plus_small [OF room]
  have one: "unat (subnet_base p + 1) = unat (subnet_base p) + 1" using unat_plus_small [of "subnet_base p" 1] room s by simp
  show "host_at p idx \<notin> reserved p"
    using u last one assms(2) s unfolding reserved_def usable_def by auto
qed

section \<open>What the choice promises\<close>

lemma usable_pos: "usable_subnet p \<Longrightarrow> 0 < usable p"
  using size_ge by (fastforce simp: usable_def)

lemma hash_index_lt: "usable_subnet p \<Longrightarrow> hash_index p name k < usable p"
  by (simp add: hash_index_def usable_pos)

definition free_host :: "subnet \<Rightarrow> taken \<Rightarrow> ip4 \<Rightarrow> bool" where
  "free_host p tk a \<longleftrightarrow> map_of tk a = None \<and> in_subnet p a \<and> a \<notin> reserved p"

lemma scan_free_Some:
  "usable_subnet p \<Longrightarrow> scan_free p tk start off = Some a \<Longrightarrow> free_host p tk a"
proof (induction p tk start off rule: scan_free.induct)
  case (1 p tk start off)
  have "(start + off) mod usable p < usable p" using usable_pos [OF 1(2)] by simp
  note g = host_at_good [OF 1(2) this]
  show ?case
  proof (cases "off \<ge> usable p \<or> map_of tk (host_at p ((start + off) mod usable p)) \<noteq> None")
    case True
    then show ?thesis using 1 by (auto simp: scan_free.simps [of p tk start off] Let_def split: if_splits)
  next
    case False
    then show ?thesis using g 1(3) by (auto simp: scan_free.simps [of p tk start off] Let_def free_host_def)
  qed
qed

lemma scan_free_index:
  "usable_subnet p \<Longrightarrow> scan_free p tk start off = Some a \<Longrightarrow> \<exists>idx < usable p. map_of tk (host_at p idx) = None"
proof (induction p tk start off rule: scan_free.induct)
  case (1 p tk start off)
  have lt: "(start + off) mod usable p < usable p" using usable_pos [OF 1(2)] by simp
  show ?case
  proof (cases "map_of tk (host_at p ((start + off) mod usable p)) = None")
    case True
    then show ?thesis using lt by blast
  next
    case False
    then show ?thesis using 1 by (auto simp: scan_free.simps [of p tk start off] Let_def split: if_splits)
  qed
qed

lemma scan_free_None:
  "scan_free p tk start off = None \<Longrightarrow> off \<le> i \<Longrightarrow> i < usable p \<Longrightarrow> map_of tk (host_at p ((start + i) mod usable p)) \<noteq> None"
proof (induction p tk start off rule: scan_free.induct)
  case (1 p tk start off)
  have lt: "\<not> off \<ge> usable p" using 1(3,4) by simp
  have t: "map_of tk (host_at p ((start + off) mod usable p)) \<noteq> None" "scan_free p tk start (Suc off) = None"
    using 1(2) lt by (auto simp: scan_free.simps [of p tk start off] Let_def split: if_splits)
  show ?case
  proof (cases "i = off")
    case True
    then show ?thesis using t(1) by simp
  next
    case False
    then show ?thesis using 1(1) [OF lt refl _ t(2)] t(1) 1(3,4) by auto
  qed
qed

lemma staticIPFor_Some:
  assumes "usable_subnet p" "staticIPFor name p tk = Some a"
  shows "free_host p tk a"
proof (cases "find (\<lambda>k. map_of tk (host_at p (hash_index p name k)) = None) [0..<8]")
  case None
  then show ?thesis using assms scan_free_Some by (simp add: staticIPFor_def)
next
  case (Some k)
  then have "map_of tk (host_at p (hash_index p name k)) = None" by (auto simp: find_Some_iff)
  moreover have "a = host_at p (hash_index p name k)" using assms(2) Some by (simp add: staticIPFor_def)
  ultimately show ?thesis using host_at_good [OF assms(1) hash_index_lt [OF assms(1), of name k]]
    by (simp add: free_host_def)
qed

lemma staticIPFor_None:
  assumes "staticIPFor name p tk = None" "idx < usable p"
  shows "map_of tk (host_at p idx) \<noteq> None"
proof -
  have n: "scan_free p tk (hash_index p name 0) 0 = None" using assms(1) by (simp add: staticIPFor_def split: option.splits)
  obtain i where "i < usable p" "(hash_index p name 0 + i) mod usable p = idx" using rotate_cover [OF assms(2)] by blast
  then show ?thesis using scan_free_None [OF n] by auto
qed

lemma set_ip_pinned: "pinned (set_ip p a m)"
  by (simp add: pinned_def set_ip_def)

lemma set_ip_service [simp]: "mbService (set_ip p a m) = mbService m"
  by (simp add: set_ip_def)

definition pin_ok :: "subnet \<Rightarrow> taken \<Rightarrow> member \<Rightarrow> member \<Rightarrow> bool" where
  "pin_ok p tk m m' \<longleftrightarrow>
     (if pinned m then \<exists>a. parse_ip4 (atIP (mbAtt m)) = Some a \<and> in_subnet p a \<and> (a, mbService m) \<in> set tk \<and> m' = set_ip p a m else m' = m)"

definition derive_ok :: "subnet \<Rightarrow> taken \<Rightarrow> member \<Rightarrow> member \<Rightarrow> bool" where
  "derive_ok p tk m m' \<longleftrightarrow>
     (if pinned m then m' = m else \<exists>a. in_subnet p a \<and> a \<notin> reserved p \<and> (a, mbService m) \<in> set tk \<and> m' = set_ip p a m)"

lemma pin_ok_mono: "pin_ok p tk m m' \<Longrightarrow> set tk \<subseteq> set tk' \<Longrightarrow> pin_ok p tk' m m'"
  by (auto simp: pin_ok_def split: if_splits)

lemma pin_loop_ok:
  "pin_loop p tk ms = Inr (ms', tk') \<Longrightarrow> distinct (map fst tk) \<Longrightarrow>
     distinct (map fst tk') \<and> set tk \<subseteq> set tk' \<and> list_all2 (pin_ok p tk') ms ms'"
proof (induction p tk ms arbitrary: ms' tk' rule: pin_loop.induct)
  case (2 p tk m ms)
  show ?case
  proof (cases "pinned m")
    case False
    then obtain ms1 where r: "pin_loop p tk ms = Inr (ms1, tk')" "ms' = m # ms1"
      using "2.prems"(1) by (auto split: sum.splits)
    then show ?thesis using "2.IH"(1) [OF False r(1) "2.prems"(2)] False by (simp add: pin_ok_def)
  next
    case True
    then obtain a ms1 where r: "parse_ip4 (atIP (mbAtt m)) = Some a" "in_subnet p a" "map_of tk a = None"
        "pin_loop p ((a, mbService m) # tk) ms = Inr (ms1, tk')" "ms' = set_ip p a m # ms1"
      using "2.prems"(1) by (auto split: option.splits if_splits sum.splits)
    have "distinct (map fst ((a, mbService m) # tk))" using "2.prems"(2) r(3) by (simp add: map_of_eq_None_iff)
    then show ?thesis using "2.IH"(2) [OF _ r(1) _ r(3,4)] True r by (auto simp: pin_ok_def)
  qed
qed simp

lemma derive_loop_ok:
  "derive_loop p tk ms = Inr (ms', tk') \<Longrightarrow> usable_subnet p \<Longrightarrow> distinct (map fst tk) \<Longrightarrow>
     distinct (map fst tk') \<and> set tk \<subseteq> set tk' \<and> list_all2 (derive_ok p tk') ms ms'"
proof (induction p tk ms arbitrary: ms' tk' rule: derive_loop.induct)
  case (2 p tk m ms)
  show ?case
  proof (cases "pinned m")
    case True
    then obtain ms1 where r: "derive_loop p tk ms = Inr (ms1, tk')" "ms' = m # ms1"
      using "2.prems"(1) by (auto split: sum.splits)
    then show ?thesis using "2.IH"(1) [OF True r(1) "2.prems"(2,3)] True by (simp add: derive_ok_def)
  next
    case False
    then obtain a ms1 where r: "staticIPFor (mbSpecName m) p tk = Some a"
        "derive_loop p ((a, mbService m) # tk) ms = Inr (ms1, tk')" "ms' = set_ip p a m # ms1"
      using "2.prems"(1) by (auto split: option.splits sum.splits)
    note f = staticIPFor_Some [OF "2.prems"(2) r(1)]
    have "distinct (map fst ((a, mbService m) # tk))" using "2.prems"(3) f by (simp add: map_of_eq_None_iff free_host_def)
    then show ?thesis using "2.IH"(2) [OF False r(1,2) "2.prems"(2)] False r f by (auto simp: derive_ok_def free_host_def)
  qed
qed simp

definition addressed :: "subnet \<Rightarrow> taken \<Rightarrow> member \<Rightarrow> member \<Rightarrow> ip4 \<Rightarrow> bool" where
  "addressed p tk m m' a \<longleftrightarrow> m' = set_ip p a m \<and> in_subnet p a \<and> (a, mbService m) \<in> set tk \<and>
     (if pinned m then parse_ip4 (atIP (mbAtt m)) = Some a else a \<notin> reserved p)"

lemma both_passes:
  assumes "pin_ok p tk m m1" "derive_ok p tk' m1 m2" "set tk \<subseteq> set tk'"
  shows "\<exists>a. addressed p tk' m m2 a"
  using assms by (cases "pinned m") (auto simp: pin_ok_def derive_ok_def addressed_def set_ip_pinned)

lemma allocated:
  assumes "allocateUserNet netName mems = Inr (Some (ms, tk))"
  shows "\<exists>p0. parse_prefix4 (subnetStr netName mems) = Some p0 \<and> usable_subnet (masked p0) \<and> distinct (map fst tk) \<and>
    list_all2 (\<lambda>m m'. \<exists>a. addressed (masked p0) tk m m' a) mems ms"
proof -
  obtain p0 ms1 tk1 where s: "parse_prefix4 (subnetStr netName mems) = Some p0"
    and r: "snBits p0 \<le> 29" "pin_loop (masked p0) [] mems = Inr (ms1, tk1)" "derive_loop (masked p0) tk1 ms1 = Inr (ms, tk)"
    using assms unfolding allocateUserNet_def Let_def
    by (auto split: if_splits option.splits sum.splits simp: not_less)
  note u = masked_usable [OF r(1)]
  note a = pin_loop_ok [OF r(2)] and d = derive_loop_ok [OF r(3) u]
  have p: "distinct (map fst tk1)" "list_all2 (pin_ok (masked p0) tk1) mems ms1" using a by auto
  have q: "distinct (map fst tk)" "set tk1 \<subseteq> set tk" "list_all2 (derive_ok (masked p0) tk) ms1 ms" using d p(1) by auto
  have "list_all2 (\<lambda>m m'. \<exists>a. addressed (masked p0) tk m m' a) mems ms"
    by (rule list_all2_trans [OF _ p(2) q(3)]) (use both_passes q(2) in blast)
  then show ?thesis using s u q(1) by blast
qed

section \<open>Where the records of a service come from\<close>

text \<open>A record names a peer on a statically addressed network of the service, under an alias of that peer.\<close>

definition record_ok :: "user_plans \<Rightarrow> (string \<rightharpoonup> (string \<rightharpoonup> string)) \<Rightarrow> attachment list \<Rightarrow> string \<Rightarrow> string \<Rightarrow> bool" where
  "record_ok pls ips atts alias ip \<longleftrightarrow>
     (\<exists>att \<in> set atts. \<exists>table. ips (atName att) = Some table \<and>
        (\<exists>peer \<in> set (members_of pls (atName att)). alias \<in> set (atAliases (mbAtt peer)) \<and> ip = table_ip table (mbService peer)))"

lemma fold_records:
  assumes "\<And>x recs. x \<in> set xs \<Longrightarrow> P recs \<Longrightarrow> P (f x recs)" "P recs"
  shows "P (fold f xs recs)"
  using assms by (induction xs arbitrary: recs) auto

lemma service_records_sound:
  assumes "service_records pls ips pl alias = Some ip"
  shows "record_ok pls ips (plNetworks pl) alias ip"
proof -
  let ?P = "\<lambda>recs. \<forall>alias ip. recs alias = Some ip \<longrightarrow> record_ok pls ips (plNetworks pl) alias ip"
  have "?P (net_records pls ips att recs)" if att: "att \<in> set (plNetworks pl)" and P: "?P recs" for att recs
  proof (cases "ips (atName att)")
    case None
    then show ?thesis using P by (simp add: net_records_def)
  next
    case (Some table)
    have "?P (peer_records table peer recs)" if peer: "peer \<in> set (members_of pls (atName att))" and P: "?P recs" for peer recs
      unfolding peer_records_def
    proof (rule fold_records [where P = ?P, OF _ P])
      fix al recs assume al: "al \<in> set (atAliases (mbAtt peer))" and Q: "?P recs"
      have "record_ok pls ips (plNetworks pl) al (table_ip table (mbService peer))"
        unfolding record_ok_def using att Some peer al by blast
      then show "?P (add_alias (table_ip table (mbService peer)) al recs)" using Q by (simp add: add_alias_def)
    qed
    then show ?thesis using fold_records [where P = ?P, OF _ P, of "members_of pls (atName att)" "peer_records table"] Some
      by (simp add: net_records_def)
  qed
  then have "?P (service_records pls ips pl)" unfolding service_records_def
    by (intro fold_records [where P = ?P]) auto
  then show ?thesis using assms by blast
qed

text \<open>The names a service resolves are all the aliases of all the peers on its statically addressed networks.\<close>

definition peer_names :: "user_plans \<Rightarrow> (string \<rightharpoonup> (string \<rightharpoonup> string)) \<Rightarrow> attachment \<Rightarrow> string set" where
  "peer_names pls ips att =
     (case ips (atName att) of None \<Rightarrow> {} | Some _ \<Rightarrow> \<Union>peer \<in> set (members_of pls (atName att)). set (atAliases (mbAtt peer)))"

lemma dom_fold:
  assumes "\<And>x recs. dom (f x recs) = g x \<union> dom recs"
  shows "dom (fold f xs recs) = (\<Union>x \<in> set xs. g x) \<union> dom recs"
  by (induction xs arbitrary: recs) (simp_all add: assms Un_ac)

lemma dom_add_alias: "dom (add_alias ip alias recs) = {alias} \<union> dom recs"
  by (auto simp: add_alias_def)

lemma dom_peer_records: "dom (peer_records table peer recs) = set (atAliases (mbAtt peer)) \<union> dom recs"
  unfolding peer_records_def by (simp add: dom_fold [where g = "\<lambda>al. {al}", OF dom_add_alias])

lemma dom_net_records: "dom (net_records pls ips att recs) = peer_names pls ips att \<union> dom recs"
  by (simp add: net_records_def peer_names_def dom_fold [OF dom_peer_records] split: option.split)

lemma dom_service_records: "dom (service_records pls ips pl) = (\<Union>att \<in> set (plNetworks pl). peer_names pls ips att)"
  by (simp add: service_records_def dom_fold [OF dom_net_records])

lemma set_dns_iff:
  "set_dns pls ips pl =
     (if plProxy pl \<or> service_records pls ips pl = Map.empty then pl else pl\<lparr>plDNS := Some (service_records pls ips pl)\<rparr>)"
proof -
  have "list_all (\<lambda>att. case ips (atName att) of None \<Rightarrow> True
           | Some _ \<Rightarrow> list_all (\<lambda>peer. atAliases (mbAtt peer) = []) (members_of pls (atName att))) (plNetworks pl) \<longleftrightarrow>
         (\<forall>att \<in> set (plNetworks pl). peer_names pls ips att = {})"
    by (auto simp: list_all_iff peer_names_def split: option.splits)
  also have "\<dots> \<longleftrightarrow> dom (service_records pls ips pl) = {}" by (simp add: dom_service_records)
  finally show ?thesis by (simp add: set_dns_def)
qed

text \<open>Records are never overwritten, so of two networks that know an alias the one listed first decides it.\<close>

lemma add_alias_keeps: "recs al = Some ip \<Longrightarrow> add_alias ip' alias recs al = Some ip"
  by (auto simp: add_alias_def)

lemma peer_records_keeps: "recs al = Some ip \<Longrightarrow> peer_records table peer recs al = Some ip"
  unfolding peer_records_def by (rule fold_records [where P = "\<lambda>r. r al = Some ip"]) (simp_all add: add_alias_keeps)

lemma net_records_keeps: "recs al = Some ip \<Longrightarrow> net_records pls ips att recs al = Some ip"
  unfolding net_records_def
  by (cases "ips (atName att)") (simp_all add: fold_records [where P = "\<lambda>r. r al = Some ip"] peer_records_keeps)

lemma first_listed_network_wins:
  assumes "plNetworks pl = att # atts" "al \<in> peer_names pls ips att"
  shows "service_records pls ips pl al = net_records pls ips att Map.empty al"
proof -
  have "al \<in> dom (net_records pls ips att Map.empty)" using assms(2) by (simp add: dom_net_records)
  then obtain ip where ip: "net_records pls ips att Map.empty al = Some ip" by blast
  then have "fold (net_records pls ips) atts (net_records pls ips att Map.empty) al = Some ip"
    by (intro fold_records [where P = "\<lambda>r. r al = Some ip"]) (simp_all add: net_records_keeps)
  then show ?thesis using ip assms(1) by (simp add: service_records_def)
qed

section \<open>Properties\<close>

text \<open>C25. Static addresses never collide. When a network is statically addressed, every member gets an
  address of the network's subnet, no two members the same one; a pin keeps the address it names, and
  a derived address is never the network's, the gateway's or the broadcast address.\<close>

theorem static_addresses_distinct:
  assumes "allocateUserNet netName mems = Inr (Some (ms, tk))" "distinct (map mbService mems)"
  shows "\<exists>p0 addrs. parse_prefix4 (subnetStr netName mems) = Some p0 \<and> usable_subnet (masked p0) \<and>
    length addrs = length mems \<and> length ms = length mems \<and> distinct addrs \<and>
    (\<forall>i < length mems. ms ! i = set_ip (masked p0) (addrs ! i) (mems ! i) \<and> in_subnet (masked p0) (addrs ! i) \<and>
       (if pinned (mems ! i) then parse_ip4 (atIP (mbAtt (mems ! i))) = Some (addrs ! i) else addrs ! i \<notin> reserved (masked p0)))"
proof -
  obtain p0 where p0: "parse_prefix4 (subnetStr netName mems) = Some p0" "usable_subnet (masked p0)"
      "distinct (map fst tk)" "list_all2 (\<lambda>m m'. \<exists>a. addressed (masked p0) tk m m' a) mems ms"
    using allocated [OF assms(1)] by blast
  define addr where "addr i = (SOME a. addressed (masked p0) tk (mems ! i) (ms ! i) a)" for i
  have len: "length ms = length mems" using list_all2_lengthD [OF p0(4)] by simp
  have a: "addressed (masked p0) tk (mems ! i) (ms ! i) (addr i)" if "i < length mems" for i
    unfolding addr_def by (rule someI_ex [OF list_all2_nthD [OF p0(4) that]])
  have inj: "i = j" if "i < length mems" "j < length mems" "addr i = addr j" for i j
  proof -
    have "(addr i, mbService (mems ! i)) \<in> set tk" "(addr i, mbService (mems ! j)) \<in> set tk"
      using a [OF that(1)] a [OF that(2)] that(3) by (auto simp: addressed_def)
    then have "mbService (mems ! i) = mbService (mems ! j)" using p0(3) by (metis eq_key_imp_eq_value)
    then show ?thesis using assms(2) that(1,2) by (simp add: distinct_conv_nth) (metis nth_map)
  qed
  have "distinct (map addr [0..<length mems])" using inj by (auto simp: distinct_map inj_on_def)
  then show ?thesis using p0(1,2) len a
    by (intro exI [of _ p0] exI [of _ "map addr [0..<length mems]"]) (auto simp: addressed_def)
qed

definition two_pins :: "member list" where
  "two_pins =
     [\<lparr>mbService = ''db'', mbAtt = \<lparr>atName = ''n'', atDriver = ''bridge'', atDriverOpts = [''subnet'' \<mapsto> ''10.1.0.0/24''],
         atAliases = [''db''], atDefault = False, atIP = ''10.1.0.9'', atSubnet = []\<rparr>, mbSpecName = ''p-db'', mbReplicas = 1\<rparr>,
      \<lparr>mbService = ''web'', mbAtt = \<lparr>atName = ''n'', atDriver = ''bridge'', atDriverOpts = [''subnet'' \<mapsto> ''10.1.0.0/24''],
         atAliases = [''web''], atDefault = False, atIP = ''10.1.0.7'', atSubnet = []\<rparr>, mbSpecName = ''p-web'', mbReplicas = 1\<rparr>]"

lemma octets_run:
  "map parse_octet (split_byte CHR ''.'' ''10.1.0.0'') = [Some 10, Some 1, Some 0, Some 0]"
  "map parse_octet (split_byte CHR ''.'' ''10.1.0.9'') = [Some 10, Some 1, Some 0, Some 9]"
  "map parse_octet (split_byte CHR ''.'' ''10.1.0.7'') = [Some 10, Some 1, Some 0, Some 7]"
  by code_simp+

lemma prefix_run:
  "str_last_index ''/'' ''10.1.0.0/24'' = Some 8" "parse_int 64 ''24'' = Some 24" "is_digit CHR ''2''"
  by code_simp+

lemma ip4_run:
  "parse_ip4 ''10.1.0.0'' = Some 0x0A010000" "parse_ip4 ''10.1.0.9'' = Some 0x0A010009" "parse_ip4 ''10.1.0.7'' = Some 0x0A010007"
  unfolding parse_ip4_def octets_run by simp_all

lemma prefix4_run: "parse_prefix4 ''10.1.0.0/24'' = Some \<lparr>snAddr = 0x0A010000, snBits = 24\<rparr>"
  unfolding parse_prefix4_def prefix_run by (simp add: ip4_run prefix_run)

lemma two_pins_run: "\<exists>ms tk. allocateUserNet ''n'' two_pins = Inr (Some (ms, tk))"
  by (simp add: allocateUserNet_def two_pins_def subnetStr_def opt_of_def prefix4_run ip4_run pinned_def set_ip_def
    in_subnet_def masked_def subnet_base_def subnet_size_def Let_def)

theorem static_addresses_distinct_witness:
  "\<exists>ms tk p0 addrs. allocateUserNet ''n'' two_pins = Inr (Some (ms, tk)) \<and>
     parse_prefix4 (subnetStr ''n'' two_pins) = Some p0 \<and> length addrs = length two_pins \<and> distinct (addrs :: ip4 list)"
proof -
  obtain ms tk where r: "allocateUserNet ''n'' two_pins = Inr (Some (ms, tk))" using two_pins_run by blast
  have d: "distinct (map mbService two_pins)" by (simp add: two_pins_def)
  show ?thesis using r static_addresses_distinct [OF r d] by blast
qed

text \<open>A derived address is found exactly when there is one. \<open>staticIPFor\<close> fails only when every usable host of
  the subnet is taken, and what it returns is free, inside the subnet and not reserved.\<close>

theorem static_ip_found_iff_free:
  assumes "usable_subnet p"
  shows "(staticIPFor name p tk = None \<longleftrightarrow> (\<forall>idx < usable p. map_of tk (host_at p idx) \<noteq> None)) \<and>
    (case staticIPFor name p tk of None \<Rightarrow> True | Some a \<Rightarrow> map_of tk a = None \<and> in_subnet p a \<and> a \<notin> reserved p)"
proof (cases "staticIPFor name p tk")
  case None
  then show ?thesis using staticIPFor_None [OF None] by simp
next
  case (Some a)
  note f = staticIPFor_Some [OF assms Some]
  have "\<exists>idx < usable p. map_of tk (host_at p idx) = None"
  proof (cases "find (\<lambda>k. map_of tk (host_at p (hash_index p name k)) = None) [0..<8]")
    case (Some k)
    then have "map_of tk (host_at p (hash_index p name k)) = None" by (auto simp: find_Some_iff)
    then show ?thesis using hash_index_lt [OF assms] by blast
  next
    case None
    then have "scan_free p tk (hash_index p name 0) 0 = Some a" using Some by (simp add: staticIPFor_def)
    then show ?thesis using scan_free_index [OF assms] by blast
  qed
  then show ?thesis using Some f by (auto simp: free_host_def)
qed

definition full_subnet :: subnet where
  "full_subnet = \<lparr>snAddr = 0x0A010000, snBits = 29\<rparr>"

definition full_taken :: taken where
  "full_taken = map (\<lambda>i. (host_at full_subnet i, ''x'')) [0..<5]"

lemma full_run: "usable full_subnet = 5" "usable_subnet full_subnet"
  by (simp_all add: usable_def usable_subnet_def subnet_base_def full_subnet_def subnet_size_def)

theorem static_ip_found_iff_free_witness:
  "usable_subnet full_subnet \<and> staticIPFor ''web'' full_subnet full_taken = None"
proof -
  have "map_of full_taken (host_at full_subnet idx) \<noteq> None" if "idx < usable full_subnet" for idx
    using that by (simp add: full_taken_def map_of_eq_None_iff full_run image_image)
  then show ?thesis using full_run static_ip_found_iff_free [OF full_run(2), of "''web''" full_taken] by simp
qed

text \<open>The subnet a network declares under \<open>ipam\<close> does not take part: only the driver option and the default do.\<close>

lemma ipam_subnet_ignored:
  "subnetStr netName (m\<lparr>mbAtt := (mbAtt m)\<lparr>atSubnet := s\<rparr>\<rparr> # ms) = subnetStr netName (m # ms)"
  by (simp add: subnetStr_def opt_of_def)

end
