(* ===== verification/ImageRef.thy ===== *)
theory ImageRef
  imports Prelude
begin

text \<open>
  Image references by their registry part (\<open>pkg/imageref/imageref.go\<close>): bare references, qualification with the
  builtin registry, and the split of a name into host and repository.
\<close>

text \<open>The text before the first slash is a registry host if it has a dot or a colon, or is \<open>localhost\<close>.\<close>

definition is_host :: "string \<Rightarrow> bool" where
  "is_host host \<longleftrightarrow> host = ''localhost'' \<or> CHR ''.'' \<in> set host \<or> CHR '':'' \<in> set host"

definition IsBare :: "string \<Rightarrow> bool" where
  "IsBare ref = (case index_byte CHR ''/'' ref of None \<Rightarrow> True | Some i \<Rightarrow> \<not> is_host (take i ref))"

definition QualifyBare :: "string \<Rightarrow> string \<Rightarrow> string" where
  "QualifyBare ref registryHost = (if registryHost = [] \<or> \<not> IsBare ref then ref else registryHost @ ''/'' @ ref)"

definition SplitHostRepo :: "string \<Rightarrow> string \<times> string" where
  "SplitHostRepo name =
     (if IsBare name then ([], name)
      else case index_byte CHR ''/'' name of None \<Rightarrow> ([], name) | Some i \<Rightarrow> (take i name, drop (Suc i) name))"

lemma is_host_nonempty: "is_host host \<Longrightarrow> host \<noteq> []"
  by (auto simp: is_host_def)

lemma index_host: "CHR ''/'' \<notin> set host \<Longrightarrow> index_byte CHR ''/'' (host @ ''/'' @ ref) = Some (length host)"
  by (simp add: index_byte_append)

text \<open>A bare reference qualified with a registry host splits into that host and itself.\<close>

lemma qualify_split:
  assumes "IsBare ref" "is_host host" "CHR ''/'' \<notin> set host"
  shows "SplitHostRepo (QualifyBare ref host) = (host, ref)"
proof -
  have "host \<noteq> []" by (rule is_host_nonempty [OF assms(2)])
  then have q: "QualifyBare ref host = host @ ''/'' @ ref" using assms(1) by (simp add: QualifyBare_def)
  have "\<not> IsBare (host @ ''/'' @ ref)" unfolding IsBare_def index_host [OF assms(3)] using assms(2) by simp
  then show ?thesis unfolding q SplitHostRepo_def index_host [OF assms(3)] by simp
qed

text \<open>With such a host, qualifying again changes nothing.\<close>

lemma qualify_idem:
  assumes "is_host host" "CHR ''/'' \<notin> set host"
  shows "QualifyBare (QualifyBare ref host) host = QualifyBare ref host"
proof (cases "IsBare ref \<and> host \<noteq> []")
  case True
  have "\<not> IsBare (host @ ''/'' @ ref)" unfolding IsBare_def index_host [OF assms(2)] using assms(1) by simp
  then show ?thesis using True by (simp add: QualifyBare_def)
next
  case False
  then show ?thesis by (auto simp: QualifyBare_def)
qed

text \<open>The split loses nothing: host and repository make up the name.\<close>

lemma host_repo_join:
  assumes "SplitHostRepo name = (h, r)"
  shows "name = (if h = [] then r else h @ ''/'' @ r)"
proof (cases "IsBare name")
  case True
  then show ?thesis using assms by (auto simp: SplitHostRepo_def)
next
  case False
  then obtain i where i: "index_byte CHR ''/'' name = Some i" "is_host (take i name)"
    by (auto simp: IsBare_def split: option.splits)
  have "name = take i name @ CHR ''/'' # drop (Suc i) name"
    using index_byte_SomeD [OF i(1)] id_take_nth_drop [of i name] by simp
  moreover have "take i name \<noteq> []" by (rule is_host_nonempty [OF i(2)])
  moreover have "h = take i name" "r = drop (Suc i) name" using assms False i(1) by (auto simp: SplitHostRepo_def)
  ultimately show ?thesis by (simp only: if_not_P append_Cons append_Nil if_False)
qed

end
