(* ===== verification/Hub.thy ===== *)
theory Hub
  imports Prelude "HOL-Library.AList"
begin

text \<open>
  The in-memory service registry of the workload hub (\<open>pkg/hub/registry.go\<close>), and the contract of the \<open>Store\<close>
  interface that it and the distributed registry meet.
\<close>

section \<open>Targets\<close>

text \<open>A live session to a spoke is known by its identity.\<close>

type_synonym session = nat

record target =
  Addr :: string
  Mux :: "session option"
  Protocol :: string
  ForwardAddr :: string
  ForwardName :: string

definition direct_target :: "string \<Rightarrow> string \<Rightarrow> target" where
  "direct_target addr protocol = \<lparr>Addr = addr, Mux = None, Protocol = protocol, ForwardAddr = [], ForwardName = []\<rparr>"

definition deliver_target :: "session \<Rightarrow> target" where
  "deliver_target mux = \<lparr>Addr = [], Mux = Some mux, Protocol = [], ForwardAddr = [], ForwardName = []\<rparr>"

definition forward_target :: "string \<Rightarrow> string \<Rightarrow> target" where
  "forward_target addr name = \<lparr>Addr = [], Mux = None, Protocol = [], ForwardAddr = addr, ForwardName = name\<rparr>"

section \<open>The registry\<close>

record entry =
  connID :: string
  tgt :: target

record registry =
  svc :: "(string \<times> entry list) list"
  next_of :: "(string \<times> nat) list"

definition map_get :: "(string \<times> 'a) list \<Rightarrow> 'a \<Rightarrow> string \<Rightarrow> 'a" where
  "map_get m d k = (case map_of m k of None \<Rightarrow> d | Some v \<Rightarrow> v)"

definition NewRegistry :: registry where
  "NewRegistry = \<lparr>svc = [], next_of = []\<rparr>"

definition add_entry :: "string \<Rightarrow> string \<Rightarrow> target \<Rightarrow> registry \<Rightarrow> registry" where
  "add_entry conn name t r = r\<lparr>svc := AList.update name (map_get (svc r) [] name @ [\<lparr>connID = conn, tgt = t\<rparr>]) (svc r)\<rparr>"

definition Register :: "string \<Rightarrow> string \<Rightarrow> string \<Rightarrow> string \<Rightarrow> registry \<Rightarrow> registry" where
  "Register conn name addr protocol r = add_entry conn name (direct_target addr protocol) r"

definition RegisterDeliver :: "string \<Rightarrow> string \<Rightarrow> session \<Rightarrow> registry \<Rightarrow> registry" where
  "RegisterDeliver conn name mux r = add_entry conn name (deliver_target mux) r"

definition Lookup :: "string \<Rightarrow> registry \<Rightarrow> target option \<times> registry" where
  "Lookup name r =
     (let es = map_get (svc r) [] name in
      if es = [] then (None, r)
      else let i = map_get (next_of r) 0 name mod length es in
        (Some (tgt (es ! i)), r\<lparr>next_of := AList.update name (i + 1) (next_of r)\<rparr>))"

definition Catalog :: "registry \<Rightarrow> string list" where
  "Catalog r = sort (map fst (svc r))"

text \<open>\<open>RemoveConn\<close> rewrites every name; a name without entries goes, with its cursor.\<close>

definition kept_entries :: "string \<Rightarrow> entry list \<Rightarrow> entry list" where
  "kept_entries conn es = filter (\<lambda>e. connID e \<noteq> conn) es"

definition RemoveConn :: "string \<Rightarrow> registry \<Rightarrow> registry" where
  "RemoveConn conn r =
     r\<lparr>svc := filter (\<lambda>(_, es). es \<noteq> []) (map (\<lambda>(n, es). (n, kept_entries conn es)) (svc r)),
       next_of := filter (\<lambda>(n, _). kept_entries conn (map_get (svc r) [] n) \<noteq> [] \<or> map_of (svc r) n = None) (next_of r)\<rparr>"

section \<open>The contract of a service store\<close>

text \<open>
  What a caller of \<open>Store\<close> relies on. \<open>prov s n\<close> are the providers of a name, each with the connection that registered
  it. Registering adds a provider (and may replace the same connection's earlier one), removing a connection
  drops exactly its providers, a lookup returns some provider and fails only when there is none.
\<close>

locale service_store =
  fixes inv :: "'st \<Rightarrow> bool"
    and prov :: "'st \<Rightarrow> string \<Rightarrow> (string \<times> target) set"
    and register :: "string \<Rightarrow> string \<Rightarrow> target \<Rightarrow> 'st \<Rightarrow> 'st"
    and lookup :: "string \<Rightarrow> 'st \<Rightarrow> target option \<times> 'st"
    and remove :: "string \<Rightarrow> 'st \<Rightarrow> 'st"
    and catalog :: "'st \<Rightarrow> string list"
    and usable :: "string \<Rightarrow> string \<Rightarrow> target \<Rightarrow> bool"
  assumes register_inv: "inv s \<Longrightarrow> usable c n t \<Longrightarrow> inv (register c n t s)"
    and register_prov: "inv s \<Longrightarrow> usable c n t \<Longrightarrow> (c, t) \<in> prov (register c n t s) n"
    and register_only: "inv s \<Longrightarrow> usable c n t \<Longrightarrow> prov (register c n t s) m \<subseteq> (if m = n then insert (c, t) (prov s n) else prov s m)"
    and register_others: "inv s \<Longrightarrow> usable c n t \<Longrightarrow> p \<in> prov s m \<Longrightarrow> fst p \<noteq> c \<or> m \<noteq> n \<Longrightarrow> p \<in> prov (register c n t s) m"
    and lookup_inv: "inv s \<Longrightarrow> inv (snd (lookup n s))"
    and lookup_prov: "inv s \<Longrightarrow> prov (snd (lookup n s)) = prov s"
    and lookup_some: "inv s \<Longrightarrow> fst (lookup n s) = Some t \<Longrightarrow> t \<in> snd ` prov s n"
    and lookup_none: "inv s \<Longrightarrow> fst (lookup n s) = None \<Longrightarrow> prov s n = {}"
    and remove_inv: "inv s \<Longrightarrow> inv (remove c s)"
    and remove_prov: "inv s \<Longrightarrow> prov (remove c s) n = {p \<in> prov s n. fst p \<noteq> c}"
    and catalog_sorted: "inv s \<Longrightarrow> sorted (catalog s) \<and> distinct (catalog s)"
    and catalog_set: "inv s \<Longrightarrow> set (catalog s) = {n. prov s n \<noteq> {}}"

datatype hub_call = CRegister string string target | CLookup string | CRemove string

text \<open>Whether a provider is still registered after a sequence of calls: its connection was not removed since.\<close>

fun registered :: "hub_call list \<Rightarrow> string \<Rightarrow> string \<Rightarrow> target \<Rightarrow> bool" where
  "registered [] c n t = False"
| "registered (CRegister c' n' t' # cs) c n t \<longleftrightarrow> (c' = c \<and> n' = n \<and> t' = t) \<or> registered cs c n t"
| "registered (CLookup n' # cs) c n t \<longleftrightarrow> registered cs c n t"
| "registered (CRemove c' # cs) c n t \<longleftrightarrow> c' \<noteq> c \<and> registered cs c n t"

text \<open>Whether a connection provides a name after a sequence of calls, the last one first.\<close>

fun provides :: "hub_call list \<Rightarrow> string \<Rightarrow> string \<Rightarrow> bool" where
  "provides [] c n = False"
| "provides (CRegister c' n' t' # cs) c n \<longleftrightarrow> (c' = c \<and> n' = n) \<or> provides cs c n"
| "provides (CLookup n' # cs) c n \<longleftrightarrow> provides cs c n"
| "provides (CRemove c' # cs) c n \<longleftrightarrow> c' \<noteq> c \<and> provides cs c n"

fun run_calls :: "(string \<Rightarrow> string \<Rightarrow> target \<Rightarrow> 'st \<Rightarrow> 'st) \<Rightarrow> (string \<Rightarrow> 'st \<Rightarrow> target option \<times> 'st) \<Rightarrow> (string \<Rightarrow> 'st \<Rightarrow> 'st) \<Rightarrow>
    'st \<Rightarrow> hub_call list \<Rightarrow> 'st" where
  "run_calls reg lk rm s [] = s"
| "run_calls reg lk rm s (CRegister c n t # cs) = reg c n t (run_calls reg lk rm s cs)"
| "run_calls reg lk rm s (CLookup n # cs) = snd (lk n (run_calls reg lk rm s cs))"
| "run_calls reg lk rm s (CRemove c # cs) = rm c (run_calls reg lk rm s cs)"

fun calls_ok :: "(string \<Rightarrow> string \<Rightarrow> target \<Rightarrow> bool) \<Rightarrow> hub_call list \<Rightarrow> bool" where
  "calls_ok ok [] = True"
| "calls_ok ok (CRegister c n t # cs) \<longleftrightarrow> ok c n t \<and> calls_ok ok cs"
| "calls_ok ok (CLookup n # cs) \<longleftrightarrow> calls_ok ok cs"
| "calls_ok ok (CRemove c # cs) \<longleftrightarrow> calls_ok ok cs"

context service_store
begin

abbreviation run where
  "run s cs \<equiv> run_calls register lookup remove s cs"

lemma run_inv: "inv s \<Longrightarrow> calls_ok usable cs \<Longrightarrow> inv (run s cs)"
proof (induction cs)
  case (Cons x cs)
  then show ?case by (cases x) (auto simp: register_inv lookup_inv remove_inv)
qed simp

text \<open>Every provider was registered by a connection that was not removed since, under that name and target.\<close>

lemma prov_registered:
  "inv s \<Longrightarrow> (\<And>m. prov s m = {}) \<Longrightarrow> calls_ok usable cs \<Longrightarrow> (c, t) \<in> prov (run s cs) n \<Longrightarrow> registered cs c n t"
proof (induction cs arbitrary: n)
  case (Cons x cs)
  have i: "inv (run s cs)" if "calls_ok usable cs" using run_inv Cons.prems(1) that by blast
  show ?case
  proof (cases x)
    case (CRegister c' n' t')
    then show ?thesis using Cons register_only [OF i, of c' n' t' n] by (fastforce split: if_splits)
  qed (use Cons i in \<open>auto simp: lookup_prov remove_prov\<close>)
qed simp

text \<open>A connection that registered a name and was not removed since is a provider of it.\<close>

lemma provides_prov:
  "inv s \<Longrightarrow> calls_ok usable cs \<Longrightarrow> provides cs c n \<Longrightarrow> \<exists>t. (c, t) \<in> prov (run s cs) n"
proof (induction cs)
  case (Cons x cs)
  have i: "inv (run s cs)" if "calls_ok usable cs" using run_inv Cons.prems(1) that by blast
  show ?case
  proof (cases x)
    case (CRegister c' n' t')
    then have ok: "usable c' n' t'" "inv (run s cs)" using Cons.prems i by auto
    show ?thesis
    proof (cases "c' = c \<and> n' = n")
      case True
      then show ?thesis using register_prov [OF ok(2,1)] CRegister by auto
    next
      case False
      then obtain t where "(c, t) \<in> prov (run s cs) n" using Cons CRegister by auto
      then show ?thesis using register_others [OF ok(2,1), of "(c, t)" n] False CRegister by auto
    qed
  next
    case (CLookup m)
    then show ?thesis using Cons i by (auto simp: lookup_prov)
  next
    case (CRemove d)
    then show ?thesis using Cons i by (auto simp: remove_prov)
  qed
qed simp

text \<open>So a lookup finds a target exactly when some connection still provides the name, and returns one of theirs.\<close>

lemma directory:
  assumes "inv s" "\<And>m. prov s m = {}" "calls_ok usable cs"
  shows "case fst (lookup n (run s cs)) of
      None \<Rightarrow> \<forall>c. \<not> provides cs c n
    | Some t \<Rightarrow> \<exists>c. registered cs c n t"
proof (cases "fst (lookup n (run s cs))")
  case None
  then show ?thesis using lookup_none [OF run_inv [OF assms(1,3)] None] provides_prov [OF assms(1,3)] by auto
next
  case (Some t)
  then have "t \<in> snd ` prov (run s cs) n" by (rule lookup_some [OF run_inv [OF assms(1,3)]])
  then obtain c where "(c, t) \<in> prov (run s cs) n" by auto
  then show ?thesis using prov_registered [OF assms] Some by auto
qed

lemma catalog_directory:
  assumes "inv s" "\<And>m. prov s m = {}" "calls_ok usable cs"
  shows "set (catalog (run s cs)) = {n. \<exists>c. provides cs c n}"
proof -
  have "prov (run s cs) n \<noteq> {} \<longleftrightarrow> (\<exists>c. provides cs c n)" for n
  proof
    assume "prov (run s cs) n \<noteq> {}"
    then obtain c t where "(c, t) \<in> prov (run s cs) n" by auto
    then have "registered cs c n t" using prov_registered [OF assms] by blast
    then have "provides cs c n" by (induction cs c n t rule: registered.induct) auto
    then show "\<exists>c. provides cs c n" ..
  qed (use provides_prov [OF assms(1,3)] in auto)
  then show ?thesis using catalog_set [OF run_inv [OF assms(1,3)]] by simp
qed

end

section \<open>The registry meets the contract\<close>

definition reg_inv :: "registry \<Rightarrow> bool" where
  "reg_inv r \<longleftrightarrow> distinct (map fst (svc r)) \<and> [] \<notin> ran (map_of (svc r))"

definition reg_prov :: "registry \<Rightarrow> string \<Rightarrow> (string \<times> target) set" where
  "reg_prov r n = (\<lambda>e. (connID e, tgt e)) ` set (map_get (svc r) [] n)"

lemma map_get_update: "map_get (AList.update k v m) d k' = (if k' = k then v else map_get m d k')"
  by (simp add: map_get_def update_conv')

lemma kept_names: "fst ` set (filter P (map (\<lambda>(n, es). (n, f es)) m)) \<subseteq> fst ` set m"
  by force

lemma map_of_kept:
  "distinct (map fst m) \<Longrightarrow>
     map_of (filter (\<lambda>(_, es). es \<noteq> []) (map (\<lambda>(n, es). (n, kept_entries c es)) m)) n =
       (case map_of m n of None \<Rightarrow> None | Some es \<Rightarrow> if kept_entries c es = [] then None else Some (kept_entries c es))"
proof (induction m)
  case (Cons x m)
  have "map_of m (fst x) = None" using Cons.prems by (cases x) (simp add: map_of_eq_None_iff)
  moreover have "map_of (filter (\<lambda>(_, es). es \<noteq> []) (map (\<lambda>(n, es). (n, kept_entries c es)) m)) (fst x) = None"
    using Cons.prems kept_names [of _ "kept_entries c" m] by (simp add: map_of_eq_None_iff) blast
  ultimately show ?case using Cons by (cases x) (auto split: option.split)
qed simp

lemma map_get_kept:
  "distinct (map fst m) \<Longrightarrow>
     map_get (filter (\<lambda>(_, es). es \<noteq> []) (map (\<lambda>(n, es). (n, kept_entries c es)) m)) [] n = kept_entries c (map_get m [] n)"
  unfolding map_get_def map_of_kept by (simp split: option.split add: kept_entries_def)

lemma distinct_kept:
  "distinct (map fst m) \<Longrightarrow> distinct (map fst (filter P (map (\<lambda>(n, es). (n, f es)) m)))"
proof (induction m)
  case (Cons x m)
  have "fst x \<notin> fst ` set (filter P (map (\<lambda>(n, es). (n, f es)) m))" 
    by (rule contra_subsetD [OF kept_names]) (use Cons.prems in simp)
  then show ?case using Cons by (cases x) simp
qed simp

lemma reg_inv_add: "reg_inv r \<Longrightarrow> reg_inv (add_entry c n t r)"
  unfolding reg_inv_def add_entry_def
  by (auto simp: distinct_update update_conv' ran_def)

lemma reg_prov_add: "reg_prov (add_entry c n t r) m = (if m = n then insert (c, t) (reg_prov r n) else reg_prov r m)"
  by (auto simp: reg_prov_def add_entry_def map_get_update)

lemma lookup_svc: "svc (snd (Lookup n r)) = svc r"
  by (simp add: Lookup_def Let_def)

lemma lookup_member: "fst (Lookup n r) = Some t \<Longrightarrow> t \<in> snd ` reg_prov r n"
  by (auto simp: Lookup_def Let_def reg_prov_def image_image split: if_splits)

lemma lookup_empty: "fst (Lookup n r) = None \<Longrightarrow> reg_prov r n = {}"
  by (simp add: Lookup_def Let_def reg_prov_def split: if_splits)

lemma reg_inv_remove: "reg_inv r \<Longrightarrow> reg_inv (RemoveConn c r)"
  unfolding reg_inv_def RemoveConn_def
  by (auto simp: distinct_kept map_of_kept ran_def split: option.splits if_splits)

lemma reg_prov_remove: "reg_inv r \<Longrightarrow> reg_prov (RemoveConn c r) n = {p \<in> reg_prov r n. fst p \<noteq> c}"
proof -
  assume "reg_inv r"
  then have d: "distinct (map fst (svc r))" by (simp add: reg_inv_def)
  have "svc (RemoveConn c r) = filter (\<lambda>(_, es). es \<noteq> []) (map (\<lambda>(n, es). (n, kept_entries c es)) (svc r))"
    by (simp add: RemoveConn_def)
  then have "map_get (svc (RemoveConn c r)) [] n = kept_entries c (map_get (svc r) [] n)"
    using map_get_kept [OF d] by (simp only:)
  then have "reg_prov (RemoveConn c r) n = (\<lambda>e. (connID e, tgt e)) ` {e \<in> set (map_get (svc r) [] n). connID e \<noteq> c}"
    by (simp only: reg_prov_def kept_entries_def set_filter)
  then show ?thesis by (auto simp only: reg_prov_def image_iff fst_conv mem_Collect_eq set_eq_iff)
qed

lemma catalog_names: "reg_inv r \<Longrightarrow> set (Catalog r) = {n. reg_prov r n \<noteq> {}}"
proof -
  assume i: "reg_inv r"
  have "n \<in> set (map fst (svc r)) \<longleftrightarrow> reg_prov r n \<noteq> {}" for n
  proof (cases "map_of (svc r) n")
    case None
    then have "map_get (svc r) [] n = []" by (simp add: map_get_def)
    moreover have "n \<notin> fst ` set (svc r)" using None by (simp add: map_of_eq_None_iff)
    ultimately show ?thesis by (simp add: reg_prov_def)
  next
    case (Some es)
    then have "es \<noteq> []" using i by (auto simp: reg_inv_def ran_def)
    moreover have "n \<in> fst ` set (svc r)" using Some by (metis domI dom_map_of_conv_image_fst)
    ultimately show ?thesis using Some by (simp add: reg_prov_def map_get_def)
  qed
  then show ?thesis by (auto simp: Catalog_def)
qed

interpretation memory: service_store reg_inv reg_prov add_entry Lookup RemoveConn Catalog "\<lambda>_ _ _. True"
proof unfold_locales
  fix s :: registry and c n m :: string and t :: target and p :: "string \<times> target"
  show "reg_inv s \<Longrightarrow> reg_inv (add_entry c n t s)" by (rule reg_inv_add)
  show "(c, t) \<in> reg_prov (add_entry c n t s) n" by (simp add: reg_prov_add)
  show "reg_prov (add_entry c n t s) m \<subseteq> (if m = n then insert (c, t) (reg_prov s n) else reg_prov s m)" by (simp add: reg_prov_add)
  show "p \<in> reg_prov s m \<Longrightarrow> p \<in> reg_prov (add_entry c n t s) m" by (auto simp: reg_prov_add)
  show "reg_inv s \<Longrightarrow> reg_inv (snd (Lookup n s))" by (simp add: reg_inv_def lookup_svc)
  show "reg_prov (snd (Lookup n s)) = reg_prov s" by (simp add: reg_prov_def lookup_svc fun_eq_iff)
  show "fst (Lookup n s) = Some t \<Longrightarrow> t \<in> snd ` reg_prov s n" by (rule lookup_member)
  show "fst (Lookup n s) = None \<Longrightarrow> reg_prov s n = {}" by (rule lookup_empty)
  show "reg_inv s \<Longrightarrow> reg_inv (RemoveConn c s)" by (rule reg_inv_remove)
  show "reg_inv s \<Longrightarrow> reg_prov (RemoveConn c s) n = {p \<in> reg_prov s n. fst p \<noteq> c}" by (rule reg_prov_remove)
  show "reg_inv s \<Longrightarrow> sorted (Catalog s) \<and> distinct (Catalog s)" by (simp add: Catalog_def reg_inv_def)
  show "reg_inv s \<Longrightarrow> set (Catalog s) = {n. reg_prov s n \<noteq> {}}" by (rule catalog_names)
qed

section \<open>Rotation\<close>

text \<open>As many lookups as a name has providers return them all, each once, from where the cursor stands.\<close>

fun lookups :: "nat \<Rightarrow> string \<Rightarrow> registry \<Rightarrow> target option list" where
  "lookups 0 n r = []"
| "lookups (Suc k) n r = fst (Lookup n r) # lookups k n (snd (Lookup n r))"

lemma lookups_rotate:
  assumes "map_get (svc r) [] n = es" "es \<noteq> []" "map_get (next_of r) 0 n mod length es = i"
  shows "lookups k n r = map (\<lambda>j. Some (tgt (es ! ((i + j) mod length es)))) [0..<k]"
  using assms
proof (induction k arbitrary: r i)
  case (Suc k)
  have l: "fst (Lookup n r) = Some (tgt (es ! i))" "map_get (next_of (snd (Lookup n r))) 0 n = Suc i"
    using Suc.prems by (simp_all add: Lookup_def Let_def map_get_update)
  have lt: "i < length es" using Suc.prems(2,3) by auto
  have "lookups k n (snd (Lookup n r)) = map (\<lambda>j. Some (tgt (es ! ((Suc i mod length es + j) mod length es)))) [0..<k]"
    by (rule Suc.IH) (use Suc.prems l in \<open>simp_all add: lookup_svc\<close>)
  moreover have "[0..<Suc k] = 0 # map Suc [0..<k]" by (simp add: map_Suc_upt upt_conv_Cons)
  ultimately show ?case using l(1) lt by (simp add: mod_simps comp_def)
qed simp

section \<open>Properties\<close>

lemma calls_ok_any: "calls_ok (\<lambda>_ _ _. True) cs"
proof (induction cs)
  case (Cons x cs)
  then show ?case by (cases x) simp_all
qed simp

lemma empty_registry: "reg_inv NewRegistry" "reg_prov NewRegistry n = {}"
  by (simp_all add: reg_inv_def reg_prov_def NewRegistry_def map_get_def)

text \<open>C31. The in-memory registry is the directory of the connected spokes. After any sequence of registrations, lookups and
  disconnections, a lookup returns a target that some connection registered under the name and that was
  not removed since, and none only when no such connection is left; the catalog lists exactly the names
  that have one.\<close>

theorem registry_directory:
  "(case fst (Lookup n (run_calls add_entry Lookup RemoveConn NewRegistry cs)) of
      None \<Rightarrow> \<forall>c. \<not> provides cs c n
    | Some t \<Rightarrow> \<exists>c. registered cs c n t) \<and>
   set (Catalog (run_calls add_entry Lookup RemoveConn NewRegistry cs)) = {n. \<exists>c. provides cs c n}"
  using memory.directory [OF empty_registry calls_ok_any] memory.catalog_directory [OF empty_registry calls_ok_any] by blast

end
