(* ===== verification/HubRedis.thy ===== *)
theory HubRedis
  imports Hub
begin

text \<open>
  The distributed registry of the hub (\<open>pkg/hub/redisstore.go\<close>): replicas write their providers into a shared Redis,
  keep the writes that failed in a queue, and re-drive them from the heartbeat. Redis is a set of hashes and
  of keys with an expiry time; every write may land, be lost, or land although the caller sees an error.
\<close>

section \<open>Redis and the records in it\<close>

datatype mode = Direct | Deliver

record provider =
  pConn :: string
  pMode :: mode
  pAddr :: string
  pOwner :: string
  pForward :: string
  pProtocol :: string

text \<open>\<open>hash\<close> holds every field of every service hash, under the service and the provider identity.\<close>

record redis =
  hash :: "((string \<times> string) \<times> provider) list"
  alive :: "(string \<times> int) list"
  peer_keys :: "(string \<times> (string \<times> int)) list"
  now :: int

datatype outcome = Landed | Lost | LandedUnseen

definition seen_error :: "outcome \<Rightarrow> bool" where
  "seen_error w \<longleftrightarrow> w \<noteq> Landed"

definition h_write :: "outcome \<Rightarrow> string \<Rightarrow> string \<Rightarrow> provider option \<Rightarrow> redis \<Rightarrow> redis" where
  "h_write w name pid blob R =
     (if w = Lost then R
      else case blob of
        None \<Rightarrow> R\<lparr>hash := AList.delete (name, pid) (hash R)\<rparr>
      | Some rec \<Rightarrow> R\<lparr>hash := AList.update (name, pid) rec (hash R)\<rparr>)"

definition aliveTTL :: int where
  "aliveTTL = 15000"

definition beatAttempts :: nat where
  "beatAttempts = 3"

section \<open>The store of a replica\<close>

record pending_op =
  opName :: string
  opBlob :: "provider option"
  opSeq :: nat

record redis_store =
  replicaID :: string
  forwardAddr :: string
  owned :: "(string \<times> (string \<times> string) list) list"
  muxes :: "(string \<times> session) list"
  rr :: "(string \<times> nat) list"
  pending :: "(string \<times> pending_op) list"
  seqno :: nat
  beatErr :: bool
  peerKey :: string

definition new_store :: "string \<Rightarrow> string \<Rightarrow> redis_store" where
  "new_store rid fwd =
     \<lparr>replicaID = rid, forwardAddr = fwd, owned = [], muxes = [], rr = [], pending = [], seqno = 0, beatErr = False, peerKey = []\<rparr>"

definition pid_of :: "string \<Rightarrow> string \<Rightarrow> string \<Rightarrow> string" where
  "pid_of rid conn name = rid @ '':'' @ conn @ '':'' @ name"

definition providerID :: "redis_store \<Rightarrow> string \<Rightarrow> string \<Rightarrow> string" where
  "providerID s conn name = pid_of (replicaID s) conn name"

definition enqueueLocked :: "string \<Rightarrow> string \<Rightarrow> provider option \<Rightarrow> redis_store \<Rightarrow> pending_op \<times> redis_store" where
  "enqueueLocked pid name blob s =
     (let op = \<lparr>opName = name, opBlob = blob, opSeq = Suc (seqno s)\<rparr> in
      (op, s\<lparr>seqno := Suc (seqno s), pending := AList.update pid op (pending s)\<rparr>))"

definition applyOpLocked :: "outcome \<Rightarrow> string \<Rightarrow> pending_op \<Rightarrow> redis_store \<times> redis \<Rightarrow> redis_store \<times> redis" where
  "applyOpLocked w pid op sR =
     (let (s, R) = sR; R' = h_write w (opName op) pid (opBlob op) R in
      if seen_error w then (s, R')
      else case map_of (pending s) pid of
        Some cur \<Rightarrow> if opSeq cur = opSeq op then (s\<lparr>pending := AList.delete pid (pending s)\<rparr>, R') else (s, R')
      | None \<Rightarrow> (s, R'))"

definition put :: "outcome \<Rightarrow> string \<Rightarrow> string \<Rightarrow> provider \<Rightarrow> session option \<Rightarrow> redis_store \<times> redis \<Rightarrow> redis_store \<times> redis" where
  "put w conn name rec mux sR =
     (let (s, R) = sR; pid = providerID s conn name;
          s1 = s\<lparr>owned := AList.update conn (AList.update pid name (map_get (owned s) [] conn)) (owned s)\<rparr>;
          s2 = (case mux of None \<Rightarrow> s1 | Some m \<Rightarrow> s1\<lparr>muxes := AList.update pid m (muxes s1)\<rparr>);
          (op, s3) = enqueueLocked pid name (Some rec) s2
      in applyOpLocked w pid op (s3, R))"

definition direct_record :: "redis_store \<Rightarrow> string \<Rightarrow> string \<Rightarrow> string \<Rightarrow> provider" where
  "direct_record s conn addr protocol =
     \<lparr>pConn = conn, pMode = Direct, pAddr = addr, pOwner = replicaID s, pForward = forwardAddr s, pProtocol = protocol\<rparr>"

definition deliver_record :: "redis_store \<Rightarrow> string \<Rightarrow> provider" where
  "deliver_record s conn =
     \<lparr>pConn = conn, pMode = Deliver, pAddr = [], pOwner = replicaID s, pForward = forwardAddr s, pProtocol = []\<rparr>"

definition RegisterR :: "outcome \<Rightarrow> string \<Rightarrow> string \<Rightarrow> string \<Rightarrow> string \<Rightarrow> redis_store \<times> redis \<Rightarrow> redis_store \<times> redis" where
  "RegisterR w conn name addr protocol sR = put w conn name (direct_record (fst sR) conn addr protocol) None sR"

definition RegisterDeliverR :: "outcome \<Rightarrow> string \<Rightarrow> string \<Rightarrow> session option \<Rightarrow> redis_store \<times> redis \<Rightarrow> redis_store \<times> redis" where
  "RegisterDeliverR w conn name mux sR = put w conn name (deliver_record (fst sR) conn) mux sR"

text \<open>\<open>RemoveConn\<close>: every removal is queued before the first is written.\<close>

fun enqueue_removals :: "(string \<times> string) list \<Rightarrow> redis_store \<Rightarrow> (string \<times> pending_op) list \<times> redis_store" where
  "enqueue_removals [] s = ([], s)"
| "enqueue_removals ((pid, name) # pids) s =
     (let s1 = s\<lparr>muxes := AList.delete pid (muxes s)\<rparr>;
          (op, s2) = enqueueLocked pid name None s1;
          (ops, s3) = enqueue_removals pids s2
      in ((pid, op) # ops, s3))"

fun apply_all :: "(string \<Rightarrow> outcome) \<Rightarrow> (string \<times> pending_op) list \<Rightarrow> redis_store \<times> redis \<Rightarrow> redis_store \<times> redis" where
  "apply_all w [] sR = sR"
| "apply_all w ((pid, op) # ops) sR = apply_all w ops (applyOpLocked (w pid) pid op sR)"

definition RemoveConnR :: "(string \<Rightarrow> outcome) \<Rightarrow> string \<Rightarrow> redis_store \<times> redis \<Rightarrow> redis_store \<times> redis" where
  "RemoveConnR w conn sR =
     (let (s, R) = sR; pids = map_get (owned s) [] conn;
          (ops, s') = enqueue_removals pids (s\<lparr>owned := AList.delete conn (owned s)\<rparr>)
      in apply_all w ops (s', R))"

definition reconcileOne :: "outcome \<Rightarrow> string \<Rightarrow> redis_store \<times> redis \<Rightarrow> redis_store \<times> redis" where
  "reconcileOne w pid sR =
     (case map_of (pending (fst sR)) pid of None \<Rightarrow> sR | Some op \<Rightarrow> applyOpLocked w pid op sR)"

text \<open>\<open>reconcile\<close> goes through the queued identities in order; the deadline lets it reach the first \<open>k\<close> of them.\<close>

definition reconcile :: "nat \<Rightarrow> (string \<Rightarrow> outcome) \<Rightarrow> redis_store \<times> redis \<Rightarrow> redis_store \<times> redis" where
  "reconcile k w sR = fold (\<lambda>pid. reconcileOne (w pid) pid) (take k (sort (map fst (pending (fst sR))))) sR"

section \<open>Liveness\<close>

definition beat :: "outcome \<Rightarrow> redis_store \<times> redis \<Rightarrow> redis_store \<times> redis" where
  "beat w sR =
     (let (s, R) = sR in
      if w = Lost then (s, R)
      else (s, R\<lparr>alive := AList.update (replicaID s) (now R + aliveTTL) (alive R),
                peer_keys := (if peerKey s = [] then peer_keys R
                  else AList.update (replicaID s) (peerKey s, now R + aliveTTL) (peer_keys R))\<rparr>))"

text \<open>The attempts of one tick: up to three, until one is seen to succeed.\<close>

fun beat_attempts :: "outcome list \<Rightarrow> redis_store \<times> redis \<Rightarrow> bool \<times> redis_store \<times> redis" where
  "beat_attempts [] sR = (True, sR)"
| "beat_attempts (w # ws) sR = (if seen_error w then beat_attempts ws (beat w sR) else (False, beat w sR))"

definition beatBounded :: "outcome list \<Rightarrow> redis_store \<times> redis \<Rightarrow> bool \<times> redis_store \<times> redis" where
  "beatBounded ws sR = beat_attempts (take beatAttempts ws) sR"

definition tick :: "outcome list \<Rightarrow> nat \<Rightarrow> (string \<Rightarrow> outcome) \<Rightarrow> redis_store \<times> redis \<Rightarrow> redis_store \<times> redis" where
  "tick ws k w sR =
     (let (err, s, R) = beatBounded ws sR in reconcile k w (s\<lparr>beatErr := err\<rparr>, R))"

definition StoreHealth :: "redis_store \<Rightarrow> bool" where
  "StoreHealth s \<longleftrightarrow> \<not> beatErr s \<and> pending s = []"

definition is_alive :: "redis \<Rightarrow> string \<Rightarrow> bool" where
  "is_alive R rid = (case map_of (alive R) rid of None \<Rightarrow> False | Some t \<Rightarrow> now R < t)"

section \<open>Reads\<close>

definition pids_of :: "redis \<Rightarrow> string \<Rightarrow> (string \<times> provider) list" where
  "pids_of R name = map (\<lambda>((_, pid), rec). (pid, rec)) (filter (\<lambda>((n, _), _). n = name) (hash R))"

definition liveProviders :: "redis \<Rightarrow> string \<Rightarrow> (string \<times> provider) list" where
  "liveProviders R name = filter (\<lambda>(_, rec). is_alive R (pOwner rec)) (sort_key fst (pids_of R name))"

definition resolve_provider :: "redis_store \<Rightarrow> string \<Rightarrow> string \<times> provider \<Rightarrow> target option" where
  "resolve_provider s name p =
     (let (pid, rec) = p in
      case pMode rec of
        Direct \<Rightarrow> Some (direct_target (pAddr rec) (pProtocol rec))
      | Deliver \<Rightarrow>
          if pOwner rec = replicaID s then map_option deliver_target (map_of (muxes s) pid)
          else Some (forward_target (pForward rec) name))"

fun rr_scan :: "(nat \<Rightarrow> target option) \<Rightarrow> nat \<Rightarrow> nat \<Rightarrow> nat list \<Rightarrow> (nat \<times> target) option" where
  "rr_scan f start len [] = None"
| "rr_scan f start len (off # offs) =
     (let i = (start + off) mod len in case f i of Some t \<Rightarrow> Some (i, t) | None \<Rightarrow> rr_scan f start len offs)"

definition LookupR :: "string \<Rightarrow> redis_store \<times> redis \<Rightarrow> target option \<times> (redis_store \<times> redis)" where
  "LookupR name sR =
     (let (s, R) = sR; live = liveProviders R name in
      case rr_scan (\<lambda>i. resolve_provider s name (live ! i)) (map_get (rr s) 0 name) (length live) [0..<length live] of
        None \<Rightarrow> (None, sR)
      | Some (i, t) \<Rightarrow> (Some t, (s\<lparr>rr := AList.update name (i + 1) (rr s)\<rparr>, R)))"

definition CatalogR :: "redis_store \<times> redis \<Rightarrow> string list" where
  "CatalogR sR = sort (filter (\<lambda>n. liveProviders (snd sR) n \<noteq> []) (remdups (map (fst \<circ> fst) (hash (snd sR)))))"

definition PublishPeerKey :: "outcome \<Rightarrow> string \<Rightarrow> string \<Rightarrow> redis_store \<times> redis \<Rightarrow> bool \<times> redis_store \<times> redis" where
  "PublishPeerKey w rid key sR =
     (let (s, R) = sR in
      if rid = [] \<or> rid \<noteq> replicaID s \<or> key = [] then (True, sR)
      else (seen_error w, s\<lparr>peerKey := key\<rparr>,
            if w = Lost then R else R\<lparr>peer_keys := AList.update rid (key, now R + aliveTTL) (peer_keys R)\<rparr>))"

definition PeerKey :: "string \<Rightarrow> redis \<Rightarrow> string option" where
  "PeerKey rid R = (case map_of (peer_keys R) rid of Some (key, t) \<Rightarrow> if now R < t then Some key else None | None \<Rightarrow> None)"

text \<open>\<open>Close\<close>: the removals are best effort, and with the liveness key gone the replica's partition is.\<close>

definition CloseR :: "(string \<Rightarrow> outcome) \<Rightarrow> outcome \<Rightarrow> redis_store \<times> redis \<Rightarrow> redis_store \<times> redis" where
  "CloseR w wa sR =
     (let (s, R) = sR;
          R1 = fold (\<lambda>(pid, name). h_write (w pid) name pid None) (concat (map snd (owned s))) R;
          R2 = (if wa = Lost then R1
                else R1\<lparr>alive := AList.delete (replicaID s) (alive R1), peer_keys := AList.delete (replicaID s) (peer_keys R1)\<rparr>)
      in (s\<lparr>pending := [], owned := [], muxes := []\<rparr>, R2))"

section \<open>What a replica wants the registry to hold\<close>

text \<open>The registrations of a replica, by connection and name, as the calls of its spokes make them.\<close>

type_synonym wanted = "string \<times> string \<rightharpoonup> provider"

definition cf :: "string \<Rightarrow> bool" where
  "cf s \<longleftrightarrow> CHR '':'' \<notin> set s"

lemma colon_split: "cf a \<Longrightarrow> cf b \<Longrightarrow> a @ CHR '':'' # x = b @ CHR '':'' # y \<longleftrightarrow> a = b \<and> x = y"
proof
  assume c: "cf a" "cf b" and e: "a @ CHR '':'' # x = b @ CHR '':'' # y"
  have "Some (a, x) = cut_byte CHR '':'' (a @ CHR '':'' # x)" using c(1) by (simp add: cut_byte_append cf_def)
  also have "\<dots> = Some (b, y)" using c(2) unfolding e by (simp add: cut_byte_append cf_def)
  finally show "a = b \<and> x = y" by simp
qed simp

lemma pid_inject: "cf rid \<Longrightarrow> cf rid' \<Longrightarrow> cf c \<Longrightarrow> cf c' \<Longrightarrow> pid_of rid c n = pid_of rid' c' n' \<longleftrightarrow> rid = rid' \<and> c = c' \<and> n = n'"
  by (simp add: pid_of_def colon_split)

definition own_pid :: "string \<Rightarrow> string \<Rightarrow> bool" where
  "own_pid rid pid \<longleftrightarrow> has_prefix pid (rid @ '':'')"

lemma own_pid_of [simp]: "own_pid rid (pid_of rid c n)"
  by (simp add: own_pid_def pid_of_def has_prefix_iff)

lemma own_pid_apart: "cf rid \<Longrightarrow> cf rid' \<Longrightarrow> own_pid rid pid \<Longrightarrow> own_pid rid' pid \<Longrightarrow> rid = rid'"
  by (auto simp: own_pid_def has_prefix_iff colon_split)

definition shared :: "redis \<Rightarrow> string \<Rightarrow> string \<Rightarrow> provider option" where
  "shared R name pid = map_of (hash R) (name, pid)"

lemma shared_write:
  "shared (h_write w name pid blob R) n p = (if w \<noteq> Lost \<and> n = name \<and> p = pid then blob else shared R n p)"
  by (cases blob) (auto simp: shared_def h_write_def update_conv' delete_conv')

text \<open>
  The invariant: the local view is what the spokes want; a provider with no queued write is in Redis as wanted;
  a queued write is the wanted state; and Redis holds nothing else under the replica's identities.
\<close>

definition agree :: "string \<Rightarrow> redis_store \<Rightarrow> wanted \<Rightarrow> redis \<Rightarrow> bool" where
  "agree rid s W R \<longleftrightarrow>
     replicaID s = rid \<and>
     (\<forall>c. distinct (map fst (map_get (owned s) [] c))) \<and>
     (\<forall>c pid n. map_of (map_get (owned s) [] c) pid = Some n \<longleftrightarrow> pid = pid_of rid c n \<and> W (c, n) \<noteq> None) \<and>
     (\<forall>c n r. W (c, n) = Some r \<longrightarrow> cf c \<and> pOwner r = rid) \<and>
     (\<forall>c n. cf c \<longrightarrow> map_of (pending s) (pid_of rid c n) = None \<longrightarrow> shared R n (pid_of rid c n) = W (c, n)) \<and>
     (\<forall>c n op. cf c \<longrightarrow> map_of (pending s) (pid_of rid c n) = Some op \<longrightarrow> opName op = n \<and> opBlob op = W (c, n)) \<and>
     (\<forall>n pid r. shared R n pid = Some r \<and> own_pid rid pid \<longrightarrow> (\<exists>c. cf c \<and> pid = pid_of rid c n) \<and> pOwner r = rid) \<and>
     (\<forall>pid op. map_of (pending s) pid = Some op \<longrightarrow> (\<exists>c. cf c \<and> pid = pid_of rid c (opName op))) \<and>
     distinct (map fst (pending s))"

lemma agreeD:
  assumes "agree rid s W R"
  shows "replicaID s = rid" "distinct (map fst (map_get (owned s) [] c))"
    "map_of (map_get (owned s) [] c) pid = Some n \<longleftrightarrow> pid = pid_of rid c n \<and> W (c, n) \<noteq> None"
    "W (c, n) = Some r \<Longrightarrow> cf c \<and> pOwner r = rid"
    "cf c \<Longrightarrow> map_of (pending s) (pid_of rid c n) = None \<Longrightarrow> shared R n (pid_of rid c n) = W (c, n)"
    "cf c \<Longrightarrow> map_of (pending s) (pid_of rid c n) = Some op \<Longrightarrow> opName op = n \<and> opBlob op = W (c, n)"
    "shared R n pid = Some r \<Longrightarrow> own_pid rid pid \<Longrightarrow> (\<exists>c. cf c \<and> pid = pid_of rid c n) \<and> pOwner r = rid"
    "map_of (pending s) pid = Some op \<Longrightarrow> \<exists>c. cf c \<and> pid = pid_of rid c (opName op)"
    "distinct (map fst (pending s))"
  using assms unfolding agree_def by blast+

lemma agreeI:
  assumes "replicaID s = rid" "\<And>c. distinct (map fst (map_get (owned s) [] c))"
    "\<And>c pid n. map_of (map_get (owned s) [] c) pid = Some n \<longleftrightarrow> pid = pid_of rid c n \<and> W (c, n) \<noteq> None"
    "\<And>c n r. W (c, n) = Some r \<Longrightarrow> cf c \<and> pOwner r = rid"
    "\<And>c n. cf c \<Longrightarrow> map_of (pending s) (pid_of rid c n) = None \<Longrightarrow> shared R n (pid_of rid c n) = W (c, n)"
    "\<And>c n op. cf c \<Longrightarrow> map_of (pending s) (pid_of rid c n) = Some op \<Longrightarrow> opName op = n \<and> opBlob op = W (c, n)"
    "\<And>n pid r. shared R n pid = Some r \<Longrightarrow> own_pid rid pid \<Longrightarrow> (\<exists>c. cf c \<and> pid = pid_of rid c n) \<and> pOwner r = rid"
    "\<And>pid op. map_of (pending s) pid = Some op \<Longrightarrow> \<exists>c. cf c \<and> pid = pid_of rid c (opName op)"
    "distinct (map fst (pending s))"
  shows "agree rid s W R"
  unfolding agree_def
  apply (rule conjI, rule assms(1))
  apply (rule conjI, intro allI, rule assms(2))
  apply (rule conjI, intro allI, rule assms(3))
  apply (rule conjI, intro allI impI, rule assms(4), assumption)
  apply (rule conjI, intro allI impI, rule assms(5), assumption+)
  apply (rule conjI, intro allI impI, rule assms(6), assumption+)
  apply (rule conjI, intro allI impI, elim conjE, rule assms(7), assumption+)
  apply (rule conjI, intro allI impI, rule assms(8), assumption)
  by (rule assms(9))

text \<open>Another replica's view is not touched.\<close>

lemma agree_frame:
  assumes "agree rid s W R" "\<And>n pid. own_pid rid pid \<Longrightarrow> shared R' n pid = shared R n pid"
  shows "agree rid s W R'"
proof (rule agreeI)
  fix n pid r assume "shared R' n pid = Some r" "own_pid rid pid"
  then show "(\<exists>c. cf c \<and> pid = pid_of rid c n) \<and> pOwner r = rid" using agreeD(7) [OF assms(1)] assms(2) by simp
next
  fix c n assume "cf c" "map_of (pending s) (pid_of rid c n) = None"
  then show "shared R' n (pid_of rid c n) = W (c, n)" using agreeD(5) [OF assms(1)] assms(2) by simp
qed (rule agreeD [OF assms(1)]; assumption)+

text \<open>The liveness fields and the cursors play no part.\<close>

lemma agree_fields:
  assumes "agree rid s W R" "replicaID s' = replicaID s" "owned s' = owned s" "pending s' = pending s" "hash R' = hash R"
  shows "agree rid s' W R'"
  using assms(1) unfolding agree_def shared_def assms(2-5) .

definition touches :: "string \<Rightarrow> redis \<Rightarrow> redis \<Rightarrow> bool" where
  "touches rid R R' \<longleftrightarrow> (\<forall>n pid. \<not> own_pid rid pid \<longrightarrow> shared R' n pid = shared R n pid) \<and>
     (distinct (map fst (hash R)) \<longrightarrow> distinct (map fst (hash R'))) \<and> alive R' = alive R \<and> now R' = now R"

lemma touches_refl [simp]: "touches rid R R"
  by (simp add: touches_def)

lemma touches_trans: "touches rid R R' \<Longrightarrow> touches rid R' R'' \<Longrightarrow> touches rid R R''"
  by (simp add: touches_def)

section \<open>Every operation keeps the invariant\<close>

definition after_apply :: "outcome \<Rightarrow> string \<Rightarrow> redis_store \<Rightarrow> redis_store" where
  "after_apply w pid s = (if seen_error w then s else s\<lparr>pending := AList.delete pid (pending s)\<rparr>)"

lemma apply_current:
  "map_of (pending s) pid = Some op \<Longrightarrow>
     applyOpLocked w pid op (s, R) = (after_apply w pid s, h_write w (opName op) pid (opBlob op) R)"
  by (simp add: applyOpLocked_def after_apply_def)

lemma pending_after: "map_of (pending (after_apply w pid s)) p = (if w = Landed \<and> p = pid then None else map_of (pending s) p)"
  by (simp add: after_apply_def seen_error_def delete_conv')

lemma apply_agree:
  assumes a: "agree rid s W R" and p: "map_of (pending s) pid = Some op"
  shows "agree rid (after_apply w pid s) W (h_write w (opName op) pid (opBlob op) R)"
proof -
  obtain c where c: "cf c" "pid = pid_of rid c (opName op)" using agreeD(8) [OF a p] by blast
  have blob: "opBlob op = W (c, opName op)" 
    by (rule conjunct2 [OF agreeD(6) [OF a c(1) p [unfolded c(2)]]])
  note d = agreeD [OF a]
  have o: "owned (after_apply w pid s) = owned s" "replicaID (after_apply w pid s) = replicaID s" by (simp_all add: after_apply_def)
  show ?thesis
  proof (rule agreeI)
    fix c' n assume cf': "cf c'" and none: "map_of (pending (after_apply w pid s)) (pid_of rid c' n) = None"
    show "shared (h_write w (opName op) pid (opBlob op) R) n (pid_of rid c' n) = W (c', n)"
    proof (cases "pid_of rid c' n = pid")
      case True
      then have "w = Landed" using none p by (simp add: pending_after split: if_splits)
      moreover have "n = opName op \<and> c' = c"
        using True c cf' by (auto simp: pid_of_def colon_split)
      ultimately show ?thesis using True blob by (simp add: shared_write)
    next
      case False
      then show ?thesis using none d(5) [OF cf'] by (simp add: pending_after shared_write split: if_splits)
    qed
  next
    fix c' n op' assume "cf c'" "map_of (pending (after_apply w pid s)) (pid_of rid c' n) = Some op'"
    then show "opName op' = n \<and> opBlob op' = W (c', n)" by (intro d(6)) (simp_all add: pending_after split: if_splits)
  next
    fix n pid' r assume r: "shared (h_write w (opName op) pid (opBlob op) R) n pid' = Some r" "own_pid rid pid'"
    show "(\<exists>c. cf c \<and> pid' = pid_of rid c n) \<and> pOwner r = rid"
    proof (cases "w \<noteq> Lost \<and> n = opName op \<and> pid' = pid")
      case True
      then have "W (c, opName op) = Some r" using r(1) blob by (simp add: shared_write)
      then show ?thesis using True c d(4) by blast
    next
      case False
      then have "shared R n pid' = Some r" using r(1) by (simp add: shared_write split: if_splits)
      then show ?thesis using d(7) r(2) by blast
    qed
  next
    fix pid' op' assume "map_of (pending (after_apply w pid s)) pid' = Some op'"
    then show "\<exists>c. cf c \<and> pid' = pid_of rid c (opName op')" by (intro d(8)) (simp add: pending_after split: if_splits)
  next
    show "distinct (map fst (pending (after_apply w pid s)))" using d(9) by (simp add: after_apply_def distinct_delete)
  qed (unfold o, (rule d; assumption)+)
qed

lemma apply_touches:
  assumes "agree rid s W R" "map_of (pending s) pid = Some op"
  shows "touches rid R (h_write w (opName op) pid (opBlob op) R)"
proof -
  obtain c where c: "pid = pid_of rid c (opName op)" using agreeD(8) [OF assms] by blast
  have "distinct (map fst (hash R)) \<Longrightarrow> distinct (map fst (hash (h_write w (opName op) pid (opBlob op) R)))"
    "alive (h_write w (opName op) pid (opBlob op) R) = alive R" "now (h_write w (opName op) pid (opBlob op) R) = now R"
    by (simp_all add: h_write_def distinct_update distinct_delete split: option.split)
  then show ?thesis using c by (simp add: touches_def shared_write)
qed

lemma apply_step:
  assumes "agree rid s W R" "map_of (pending s) pid = Some op" "applyOpLocked w pid op (s, R) = (s', R')"
  shows "agree rid s' W R'" "touches rid R R'" "map_of (pending s') p = (if w = Landed \<and> p = pid then None else map_of (pending s) p)"
proof -
  have e: "s' = after_apply w pid s" "R' = h_write w (opName op) pid (opBlob op) R"
    using assms(3) by (simp_all add: apply_current [OF assms(2)])
  show "agree rid s' W R'" "touches rid R R'" unfolding e by (rule apply_agree [OF assms(1,2)], rule apply_touches [OF assms(1,2)])
  show "map_of (pending s') p = (if w = Landed \<and> p = pid then None else map_of (pending s) p)" unfolding e by (rule pending_after)
qed

lemma put_agree:
  assumes a: "agree rid s W R" and c: "cf c" and r: "pOwner rec = rid" and e: "put w c n rec mux (s, R) = (s', R')"
  shows "agree rid s' (W((c, n) \<mapsto> rec)) R' \<and> touches rid R R'"
proof -
  define pid where "pid = pid_of rid c n"
  define op where "op = \<lparr>opName = n, opBlob = Some rec, opSeq = Suc (seqno s)\<rparr>"
  define own where "own = AList.update c (AList.update pid n (map_get (owned s) [] c)) (owned s)"
  define mx where "mx = (case mux of None \<Rightarrow> muxes s | Some m \<Rightarrow> AList.update pid m (muxes s))"
  define s3 where "s3 = s\<lparr>owned := own, muxes := mx, seqno := Suc (seqno s), pending := AList.update pid op (pending s)\<rparr>"
  note d = agreeD [OF a]
  have "put w c n rec mux (s, R) = applyOpLocked w pid op (s3, R)"
    unfolding put_def by (cases mux)
      (simp_all add: Let_def providerID_def d(1) enqueueLocked_def s3_def op_def own_def pid_def mx_def)
  then have ap: "applyOpLocked w pid op (s3, R) = (s', R')" using e by simp
  have pend: "map_of (pending s3) p = (if p = pid then Some op else map_of (pending s) p)" for p
    by (simp add: s3_def update_conv')
  have inj: "pid_of rid c' n' = pid \<longleftrightarrow> c' = c \<and> n' = n" if "cf c'" for c' n'
    using that c by (auto simp: pid_def pid_of_def colon_split)
  have ow: "map_get (owned s3) [] c' = (if c' = c then AList.update pid n (map_get (owned s) [] c) else map_get (owned s) [] c')" for c'
    by (simp add: s3_def own_def map_get_update)
  have "agree rid s3 (W((c, n) \<mapsto> rec)) R"
  proof (rule agreeI)
    show "replicaID s3 = rid" using d(1) by (simp add: s3_def)
  next
    fix c' show "distinct (map fst (map_get (owned s3) [] c'))" using d(2) by (simp add: ow distinct_update)
  next
    fix c' p n' show "map_of (map_get (owned s3) [] c') p = Some n' \<longleftrightarrow> p = pid_of rid c' n' \<and> (W((c, n) \<mapsto> rec)) (c', n') \<noteq> None"
    proof (cases "c' = c")
      case True
      have "map_of (map_get (owned s3) [] c') p = (if p = pid then Some n else map_of (map_get (owned s) [] c) p)"
        by (simp add: ow True update_conv')
      moreover have "pid_of rid c n' = pid \<longleftrightarrow> n' = n" using inj [OF c] by simp
      ultimately show ?thesis using d(3) [of c p n'] True by (auto simp: pid_def split: if_splits)
    next
      case False
      then show ?thesis using d(3) [of c' p n'] by (simp add: ow)
    qed
  next
    fix c' n' r' assume "(W((c, n) \<mapsto> rec)) (c', n') = Some r'"
    then show "cf c' \<and> pOwner r' = rid" using c r d(4) by (auto split: if_splits)
  next
    fix c' n' assume c': "cf c'" "map_of (pending s3) (pid_of rid c' n') = None"
    then have ne: "\<not> (c' = c \<and> n' = n)" and no: "map_of (pending s) (pid_of rid c' n') = None"
      by (auto simp: pend inj split: if_splits)
    show "shared R n' (pid_of rid c' n') = (W((c, n) \<mapsto> rec)) (c', n')" using d(5) [OF c'(1) no] ne by auto
  next
    fix c' n' op' assume c': "cf c'" "map_of (pending s3) (pid_of rid c' n') = Some op'"
    show "opName op' = n' \<and> opBlob op' = (W((c, n) \<mapsto> rec)) (c', n')"
    proof (cases "c' = c \<and> n' = n")
      case True
      then have "op' = op" using c' by (simp add: pend inj)
      then show ?thesis using True by (simp add: op_def)
    next
      case False
      then have "map_of (pending s) (pid_of rid c' n') = Some op'" using c' by (simp add: pend inj split: if_splits)
      from d(6) [OF c'(1) this] show ?thesis using False by auto
    qed
  next
    fix p op' assume q: "map_of (pending s3) p = Some op'"
    show "\<exists>c. cf c \<and> p = pid_of rid c (opName op')"
    proof (cases "p = pid")
      case True
      then show ?thesis using q c by (auto simp: pend op_def pid_def)
    next
      case False
      then show ?thesis using q by (intro d(8)) (simp add: pend)
    qed
  next
    show "distinct (map fst (pending s3))" using d(9) by (simp add: s3_def distinct_update)
  qed (rule d; assumption)
  moreover have "map_of (pending s3) pid = Some op" by (simp add: pend)
  ultimately show ?thesis using apply_step(1,2) ap by blast
qed

lemma enqueue_removals_ok:
  "enqueue_removals pids s = (ops, s') \<Longrightarrow> distinct (map fst pids) \<Longrightarrow> distinct (map fst (pending s)) \<Longrightarrow>
     map fst ops = map fst pids \<and> owned s' = owned s \<and> replicaID s' = replicaID s \<and> distinct (map fst (pending s')) \<and>
     (\<forall>p. p \<notin> fst ` set pids \<longrightarrow> map_of (pending s') p = map_of (pending s) p) \<and>
     (\<forall>(p, op) \<in> set ops. map_of (pending s') p = Some op \<and> opBlob op = None \<and> (p, opName op) \<in> set pids)"
proof (induction pids s arbitrary: ops s' rule: enqueue_removals.induct)
  case (2 p n pids s)
  define op where "op = \<lparr>opName = n, opBlob = None, opSeq = Suc (seqno s)\<rparr>"
  define s2 where "s2 = s\<lparr>muxes := AList.delete p (muxes s), seqno := Suc (seqno s), pending := AList.update p op (pending s)\<rparr>"
  have enq: "enqueueLocked p n None (s\<lparr>muxes := AList.delete p (muxes s)\<rparr>) = (op, s2)"
    by (simp add: enqueueLocked_def Let_def op_def s2_def)
  obtain ops1 where o1: "enqueue_removals pids s2 = (ops1, s')" "ops = (p, op) # ops1"
    using "2.prems"(1) enq by (auto simp: Let_def split: prod.splits)
  have "distinct (map fst pids)" "p \<notin> fst ` set pids" using "2.prems"(2) by auto
  moreover have "distinct (map fst (pending s2))" using "2.prems"(3) by (simp add: s2_def distinct_update)
  ultimately have ih: "map fst ops1 = map fst pids" "owned s' = owned s2" "replicaID s' = replicaID s2" "distinct (map fst (pending s'))"
      "\<And>q. q \<notin> fst ` set pids \<Longrightarrow> map_of (pending s') q = map_of (pending s2) q"
      "\<forall>(q, op) \<in> set ops1. map_of (pending s') q = Some op \<and> opBlob op = None \<and> (q, opName op) \<in> set pids"
    using "2.IH" [OF refl enq [symmetric] refl o1(1)] by auto
  have "map_of (pending s') p = Some op" using ih(5) [OF \<open>p \<notin> fst ` set pids\<close>] by (simp add: s2_def update_conv')
  moreover have "map_of (pending s') q = map_of (pending s) q" if "q \<notin> fst ` set ((p, n) # pids)" for q
    using ih(5) [of q] that by (simp add: s2_def update_conv')
  ultimately show ?case using ih o1(2) by (auto simp: s2_def op_def)
qed auto

lemma apply_all_agree:
  "apply_all w ops (s, R) = (s', R') \<Longrightarrow> agree rid s W R \<Longrightarrow> distinct (map fst ops) \<Longrightarrow>
     (\<forall>(p, op) \<in> set ops. map_of (pending s) p = Some op) \<Longrightarrow> agree rid s' W R' \<and> touches rid R R'"
proof (induction ops arbitrary: s R)
  case (Cons x ops)
  obtain p op where x: "x = (p, op)" by fastforce
  obtain s1 R1 where ap: "applyOpLocked (w p) p op (s, R) = (s1, R1)" by fastforce
  have "map_of (pending s) p = Some op" using Cons.prems(4) x by simp
  note st = apply_step [OF Cons.prems(2) this ap]
  have "\<forall>(q, op) \<in> set ops. map_of (pending s1) q = Some op"
    using Cons.prems(3,4) x st(3) by (force simp: rev_image_eqI)
  then have "agree rid s' W R' \<and> touches rid R1 R'"
    using Cons.IH [OF _ st(1)] Cons.prems(1,3) x ap by simp
  then show ?case using touches_trans [OF st(2)] by blast
qed simp

definition without_conn :: "string \<Rightarrow> wanted \<Rightarrow> wanted" where
  "without_conn c W = (\<lambda>(c', n). if c' = c then None else W (c', n))"

lemma remove_agree:
  assumes a: "agree rid s W R" and c: "cf c" and e: "RemoveConnR w c (s, R) = (s', R')"
  shows "agree rid s' (without_conn c W) R' \<and> touches rid R R'"
proof -
  note d = agreeD [OF a]
  define pids where "pids = map_get (owned s) [] c"
  obtain ops s1 where en: "enqueue_removals pids (s\<lparr>owned := AList.delete c (owned s)\<rparr>) = (ops, s1)" by fastforce
  have ap: "apply_all w ops (s1, R) = (s', R')" using e en by (simp add: RemoveConnR_def pids_def Let_def)
  have dist: "distinct (map fst pids)" using d(2) by (simp add: pids_def)
  have k: "map fst ops = map fst pids" "owned s1 = AList.delete c (owned s)" "replicaID s1 = rid" "distinct (map fst (pending s1))"
      "\<And>p. p \<notin> fst ` set pids \<Longrightarrow> map_of (pending s1) p = map_of (pending s) p"
      "\<forall>(p, op) \<in> set ops. map_of (pending s1) p = Some op \<and> opBlob op = None \<and> (p, opName op) \<in> set pids"
    using enqueue_removals_ok [OF en dist] d(1,9) by auto
  have mem: "(p, n) \<in> set pids \<longleftrightarrow> p = pid_of rid c n \<and> W (c, n) \<noteq> None" for p n
    using d(3) [of c p n] map_of_eq_Some_iff [OF dist] by (simp add: pids_def)
  have key: "pid_of rid c' n \<in> fst ` set pids \<longleftrightarrow> c' = c \<and> W (c, n) \<noteq> None" if "cf c'" for c' n
  proof
    assume "pid_of rid c' n \<in> fst ` set pids"
    then obtain m where m: "(pid_of rid c' n, m) \<in> set pids" by force
    then have "pid_of rid c' n = pid_of rid c m" using mem by blast
    then have "c' = c \<and> n = m" using that c by (simp add: pid_of_def colon_split)
    then show "c' = c \<and> W (c, n) \<noteq> None" using m mem by simp
  next
    assume "c' = c \<and> W (c, n) \<noteq> None"
    then have "(pid_of rid c' n, n) \<in> set pids" using mem by simp
    then show "pid_of rid c' n \<in> fst ` set pids" by force
  qed
  have queued: "\<exists>op. map_of (pending s1) p = Some op \<and> opBlob op = None \<and> (p, opName op) \<in> set pids" if "p \<in> fst ` set pids" for p
  proof -
    have "p \<in> set (map fst ops)" using that k(1) by simp
    then obtain op where "(p, op) \<in> set ops" by force
    then show ?thesis using k(6) by blast
  qed
  have ow: "map_get (owned s1) [] c' = (if c' = c then [] else map_get (owned s) [] c')" for c'
    by (simp add: k(2) map_get_def delete_conv')
  have "agree rid s1 (without_conn c W) R"
  proof (rule agreeI)
    fix c' show "distinct (map fst (map_get (owned s1) [] c'))" using d(2) by (simp add: ow)
  next
    fix c' p n show "map_of (map_get (owned s1) [] c') p = Some n \<longleftrightarrow> p = pid_of rid c' n \<and> without_conn c W (c', n) \<noteq> None"
      using d(3) [of c' p n] by (simp add: ow without_conn_def)
  next
    fix c' n r assume "without_conn c W (c', n) = Some r"
    then show "cf c' \<and> pOwner r = rid" by (intro d(4)) (simp add: without_conn_def split: if_splits)
  next
    fix c' n assume c': "cf c'" "map_of (pending s1) (pid_of rid c' n) = None"
    then have nk: "pid_of rid c' n \<notin> fst ` set pids" using queued by force
    then have "map_of (pending s) (pid_of rid c' n) = None" using k(5) c'(2) by simp
    from d(5) [OF c'(1) this] show "shared R n (pid_of rid c' n) = without_conn c W (c', n)"
      using nk key [OF c'(1)] by (auto simp: without_conn_def)
  next
    fix c' n op assume c': "cf c'" "map_of (pending s1) (pid_of rid c' n) = Some op"
    show "opName op = n \<and> opBlob op = without_conn c W (c', n)"
    proof (cases "pid_of rid c' n \<in> fst ` set pids")
      case True
      then have "opBlob op = None" "(pid_of rid c' n, opName op) \<in> set pids" "c' = c" using queued c'(2) key [OF c'(1)] by force+
      moreover from this have "pid_of rid c n = pid_of rid c (opName op)" using mem by blast
      ultimately show ?thesis using c by (simp add: without_conn_def pid_of_def)
    next
      case False
      then have "map_of (pending s) (pid_of rid c' n) = Some op" using k(5) c'(2) by simp
      from d(6) [OF c'(1) this] show ?thesis using False key [OF c'(1)] by (auto simp: without_conn_def)
    qed
  next
    fix p op assume q: "map_of (pending s1) p = Some op"
    show "\<exists>c. cf c \<and> p = pid_of rid c (opName op)"
    proof (cases "p \<in> fst ` set pids")
      case True
      then have "(p, opName op) \<in> set pids" using queued q by force
      then show ?thesis using mem c by blast
    next
      case False
      then show ?thesis using q k(5) by (intro d(8)) simp
    qed
  qed (rule k d; assumption)+
  moreover have "distinct (map fst ops)" "\<forall>(p, op) \<in> set ops. map_of (pending s1) p = Some op" using k(1,6) dist by auto
  ultimately show ?thesis using apply_all_agree [OF ap] by blast
qed

text \<open>A reconcile pass keeps the invariant, and removes what lands from the queue.\<close>

lemma reconcileOne_agree:
  assumes "agree rid s W R" "reconcileOne w pid (s, R) = (s', R')"
  shows "agree rid s' W R' \<and> touches rid R R' \<and>
    (\<forall>p. map_of (pending s') p = (if w = Landed \<and> p = pid then None else map_of (pending s) p))"
proof (cases "map_of (pending s) pid")
  case None
  then show ?thesis using assms by (auto simp: reconcileOne_def)
next
  case (Some op)
  then have "applyOpLocked w pid op (s, R) = (s', R')" using assms(2) by (simp add: reconcileOne_def)
  from apply_step [OF assms(1) Some this] show ?thesis by blast
qed

lemma fold_reconcile:
  "fold (\<lambda>pid. reconcileOne (w pid) pid) pids (s, R) = (s', R') \<Longrightarrow> agree rid s W R \<Longrightarrow>
     agree rid s' W R' \<and> touches rid R R' \<and>
     (\<forall>p. map_of (pending s') p = (if w p = Landed \<and> p \<in> set pids then None else map_of (pending s) p))"
proof (induction pids arbitrary: s R)
  case (Cons pid pids)
  obtain s1 R1 where st: "reconcileOne (w pid) pid (s, R) = (s1, R1)" by fastforce
  note a = reconcileOne_agree [OF Cons.prems(2) st]
  have "fold (\<lambda>pid. reconcileOne (w pid) pid) pids (s1, R1) = (s', R')" using Cons.prems(1) st by simp
  then have b: "agree rid s' W R'" "touches rid R1 R'"
      "\<And>p. map_of (pending s') p = (if w p = Landed \<and> p \<in> set pids then None else map_of (pending s1) p)"
    using Cons.IH a by blast+
  have "map_of (pending s') p = (if w p = Landed \<and> p \<in> set (pid # pids) then None else map_of (pending s) p)" for p
    using a by (auto simp: b(3))
  then show ?case using b(1,2) a touches_trans by blast
qed simp

lemma reconcile_agree:
  assumes "agree rid s W R" "reconcile k w (s, R) = (s', R')"
  shows "agree rid s' W R' \<and> touches rid R R'"
  using fold_reconcile [OF _ assms(1)] assms(2) unfolding reconcile_def by blast

lemma reconcile_drains:
  assumes "agree rid s W R" "reconcile k w (s, R) = (s', R')" "length (pending s) \<le> k" "\<And>pid. w pid = Landed"
  shows "pending s' = []"
proof -
  have "take k (sort (map fst (pending s))) = sort (map fst (pending s))" using assms(3) by simp
  then have f: "fold (\<lambda>pid. reconcileOne (w pid) pid) (sort (map fst (pending s))) (s, R) = (s', R')"
    using assms(2) by (simp add: reconcile_def)
  have "map_of (pending s') p = None" for p
  proof (cases "p \<in> set (sort (map fst (pending s)))")
    case True
    then show ?thesis using fold_reconcile [OF f assms(1)] assms(4) by simp
  next
    case False
    then have "map_of (pending s) p = None" by (simp add: map_of_eq_None_iff)
    then show ?thesis using fold_reconcile [OF f assms(1)] by simp
  qed
  then show ?thesis by (cases "pending s'") (auto split: if_splits prod.splits simp: fun_eq_iff, metis map_of_Cons_code(2) option.distinct(1) surj_pair)
qed

lemma beat_fields:
  "beat w (s, R) = (s', R') \<Longrightarrow> s' = s \<and> hash R' = hash R \<and> now R' = now R"
  by (auto simp: beat_def Let_def split: if_splits)

lemma beat_attempts_fields:
  "beat_attempts ws (s, R) = (err, s', R') \<Longrightarrow> s' = s \<and> hash R' = hash R \<and> now R' = now R"
proof (induction ws arbitrary: R)
  case (Cons w ws)
  obtain s1 R1 where b: "beat w (s, R) = (s1, R1)" by fastforce
  then show ?case using beat_fields [OF b] Cons by (auto split: if_splits)
qed simp

section \<open>The cluster\<close>

record cluster =
  redisDB :: redis
  store_of :: "string \<Rightarrow> redis_store"
  wants :: "string \<Rightarrow> wanted"

datatype hub_event =
    EvRegister string string string string string outcome
  | EvDeliver string string string "session option" outcome
  | EvRemove string string "string \<Rightarrow> outcome"
  | EvTick string "outcome list" nat "string \<Rightarrow> outcome"
  | EvLookup string string
  | EvWait nat

definition new_cluster :: "(string \<Rightarrow> string) \<Rightarrow> cluster" where
  "new_cluster fwd =
     \<lparr>redisDB = \<lparr>hash = [], alive = [], peer_keys = [], now = 0\<rparr>, store_of = (\<lambda>rid. new_store rid (fwd rid)), wants = (\<lambda>_. Map.empty)\<rparr>"

definition at_replica :: "string \<Rightarrow> wanted \<Rightarrow> redis_store \<times> redis \<Rightarrow> cluster \<Rightarrow> cluster" where
  "at_replica rid W sR C = C\<lparr>redisDB := snd sR, store_of := (store_of C)(rid := fst sR), wants := (wants C)(rid := W)\<rparr>"

definition view_of :: "cluster \<Rightarrow> string \<Rightarrow> redis_store \<times> redis" where
  "view_of C rid = (store_of C rid, redisDB C)"

text \<open>A step of the cluster. What the spokes want is a ghost: it follows the calls, not the writes.\<close>

fun hub_step :: "hub_event \<Rightarrow> cluster \<Rightarrow> cluster" where
  "hub_step (EvRegister rid c n addr protocol w) C =
     at_replica rid ((wants C rid)((c, n) \<mapsto> direct_record (store_of C rid) c addr protocol)) (RegisterR w c n addr protocol (view_of C rid)) C"
| "hub_step (EvDeliver rid c n mux w) C =
     at_replica rid ((wants C rid)((c, n) \<mapsto> deliver_record (store_of C rid) c)) (RegisterDeliverR w c n mux (view_of C rid)) C"
| "hub_step (EvRemove rid c w) C = at_replica rid (without_conn c (wants C rid)) (RemoveConnR w c (view_of C rid)) C"
| "hub_step (EvTick rid ws k w) C = at_replica rid (wants C rid) (tick ws k w (view_of C rid)) C"
| "hub_step (EvLookup rid n) C = at_replica rid (wants C rid) (snd (LookupR n (view_of C rid))) C"
| "hub_step (EvWait d) C = C\<lparr>redisDB := (redisDB C)\<lparr>now := now (redisDB C) + int d\<rparr>\<rparr>"

text \<open>Replica and connection identities have no colon, so a provider identity determines its parts.\<close>

fun event_ok :: "hub_event \<Rightarrow> bool" where
  "event_ok (EvRegister rid c n addr protocol w) \<longleftrightarrow> cf rid \<and> cf c"
| "event_ok (EvDeliver rid c n mux w) \<longleftrightarrow> cf rid \<and> cf c"
| "event_ok (EvRemove rid c w) \<longleftrightarrow> cf rid \<and> cf c"
| "event_ok (EvTick rid ws k w) \<longleftrightarrow> cf rid"
| "event_ok (EvLookup rid n) \<longleftrightarrow> cf rid"
| "event_ok (EvWait d) \<longleftrightarrow> True"

inductive hub_reach :: "cluster \<Rightarrow> bool" where
  hub_new: "hub_reach (new_cluster fwd)"
| hub_next: "hub_reach C \<Longrightarrow> event_ok ev \<Longrightarrow> hub_reach (hub_step ev C)"

definition hub_inv :: "cluster \<Rightarrow> bool" where
  "hub_inv C \<longleftrightarrow> (\<forall>rid. cf rid \<longrightarrow> agree rid (store_of C rid) (wants C rid) (redisDB C)) \<and>
     (\<forall>n pid r. shared (redisDB C) n pid = Some r \<longrightarrow> (\<exists>rid. cf rid \<and> own_pid rid pid)) \<and>
     distinct (map fst (hash (redisDB C)))"

lemma hub_inv_at:
  assumes "hub_inv C" "cf rid" "agree rid (fst sR) W (snd sR)"
    "\<forall>n pid. \<not> own_pid rid pid \<longrightarrow> shared (snd sR) n pid = shared (redisDB C) n pid"
    "distinct (map fst (hash (redisDB C))) \<longrightarrow> distinct (map fst (hash (snd sR)))"
  shows "hub_inv (at_replica rid W sR C)"
proof -
  have "agree rid' (store_of C rid') (wants C rid') (snd sR)" if "cf rid'" "rid' \<noteq> rid" for rid'
  proof (rule agree_frame)
    show "agree rid' (store_of C rid') (wants C rid') (redisDB C)" using assms(1) that by (simp add: hub_inv_def)
    show "shared (snd sR) n pid = shared (redisDB C) n pid" if "own_pid rid' pid" for n pid
      using assms(2,4) own_pid_apart \<open>cf rid'\<close> \<open>rid' \<noteq> rid\<close> that by blast
  qed
  moreover have "\<exists>rid. cf rid \<and> own_pid rid pid" if "shared (snd sR) n pid = Some r" for n pid r
  proof (cases "own_pid rid pid")
    case False
    then have "shared (redisDB C) n pid = Some r" using that assms(4) by simp
    then show ?thesis using assms(1) unfolding hub_inv_def by blast
  qed (use assms(2) in blast)
  ultimately show ?thesis using assms(1,3,5) by (auto simp: hub_inv_def at_replica_def)
qed

lemma tick_agree:
  assumes "agree rid s W R" "tick ws k w (s, R) = (s', R')"
  shows "agree rid s' W R'" "\<forall>n pid. \<not> own_pid rid pid \<longrightarrow> shared R' n pid = shared R n pid"
    "distinct (map fst (hash R)) \<longrightarrow> distinct (map fst (hash R'))"
    "length (pending s) \<le> k \<Longrightarrow> (\<And>pid. w pid = Landed) \<Longrightarrow> pending s' = []"
proof -
  obtain err s1 R1 where b: "beatBounded ws (s, R) = (err, s1, R1)" by (metis surj_pair)
  have f: "s1 = s" "hash R1 = hash R" using beat_attempts_fields b by (auto simp: beatBounded_def)
  have rc: "reconcile k w (s\<lparr>beatErr := err\<rparr>, R1) = (s', R')" using assms(2) b f by (simp add: tick_def)
  have a: "agree rid (s\<lparr>beatErr := err\<rparr>) W R1" by (rule agree_fields [OF assms(1)]) (simp_all add: f)
  have sh: "shared R1 = shared R" by (simp add: shared_def f fun_eq_iff)
  show "agree rid s' W R'" "\<forall>n pid. \<not> own_pid rid pid \<longrightarrow> shared R' n pid = shared R n pid"
    "distinct (map fst (hash R)) \<longrightarrow> distinct (map fst (hash R'))"
    using reconcile_agree [OF a rc] by (simp_all add: touches_def sh f)
  show "length (pending s) \<le> k \<Longrightarrow> (\<And>pid. w pid = Landed) \<Longrightarrow> pending s' = []" by (rule reconcile_drains [OF a rc]) simp_all
qed

lemma lookup_fields: "LookupR n (s, R) = (t, s', R') \<Longrightarrow> R' = R \<and> replicaID s' = replicaID s \<and> owned s' = owned s \<and> pending s' = pending s"
  by (auto simp: LookupR_def Let_def split: option.splits)

lemma hub_inv_step:
  assumes i: "hub_inv C" and ok: "event_ok ev"
  shows "hub_inv (hub_step ev C)"
proof -
  have ag: "agree rid (store_of C rid) (wants C rid) (redisDB C)" if "cf rid" for rid using i that by (simp add: hub_inv_def)
  have at: "hub_inv (at_replica rid W (s', R') C)" if "cf rid" "agree rid s' W R' \<and> touches rid (redisDB C) R'" for rid W s' R'
    using that by (intro hub_inv_at [OF i]) (auto simp: touches_def)
  show ?thesis
  proof (cases ev)
    case (EvRegister rid c n addr protocol w)
    obtain s' R' where p: "RegisterR w c n addr protocol (view_of C rid) = (s', R')" by fastforce
    note a = ag [of rid]
    have "agree rid s' ((wants C rid)((c, n) \<mapsto> direct_record (store_of C rid) c addr protocol)) R' \<and> touches rid (redisDB C) R'"
      by (rule put_agree [OF a]) (use ok EvRegister p agreeD(1) [OF a] in \<open>auto simp: RegisterR_def view_of_def direct_record_def\<close>)
    then show ?thesis using at ok EvRegister p by simp
  next
    case (EvDeliver rid c n mux w)
    obtain s' R' where p: "RegisterDeliverR w c n mux (view_of C rid) = (s', R')" by fastforce
    note a = ag [of rid]
    have "agree rid s' ((wants C rid)((c, n) \<mapsto> deliver_record (store_of C rid) c)) R' \<and> touches rid (redisDB C) R'"
      by (rule put_agree [OF a]) (use ok EvDeliver p agreeD(1) [OF a] in \<open>auto simp: RegisterDeliverR_def view_of_def deliver_record_def\<close>)
    then show ?thesis using at ok EvDeliver p by simp
  next
    case (EvRemove rid c w)
    obtain s' R' where p: "RemoveConnR w c (view_of C rid) = (s', R')" by fastforce
    have "agree rid s' (without_conn c (wants C rid)) R' \<and> touches rid (redisDB C) R'"
      by (rule remove_agree [OF ag]) (use ok EvRemove p in \<open>auto simp: view_of_def\<close>)
    then show ?thesis using at ok EvRemove p by simp
  next
    case (EvTick rid ws k w)
    obtain s' R' where p: "tick ws k w (view_of C rid) = (s', R')" by fastforce
    have c: "cf rid" using ok EvTick by simp
    show ?thesis using tick_agree(1-3) [OF ag [OF c] p [unfolded view_of_def]] c EvTick p
      by (simp add: hub_inv_at [OF i])
  next
    case (EvLookup rid n)
    obtain t s' R' where p: "LookupR n (view_of C rid) = (t, s', R')" by (metis surj_pair)
    have c: "cf rid" using ok EvLookup by simp
    have f: "R' = redisDB C" "replicaID s' = replicaID (store_of C rid)" "owned s' = owned (store_of C rid)" "pending s' = pending (store_of C rid)"
      using lookup_fields p by (auto simp: view_of_def)
    have "agree rid s' (wants C rid) (redisDB C)" by (rule agree_fields [OF ag [OF c]]) (simp_all add: f)
    then show ?thesis using at c EvLookup p f by simp
  next
    case (EvWait d)
    have sh: "shared ((redisDB C)\<lparr>now := now (redisDB C) + int d\<rparr>) = shared (redisDB C)" by (simp add: shared_def fun_eq_iff)
    show ?thesis using i EvWait by (simp add: hub_inv_def sh agree_frame [OF _ fun_cong [OF fun_cong [OF sh]]])
  qed
qed

lemma hub_inv_new: "hub_inv (new_cluster fwd)"
  by (simp add: hub_inv_def new_cluster_def agree_def new_store_def shared_def map_get_def)

lemma hub_reach_inv: "hub_reach C \<Longrightarrow> hub_inv C"
  by (induction rule: hub_reach.induct) (simp_all add: hub_inv_new hub_inv_step)

section \<open>What a lookup returns\<close>

lemma rr_scan_Some: "rr_scan f start len offs = Some (i, t) \<Longrightarrow> 0 < len \<Longrightarrow> i < len \<and> f i = Some t"
  by (induction offs) (auto simp: Let_def split: option.splits)

lemma rr_scan_None: "rr_scan f start len offs = None \<Longrightarrow> off \<in> set offs \<Longrightarrow> f ((start + off) mod len) = None"
  by (induction offs) (auto simp: Let_def split: option.splits)

lemma set_pids_of: "distinct (map fst (hash R)) \<Longrightarrow> (pid, rec) \<in> set (pids_of R name) \<longleftrightarrow> shared R name pid = Some rec"
  by (force simp: pids_of_def shared_def)

lemma set_liveProviders:
  "distinct (map fst (hash R)) \<Longrightarrow> (pid, rec) \<in> set (liveProviders R name) \<longleftrightarrow> shared R name pid = Some rec \<and> is_alive R (pOwner rec)"
  by (simp add: liveProviders_def set_pids_of)

lemma lookup_result:
  assumes "distinct (map fst (hash R))"
  shows "case fst (LookupR name (s, R)) of
      None \<Rightarrow> \<forall>pid rec. shared R name pid = Some rec \<and> is_alive R (pOwner rec) \<longrightarrow> resolve_provider s name (pid, rec) = None
    | Some t \<Rightarrow> \<exists>pid rec. shared R name pid = Some rec \<and> is_alive R (pOwner rec) \<and> resolve_provider s name (pid, rec) = Some t"
proof -
  define live where "live = liveProviders R name"
  define sc where "sc = rr_scan (\<lambda>i. resolve_provider s name (live ! i)) (map_get (rr s) 0 name) (length live) [0..<length live]"
  have mem: "(pid, rec) \<in> set live \<longleftrightarrow> shared R name pid = Some rec \<and> is_alive R (pOwner rec)" for pid rec
    by (simp add: live_def set_liveProviders [OF assms])
  show ?thesis
  proof (cases sc)
    case None
    have "resolve_provider s name p = None" if p: "p \<in> set live" for p
    proof -
      obtain i where i: "i < length live" "live ! i = p" using p by (auto simp: in_set_conv_nth)
      obtain off where "off < length live" "(map_get (rr s) 0 name + off) mod length live = i" using rotate_cover [OF i(1)] by blast
      then show ?thesis using rr_scan_None [OF None [unfolded sc_def], of off] i by simp
    qed
    moreover have "fst (LookupR name (s, R)) = None" using None by (simp add: LookupR_def Let_def sc_def live_def)
    ultimately show ?thesis using mem by simp
  next
    case (Some it)
    obtain i t where it: "it = (i, t)" by fastforce
    have "live \<noteq> []" using Some by (auto simp: sc_def)
    then have i: "i < length live" "resolve_provider s name (live ! i) = Some t"
      using rr_scan_Some [OF Some [unfolded it sc_def]] by simp_all
    obtain pid rec where pr: "live ! i = (pid, rec)" by fastforce
    then have "shared R name pid = Some rec \<and> is_alive R (pOwner rec)" using mem nth_mem [OF i(1)] by simp
    moreover have "fst (LookupR name (s, R)) = Some t" using Some it by (simp add: LookupR_def Let_def sc_def live_def)
    ultimately show ?thesis using i(2) pr by auto
  qed
qed

section \<open>Properties\<close>

text \<open>C29. The shared registry converges. Whatever was lost before, and however calls of all replicas were interleaved,
  one tick whose writes land empties a replica's queue; then Redis holds exactly the providers that the
  replica's connected spokes registered, none is missing and none that was withdrawn is back, and the
  entries of the other replicas are as they were.\<close>

theorem registry_converges:
  assumes "hub_reach C" "cf rid" "tick ws k (\<lambda>_. Landed) (store_of C rid, redisDB C) = (s', R')" "length (pending (store_of C rid)) \<le> k"
  shows "pending s' = [] \<and>
    (\<forall>name pid r. own_pid rid pid \<longrightarrow> shared R' name pid = Some r \<longleftrightarrow> (\<exists>c. pid = pid_of rid c name \<and> wants C rid (c, name) = Some r)) \<and>
    (\<forall>name pid. \<not> own_pid rid pid \<longrightarrow> shared R' name pid = shared (redisDB C) name pid)"
proof -
  have "agree rid (store_of C rid) (wants C rid) (redisDB C)" using hub_reach_inv [OF assms(1)] assms(2) by (simp add: hub_inv_def)
  note t = tick_agree [OF this assms(3)]
  have e: "pending s' = []" using t(4) assms(4) by simp
  have "shared R' name pid = Some r \<longleftrightarrow> (\<exists>c. pid = pid_of rid c name \<and> wants C rid (c, name) = Some r)" if own: "own_pid rid pid" for name pid r
  proof
    assume s: "shared R' name pid = Some r"
    obtain c where "cf c" "pid = pid_of rid c name" using agreeD(7) [OF t(1) s own] by blast
    then show "\<exists>c. pid = pid_of rid c name \<and> wants C rid (c, name) = Some r" using agreeD(5) [OF t(1)] e s by auto
  next
    assume "\<exists>c. pid = pid_of rid c name \<and> wants C rid (c, name) = Some r"
    then obtain c where c: "pid = pid_of rid c name" "wants C rid (c, name) = Some r" by blast
    then have "cf c" using agreeD(4) [OF t(1)] by blast
    then show "shared R' name pid = Some r" using agreeD(5) [OF t(1)] e c by simp
  qed
  then show ?thesis using e t(2) by blast
qed

definition lost_then_tick :: cluster where
  "lost_then_tick = hub_step (EvRegister ''r1'' ''c1'' ''web'' ''10.0.0.1:80'' ''tcp'' Lost) (new_cluster (\<lambda>_. ''ws://r''))"

theorem registry_converges_witness:
  "\<exists>s' R' r. tick [Landed] 1 (\<lambda>_. Landed) (store_of lost_then_tick ''r1'', redisDB lost_then_tick) = (s', R') \<and>
     pending (store_of lost_then_tick ''r1'') \<noteq> [] \<and> pending s' = [] \<and> shared R' ''web'' ''r1:c1:web'' = Some r"
proof -
  obtain s' R' where t: "tick [Landed] 1 (\<lambda>_. Landed) (store_of lost_then_tick ''r1'', redisDB lost_then_tick) = (s', R')" by fastforce
  have h: "hub_reach lost_then_tick" unfolding lost_then_tick_def by (intro hub_next hub_new) (simp add: cf_def)
  have f: "length (pending (store_of lost_then_tick ''r1'')) = 1"
    "wants lost_then_tick ''r1'' (''c1'', ''web'') = Some (direct_record (new_store ''r1'' ''ws://r'') ''c1'' ''10.0.0.1:80'' ''tcp'')"
    by (simp_all add: lost_then_tick_def at_replica_def RegisterR_def put_def view_of_def new_cluster_def new_store_def
        enqueueLocked_def applyOpLocked_def seen_error_def Let_def)
  have "own_pid ''r1'' ''r1:c1:web''" "pid_of ''r1'' ''c1'' ''web'' = ''r1:c1:web''" by (simp_all add: own_pid_def has_prefix_def pid_of_def)
  then have "pending s' = [] \<and> shared R' ''web'' ''r1:c1:web'' = Some (direct_record (new_store ''r1'' ''ws://r'') ''c1'' ''10.0.0.1:80'' ''tcp'')"
    using registry_converges [OF h _ t] f by (fastforce simp: cf_def)
  then show ?thesis using t f(1) by fastforce
qed

text \<open>C30. Lookups see all live replicas. When no write is outstanding, a lookup at any replica returns the target of a provider that a
  connected spoke registered at a live replica, and returns none only when every such provider is a delivery
  whose session this replica does not hold.\<close>

theorem lookup_sees_live_replicas:
  assumes "hub_reach C" "\<And>r. cf r \<Longrightarrow> pending (store_of C r) = []"
  shows "case fst (LookupR name (store_of C rid, redisDB C)) of
      None \<Rightarrow> \<forall>q c rec. cf q \<and> wants C q (c, name) = Some rec \<and> is_alive (redisDB C) q \<longrightarrow>
        resolve_provider (store_of C rid) name (pid_of q c name, rec) = None
    | Some t \<Rightarrow> \<exists>q c rec. cf q \<and> wants C q (c, name) = Some rec \<and> is_alive (redisDB C) q \<and>
        resolve_provider (store_of C rid) name (pid_of q c name, rec) = Some t"
proof -
  note i = hub_reach_inv [OF assms(1), unfolded hub_inv_def]
  have sh: "shared (redisDB C) name pid = Some rec \<longleftrightarrow> (\<exists>q c. cf q \<and> pid = pid_of q c name \<and> wants C q (c, name) = Some rec \<and> pOwner rec = q)" for pid rec
  proof
    assume s: "shared (redisDB C) name pid = Some rec"
    obtain q where q: "cf q" "own_pid q pid" using i s by blast
    then have a: "agree q (store_of C q) (wants C q) (redisDB C)" using i by blast
    obtain c where c: "cf c" "pid = pid_of q c name" and o: "pOwner rec = q" using agreeD(7) [OF a s q(2)] by blast
    have "shared (redisDB C) name (pid_of q c name) = wants C q (c, name)" using agreeD(5) [OF a c(1)] assms(2) [OF q(1)] by simp
    then show "\<exists>q c. cf q \<and> pid = pid_of q c name \<and> wants C q (c, name) = Some rec \<and> pOwner rec = q" using q c s o by auto
  next
    assume "\<exists>q c. cf q \<and> pid = pid_of q c name \<and> wants C q (c, name) = Some rec \<and> pOwner rec = q"
    then obtain q c where q: "cf q" "pid = pid_of q c name" "wants C q (c, name) = Some rec" by blast
    have a: "agree q (store_of C q) (wants C q) (redisDB C)" using i q(1) by blast
    have "cf c" using agreeD(4) [OF a q(3)] by blast
    then show "shared (redisDB C) name pid = Some rec" using agreeD(5) [OF a] assms(2) [OF q(1)] q by simp
  qed
  have own: "pOwner rec = q" if "cf q" "wants C q (c, name) = Some rec" for q c rec
    using i that agreeD(4) by blast
  show ?thesis using lookup_result [of "redisDB C" name "store_of C rid"] i own
    by (auto simp: sh split: option.splits) blast+
qed

definition landed :: cluster where
  "landed = hub_step (EvTick ''r1'' [Landed] 0 (\<lambda>_. Landed))
     (hub_step (EvRegister ''r1'' ''c1'' ''web'' ''10.0.0.1:80'' ''tcp'' Landed) (new_cluster (\<lambda>_. ''ws://r'')))"

theorem lookup_sees_live_replicas_witness:
  "fst (LookupR ''db'' (store_of landed ''r2'', redisDB landed)) = None \<and> is_alive (redisDB landed) ''r1''"
proof -
  have h: "hub_reach landed" unfolding landed_def by (intro hub_next hub_new) (simp_all add: cf_def)
  have f: "pending (store_of landed r) = []" "wants landed q (c, ''db'') = None" "is_alive (redisDB landed) ''r1''" for r q c
    by (simp_all add: landed_def at_replica_def RegisterR_def put_def view_of_def new_cluster_def new_store_def tick_def reconcile_def
        beatBounded_def beatAttempts_def beat_def is_alive_def aliveTTL_def
        enqueueLocked_def applyOpLocked_def seen_error_def h_write_def Let_def)
  show ?thesis using lookup_sees_live_replicas [OF h f(1), of "''db''" "''r2''"] f(2,3) by (simp split: option.splits)
qed

text \<open>A registration whose write failed is not seen here either. The replica that took it reports an error and keeps it queued, but its own
  lookups read only the shared registry, so they miss the service until the write lands.\<close>

theorem failed_register_invisible_here:
  assumes "\<And>pid. shared R name pid = None" "replicaID s = rid"
  shows "fst (LookupR name (RegisterDeliverR Lost conn name (Some m) (s, R))) = None \<and>
    map_of (muxes (fst (RegisterDeliverR Lost conn name (Some m) (s, R)))) (pid_of rid conn name) = Some m \<and>
    \<not> StoreHealth (fst (RegisterDeliverR Lost conn name (Some m) (s, R)))"
proof -
  obtain s' R' where p: "RegisterDeliverR Lost conn name (Some m) (s, R) = (s', R')" by fastforce
  then have e: "R' = R" "pending s' \<noteq> []" "map_of (muxes s') (pid_of rid conn name) = Some m"
    using assms(2) by (auto simp: RegisterDeliverR_def put_def Let_def providerID_def enqueueLocked_def applyOpLocked_def seen_error_def
        h_write_def update_conv' split: prod.splits dest: arg_cong [of _ _ pending])
  have "pids_of R name = []" using assms(1) by (force simp: pids_of_def shared_def map_of_eq_None_iff filter_empty_conv)
  then have "liveProviders R name = []" by (simp add: liveProviders_def)
  then show ?thesis using p e by (simp add: LookupR_def StoreHealth_def)
qed

theorem failed_register_invisible_here_witness:
  "fst (LookupR ''web'' (RegisterDeliverR Lost ''c1'' ''web'' (Some 7) (new_store ''r1'' ''ws://r'', redisDB (new_cluster (\<lambda>_. []))))) = None"
  using failed_register_invisible_here [of "redisDB (new_cluster (\<lambda>_. []))" "''web''" "new_store ''r1'' ''ws://r''" "''r1''" "''c1''" 7]
  by (simp add: shared_def new_cluster_def new_store_def)

text \<open>A closed replica is gone from every view once its liveness key is deleted.\<close>

lemma fold_h_write_fields: "alive (fold (\<lambda>(pid, name). h_write (w pid) name pid None) xs R) = alive R"
  by (induction xs arbitrary: R) (auto simp: h_write_def split: prod.splits)

lemma close_retires:
  assumes "wa \<noteq> Lost" "CloseR w wa (s, R) = (s', R')"
  shows "(pid, rec) \<in> set (liveProviders R' name) \<Longrightarrow> pOwner rec \<noteq> replicaID s"
  using assms by (auto simp: CloseR_def Let_def liveProviders_def is_alive_def delete_conv' fold_h_write_fields)

end
