(* ===== verification/Socks5.thy ===== *)
theory Socks5
  imports IpAddr "HOL-Library.AList" "HOL-Library.Multiset"
begin

text \<open>
  The SOCKS5 conduit (\<open>pkg/socks5/socks5.go\<close> and \<open>recovery.go\<close>): the router with its rules, its ordered claims on
  service labels and published names and its recovery window, and the bytes of the handshake and of a
  CONNECT request.
\<close>

section \<open>The router\<close>

text \<open>
  Dialers are known by their identity. A compiled rule is what it does to a subject: None when the pattern does not
  match, otherwise the expanded replacement. Sequence numbers are 64-bit and may come from outside.
\<close>

type_synonym dialer = nat
type_synonym seqno = "64 word"
type_synonym rule = "string \<Rightarrow> string option"

record alias_claim =
  deployment :: string
  regs :: nat
  aseq :: seqno
  adialer :: "dialer option"

record local_claim =
  ldialer :: dialer
  lseq :: seqno
  lid :: nat

record router =
  rules :: "rule list"
  aliases :: "(string \<times> alias_claim list) list"
  seqNext :: seqno
  locals :: "(string \<times> local_claim list) list"
  localIDNext :: nat
  recoverUntil :: "int option"
  claimWaiters :: "(string \<times> nat list) list"
  bareServiceNames :: bool

record alias_reg =
  rSeq :: seqno
  rWinner :: string
  rChanged :: bool

record alias_spec =
  spLabel :: string
  spDeployment :: string
  spSeq :: seqno
  spDialer :: "dialer option"

record local_reg =
  lrHandle :: "string \<times> nat"
  lrSeq :: seqno
  lrServing :: bool
  lrChanged :: bool

datatype result = Direct | Service string int "dialer option" | Local dialer | Pending string int

definition claims_of :: "(string \<times> 'a list) list \<Rightarrow> string \<Rightarrow> 'a list" where
  "claims_of m k = (case map_of m k of None \<Rightarrow> [] | Some cs \<Rightarrow> cs)"

text \<open>A map entry that becomes empty is deleted.\<close>

definition set_claims :: "string \<Rightarrow> 'a list \<Rightarrow> (string \<times> 'a list) list \<Rightarrow> (string \<times> 'a list) list" where
  "set_claims k cs m = (if cs = [] then AList.delete k m else AList.update k cs m)"

definition NewRouter :: "rule list \<Rightarrow> router" where
  "NewRouter rs =
     \<lparr>rules = rs, aliases = [], seqNext = 0, locals = [], localIDNext = 0, recoverUntil = None, claimWaiters = [], bareServiceNames = True\<rparr>"

definition SetBareServiceNames :: "bool \<Rightarrow> router \<Rightarrow> router" where
  "SetBareServiceNames enabled r = r\<lparr>bareServiceNames := enabled\<rparr>"

section \<open>Claims on labels\<close>

definition winner_of :: "alias_claim list \<Rightarrow> string" where
  "winner_of cs = (if cs = [] then [] else deployment (last cs))"

definition winnerLocked :: "router \<Rightarrow> string \<Rightarrow> string" where
  "winnerLocked r label = winner_of (claims_of (aliases r) label)"

text \<open>The position after every claim of at most this sequence, as \<open>sort.Search\<close> finds it.\<close>

definition insert_at :: "('a \<Rightarrow> seqno) \<Rightarrow> 'a \<Rightarrow> 'a list \<Rightarrow> 'a list" where
  "insert_at f c cs = (let i = bsearch (\<lambda>i. f (cs ! i) > f c) 0 (length cs) in take i cs @ c # drop i cs)"

fun bump :: "string \<Rightarrow> dialer option \<Rightarrow> alias_claim list \<Rightarrow> alias_claim list" where
  "bump dep d [] = []"
| "bump dep d (c # cs) =
     (if deployment c = dep then c\<lparr>regs := regs c + 1, adialer := (if d = None then adialer c else d)\<rparr> # cs else c # bump dep d cs)"

definition wakeClaimWaitersLocked :: "string \<Rightarrow> router \<Rightarrow> nat list \<times> router" where
  "wakeClaimWaitersLocked label r = (claims_of (claimWaiters r) label, r\<lparr>claimWaiters := AList.delete label (claimWaiters r)\<rparr>)"

definition claimLocked :: "alias_spec \<Rightarrow> router \<Rightarrow> alias_reg \<times> nat list \<times> router" where
  "claimLocked sp r =
     (let label = spLabel sp; before = winnerLocked r label; cs = claims_of (aliases r) label in
      case find (\<lambda>c. deployment c = spDeployment sp) cs of
        Some c \<Rightarrow>
          (\<lparr>rSeq = aseq c, rWinner = before, rChanged = False\<rparr>, [],
           r\<lparr>aliases := AList.update label (bump (spDeployment sp) (spDialer sp) cs) (aliases r)\<rparr>)
      | None \<Rightarrow>
          (let c = \<lparr>deployment = spDeployment sp, regs = 1, aseq = spSeq sp, adialer = spDialer sp\<rparr>;
               r1 = r\<lparr>aliases := AList.update label (insert_at aseq c cs) (aliases r)\<rparr>;
               (woken, r2) = wakeClaimWaitersLocked label r1; after = winnerLocked r2 label
           in (\<lparr>rSeq = spSeq sp, rWinner = after, rChanged = (after \<noteq> before)\<rparr>, woken, r2)))"

text \<open>The sequence of a claim: the one it brings, which moves the counter past it, or the next one.\<close>

definition assign_seq :: "seqno \<Rightarrow> router \<Rightarrow> seqno \<times> router" where
  "assign_seq q r =
     (if q \<noteq> 0 then (q, if q \<ge> seqNext r then r\<lparr>seqNext := q + 1\<rparr> else r)
      else let n = (if seqNext r = 0 then 1 else seqNext r) in (n, r\<lparr>seqNext := n + 1\<rparr>))"

definition no_reg :: alias_reg where
  "no_reg = \<lparr>rSeq = 0, rWinner = [], rChanged = False\<rparr>"

definition Claim :: "alias_spec \<Rightarrow> router \<Rightarrow> alias_reg \<times> nat list \<times> router" where
  "Claim sp r =
     (if spLabel sp = [] \<or> spDeployment sp = [] then (no_reg, [], r)
      else let (q, r1) = assign_seq (spSeq sp) r in claimLocked (sp\<lparr>spSeq := q\<rparr>) r1)"

definition RegisterAlias :: "string \<Rightarrow> string \<Rightarrow> router \<Rightarrow> alias_reg \<times> nat list \<times> router" where
  "RegisterAlias label dep r = Claim \<lparr>spLabel = label, spDeployment = dep, spSeq = 0, spDialer = None\<rparr> r"

text \<open>Dropping one registration of a deployment: its count goes down, or the claim goes.\<close>

fun unbump :: "string \<Rightarrow> alias_claim list \<Rightarrow> alias_claim list" where
  "unbump dep [] = []"
| "unbump dep (c # cs) =
     (if deployment c = dep then (if regs c > 1 then c\<lparr>regs := regs c - 1\<rparr> # cs else cs) else c # unbump dep cs)"

definition UnregisterAlias :: "string \<Rightarrow> string \<Rightarrow> router \<Rightarrow> alias_reg \<times> router" where
  "UnregisterAlias label dep r =
     (if label = [] \<or> dep = [] then (no_reg, r)
      else let before = winnerLocked r label; cs = claims_of (aliases r) label in
        case find (\<lambda>c. deployment c = dep) cs of
          None \<Rightarrow> (no_reg\<lparr>rWinner := before\<rparr>, r)
        | Some c \<Rightarrow>
            (let r' = r\<lparr>aliases := set_claims label (unbump dep cs) (aliases r)\<rparr>; after = winnerLocked r' label in
             (\<lparr>rSeq = aseq c, rWinner = after, rChanged = (after \<noteq> before)\<rparr>, r')))"

definition ClearAliases :: "router \<Rightarrow> router" where
  "ClearAliases r = r\<lparr>aliases := []\<rparr>"

section \<open>Recovery\<close>

definition recoveringLocked :: "int \<Rightarrow> router \<Rightarrow> bool" where
  "recoveringLocked t r = (case recoverUntil r of None \<Rightarrow> False | Some u \<Rightarrow> t < u)"

text \<open>Opening or closing the window at time \<open>t\<close>: the waiters released, and the router.\<close>

definition SetRecoveryUntil :: "int \<Rightarrow> int option \<Rightarrow> router \<Rightarrow> nat list \<times> router" where
  "SetRecoveryUntil t u r =
     (let r1 = r\<lparr>recoverUntil := u\<rparr> in
      if u = None \<or> \<not> (the u > t) then (concat (map snd (claimWaiters r)), r1\<lparr>claimWaiters := []\<rparr>) else ([], r1))"

text \<open>\<open>AwaitClaim\<close> up to its wait: an answer at once, or None with the channel queued.\<close>

definition AwaitClaim :: "int \<Rightarrow> nat \<Rightarrow> string \<Rightarrow> router \<Rightarrow> bool option \<times> router" where
  "AwaitClaim t ch label r =
     (if \<not> recoveringLocked t r then (Some False, r)
      else if claims_of (aliases r) label \<noteq> [] then (Some True, r)
      else (None, r\<lparr>claimWaiters := AList.update label (claims_of (claimWaiters r) label @ [ch]) (claimWaiters r)\<rparr>))"

definition dropWaiter :: "string \<Rightarrow> nat \<Rightarrow> router \<Rightarrow> router" where
  "dropWaiter label ch r = r\<lparr>claimWaiters := set_claims label (remove1 ch (claims_of (claimWaiters r) label)) (claimWaiters r)\<rparr>"

definition claimOrRecovering :: "int \<Rightarrow> router \<Rightarrow> string \<Rightarrow> string \<times> dialer option \<times> bool" where
  "claimOrRecovering t r label =
     (let cs = claims_of (aliases r) label in
      if cs = [] then ([], None, recoveringLocked t r) else (deployment (last cs), adialer (last cs), False))"

section \<open>Published names\<close>

definition localSubject :: "string \<Rightarrow> int \<Rightarrow> string" where
  "localSubject host port = host @ '':'' @ itoa port"

definition servingLocalLocked :: "router \<Rightarrow> string \<Rightarrow> nat" where
  "servingLocalLocked r subject = (let cs = claims_of (locals r) subject in if cs = [] then 0 else lid (last cs))"

definition no_local :: local_reg where
  "no_local = \<lparr>lrHandle = ([], 0), lrSeq = 0, lrServing = False, lrChanged = False\<rparr>"

definition publishLocked :: "string \<Rightarrow> int \<Rightarrow> dialer \<Rightarrow> seqno \<Rightarrow> router \<Rightarrow> local_reg \<times> router" where
  "publishLocked host port d q r =
     (let subject = localSubject host port; before = servingLocalLocked r subject; i = Suc (localIDNext r);
          r' = r\<lparr>localIDNext := i,
                 locals := AList.update subject (insert_at lseq \<lparr>ldialer = d, lseq = q, lid = i\<rparr> (claims_of (locals r) subject)) (locals r)\<rparr>;
          after = servingLocalLocked r' subject
      in (\<lparr>lrHandle = (subject, i), lrSeq = q, lrServing = (after = i), lrChanged = (after \<noteq> before)\<rparr>, r'))"

definition RegisterLocal :: "string \<Rightarrow> int \<Rightarrow> dialer option \<Rightarrow> router \<Rightarrow> local_reg \<times> router" where
  "RegisterLocal host port d r =
     (case d of
        None \<Rightarrow> (no_local, r)
      | Some d \<Rightarrow>
          if host = [] \<or> port < 1 \<or> port > 65535 then (no_local, r)
          else let (q, r1) = assign_seq 0 r in publishLocked host port d q r1)"

definition RegisterLocalSeq :: "string \<Rightarrow> int \<Rightarrow> dialer option \<Rightarrow> seqno \<Rightarrow> router \<Rightarrow> local_reg \<times> router" where
  "RegisterLocalSeq host port d q r =
     (case d of
        None \<Rightarrow> (no_local, r)
      | Some d \<Rightarrow>
          if host = [] \<or> port < 1 \<or> port > 65535 \<or> q = 0 then (no_local, r)
          else let (q', r1) = assign_seq q r in publishLocked host port d q' r1)"

fun drop_local :: "nat \<Rightarrow> local_claim list \<Rightarrow> local_claim list" where
  "drop_local i [] = []"
| "drop_local i (c # cs) = (if lid c = i then cs else c # drop_local i cs)"

definition UnregisterLocal :: "string \<times> nat \<Rightarrow> router \<Rightarrow> local_reg \<times> router" where
  "UnregisterLocal h r =
     (let (subject, i) = h in
      if subject = [] \<or> i = 0 then (no_local, r)
      else let before = servingLocalLocked r subject; cs = claims_of (locals r) subject in
        case find (\<lambda>c. lid c = i) cs of
          None \<Rightarrow> (no_local, r)
        | Some c \<Rightarrow>
            (let r' = r\<lparr>locals := set_claims subject (drop_local i cs) (locals r)\<rparr> in
             (no_local\<lparr>lrSeq := lseq c, lrChanged := (servingLocalLocked r' subject \<noteq> before)\<rparr>, r')))"

definition ClearLocals :: "router \<Rightarrow> router" where
  "ClearLocals r = r\<lparr>locals := []\<rparr>"

definition lookupLocal :: "router \<Rightarrow> string \<Rightarrow> int \<Rightarrow> dialer option" where
  "lookupLocal r host port = (let cs = claims_of (locals r) (localSubject host port) in if cs = [] then None else Some (ldialer (last cs)))"

section \<open>Resolving\<close>

datatype route_error = NoPort | EmptyService | BadPort

definition splitServicePort :: "string \<Rightarrow> route_error + (string \<times> int)" where
  "splitServicePort s =
     (case str_last_index '':'' s of
        None \<Rightarrow> Inl NoPort
      | Some i \<Rightarrow>
          if i = 0 then Inl EmptyService
          else (case parse_int 64 (drop (Suc i) s) of
                  None \<Rightarrow> Inl BadPort
                | Some p \<Rightarrow> if p < 1 \<or> p > 65535 then Inl BadPort else Inr (take i s, p)))"

fun first_match :: "rule list \<Rightarrow> string \<Rightarrow> string option" where
  "first_match [] subject = None"
| "first_match (f # fs) subject = (case f subject of Some out \<Rightarrow> Some out | None \<Rightarrow> first_match fs subject)"

definition isBareLabel :: "string \<Rightarrow> bool" where
  "isBareLabel host \<longleftrightarrow> CHR ''.'' \<notin> set host"

definition Resolve :: "int \<Rightarrow> router \<Rightarrow> string \<Rightarrow> int \<Rightarrow> route_error + result" where
  "Resolve t r host port =
     (case lookupLocal r host port of
        Some d \<Rightarrow> Inr (Local d)
      | None \<Rightarrow>
          (case first_match (rules r) (host @ '':'' @ itoa port) of
             Some out \<Rightarrow>
               (case splitServicePort out of
                  Inl e \<Rightarrow> Inl e
                | Inr (s, p) \<Rightarrow>
                    let (dep, d, recovering) = claimOrRecovering t r s in
                    if dep = [] \<and> recovering then Inr (Pending s p)
                    else Inr (Service (if dep \<noteq> [] then dep else s) p d))
           | None \<Rightarrow>
               if bareServiceNames r then
                 let (dep, d, recovering) = claimOrRecovering t r host in
                 if dep \<noteq> [] then Inr (Service dep port d)
                 else if recovering \<and> isBareLabel host then Inr (Pending host port)
                 else Inr Direct
               else Inr Direct))"

text \<open>
  The rule of \<open>NewSuffixRouter\<close>: the pattern matches a name without a line break, the suffix, a colon and digits
  up to the end of the subject, and the replacement drops the suffix.
\<close>

definition suffix_rule :: "string \<Rightarrow> rule" where
  "suffix_rule sfx subject =
     (case str_last_index '':'' subject of
        None \<Rightarrow> None
      | Some i \<Rightarrow>
          let host = take i subject; ds = drop (Suc i) subject; name = trim_suffix host sfx in
          if ds \<noteq> [] \<and> list_all is_digit ds \<and> has_suffix host sfx \<and> CHR 0x0A \<notin> set name then Some (name @ '':'' @ ds) else None)"

definition DefaultSuffix :: string where
  "DefaultSuffix = ''.cornus.internal''"

definition NewSuffixRouter :: "string \<Rightarrow> router" where
  "NewSuffixRouter sfx = NewRouter [suffix_rule (if sfx = [] then DefaultSuffix else sfx)]"

text \<open>\<open>translateReplace\<close>: backslash digit to the form of the regexp package.\<close>

fun translateReplace :: "string \<Rightarrow> string" where
  "translateReplace [] = []"
| "translateReplace [c] = (if c = CHR ''$'' then ''$$'' else [c])"
| "translateReplace (c # n # cs) =
     (if c = CHR ''$'' then ''$$'' @ translateReplace (n # cs)
      else if c = CHR 0x5C then (if is_digit n then ''${'' @ [n] @ ''}'' else [n]) @ translateReplace cs
      else c # translateReplace (n # cs))"

section \<open>The wire\<close>

datatype socks_error = ShortRead | BadVersion | NoMethod | BadCommand | BadAddress

definition read_full :: "nat \<Rightarrow> 8 word list \<Rightarrow> (8 word list \<times> 8 word list) option" where
  "read_full n bs = (if length bs < n then None else Some (take n bs, drop n bs))"

definition writeReply :: "8 word \<Rightarrow> 8 word list" where
  "writeReply rep = [5, rep, 0, 1, 0, 0, 0, 0, 0, 0]"

text \<open>The bytes still to be read, or the error, with what is written to the client.\<close>

definition serveHandshake :: "8 word list \<Rightarrow> (socks_error + 8 word list) \<times> 8 word list" where
  "serveHandshake bs =
     (case read_full 2 bs of
        None \<Rightarrow> (Inl ShortRead, [])
      | Some (h, r) \<Rightarrow>
          if h ! 0 \<noteq> 5 then (Inl BadVersion, [])
          else (case read_full (unat (h ! 1)) r of
                  None \<Rightarrow> (Inl ShortRead, [])
                | Some (ms, r') \<Rightarrow> if 0 \<in> set ms then (Inr r', [5, 0]) else (Inl NoMethod, [5, 255])))"

definition bytes_string :: "8 word list \<Rightarrow> string" where
  "bytes_string bs = map (\<lambda>b. char_of (unat b)) bs"

definition read_port :: "string \<Rightarrow> 8 word list \<Rightarrow> (socks_error + (string \<times> int \<times> 8 word list)) \<times> 8 word list" where
  "read_port host bs =
     (case read_full 2 bs of
        None \<Rightarrow> (Inl ShortRead, [])
      | Some (p, r) \<Rightarrow> (Inr (host, int (unat (p ! 0) * 256 + unat (p ! 1)), r), []))"

definition readConnect :: "8 word list \<Rightarrow> (socks_error + (string \<times> int \<times> 8 word list)) \<times> 8 word list" where
  "readConnect bs =
     (case read_full 4 bs of
        None \<Rightarrow> (Inl ShortRead, [])
      | Some (h, r) \<Rightarrow>
          if h ! 0 \<noteq> 5 then (Inl BadVersion, [])
          else if h ! 1 \<noteq> 1 then (Inl BadCommand, writeReply 7)
          else if h ! 3 = 1 then
            (case read_full 4 r of None \<Rightarrow> (Inl ShortRead, []) | Some (b, r') \<Rightarrow> read_port (ip_string b) r')
          else if h ! 3 = 4 then
            (case read_full 16 r of None \<Rightarrow> (Inl ShortRead, []) | Some (b, r') \<Rightarrow> read_port (ip_string b) r')
          else if h ! 3 = 3 then
            (case read_full 1 r of
               None \<Rightarrow> (Inl ShortRead, [])
             | Some (l, r1) \<Rightarrow>
                 (case read_full (unat (l ! 0)) r1 of None \<Rightarrow> (Inl ShortRead, []) | Some (b, r') \<Rightarrow> read_port (bytes_string b) r'))
          else (Inl BadAddress, writeReply 8))"

text \<open>
  Where \<open>handle\<close> sends a connection. A pending name waits; it is then resolved again, at a later time and by the
  router as it is then. What is neither local nor a service is dialed directly.
\<close>

datatype upstream = Refused | ToLocal dialer | ToService string int "dialer option" | ToDirect string int

definition upstream_of :: "string \<Rightarrow> int \<Rightarrow> result \<Rightarrow> upstream" where
  "upstream_of host port res =
     (case res of Local d \<Rightarrow> ToLocal d | Service s p d \<Rightarrow> ToService s p d | Direct \<Rightarrow> ToDirect host port | Pending _ _ \<Rightarrow> ToDirect host port)"

definition is_pending :: "result \<Rightarrow> bool" where
  "is_pending res = (case res of Pending _ _ \<Rightarrow> True | _ \<Rightarrow> False)"

definition handle_route :: "int \<Rightarrow> router \<Rightarrow> bool \<Rightarrow> int \<Rightarrow> router \<Rightarrow> string \<Rightarrow> int \<Rightarrow> upstream" where
  "handle_route t r claimed t2 r2 host port =
     (if host = [] then Refused
      else case Resolve t r host port of
        Inl _ \<Rightarrow> Refused
      | Inr res \<Rightarrow>
          if \<not> is_pending res then upstream_of host port res
          else (case Resolve t2 r2 host port of
                  Inl _ \<Rightarrow> Refused
                | Inr res2 \<Rightarrow> upstream_of host port (if \<not> claimed \<and> is_pending res2 then Direct else res2)))"

section \<open>Ordered claims\<close>

abbreviation seq_sorted :: "('a \<Rightarrow> seqno) \<Rightarrow> 'a list \<Rightarrow> bool" where
  "seq_sorted f cs \<equiv> sorted (map f cs)"

lemma insert_at_split:
  assumes "seq_sorted f cs"
  obtains a b where "cs = a @ b" "insert_at f c cs = a @ c # b" "\<forall>x \<in> set a. f x \<le> f c" "\<forall>x \<in> set b. f c < f x"
proof -
  define i where "i = bsearch (\<lambda>i. f (cs ! i) > f c) 0 (length cs)"
  have "\<forall>a b. 0 \<le> a \<and> a \<le> b \<and> b < length cs \<and> f (cs ! a) > f c \<longrightarrow> f (cs ! b) > f c"
  proof (intro allI impI, elim conjE)
    fix a b assume h: "a \<le> b" "b < length cs" "f (cs ! a) > f c"
    have "map f cs ! a \<le> map f cs ! b" using sorted_nth_mono [OF assms h(1)] h(2) by simp
    then show "f (cs ! b) > f c" using h by simp
  qed
  note sp = bsearch_spec [OF le0 this, folded i_def]
  have i: "i \<le> length cs" "\<And>k. k < i \<Longrightarrow> \<not> f (cs ! k) > f c" "\<And>k. i \<le> k \<Longrightarrow> k < length cs \<Longrightarrow> f (cs ! k) > f c"
    using sp le0 by blast+
  have "\<forall>x \<in> set (take i cs). f x \<le> f c" using i(1,2) by (auto simp: in_set_conv_nth not_less)
  moreover have "\<forall>x \<in> set (drop i cs). f c < f x" using i(3) by (auto simp: in_set_conv_nth)
  moreover have "insert_at f c cs = take i cs @ c # drop i cs" by (simp add: insert_at_def i_def Let_def)
  ultimately show ?thesis using that [of "take i cs" "drop i cs"] by simp
qed

lemma insert_at_sorted: "seq_sorted f cs \<Longrightarrow> seq_sorted f (insert_at f c cs)"
proof -
  assume s: "seq_sorted f cs"
  obtain a b where ab: "cs = a @ b" "insert_at f c cs = a @ c # b" "\<forall>x \<in> set a. f x \<le> f c" "\<forall>x \<in> set b. f c < f x"
    by (rule insert_at_split [OF s])
  have "sorted (map f a)" "sorted (map f b)" "\<forall>x \<in> set a. \<forall>y \<in> set b. f x \<le> f y" using s unfolding ab(1) by (auto simp: sorted_append)
  then show ?thesis using ab(3,4) unfolding ab(2) by (simp add: sorted_append less_imp_le)
qed

lemma mset_insert_at: "seq_sorted f cs \<Longrightarrow> mset (insert_at f c cs) = add_mset c (mset cs)"
proof -
  assume s: "seq_sorted f cs"
  obtain a b where "cs = a @ b" "insert_at f c cs = a @ c # b" by (rule insert_at_split [OF s, of c])
  then show ?thesis by simp
qed

lemma set_insert_at: "seq_sorted f cs \<Longrightarrow> set (insert_at f c cs) = insert c (set cs)"
  using mset_insert_at by (metis set_mset_add_mset_insert set_mset_mset)

text \<open>The highest sequence is last, so it wins.\<close>

lemma last_is_highest: "seq_sorted f cs \<Longrightarrow> x \<in> set cs \<Longrightarrow> f x \<le> f (last cs)"
  by (induction cs) auto

text \<open>A list sorted by distinct sequences is determined by its elements.\<close>

lemma sorted_unique:
  assumes "seq_sorted f xs" "seq_sorted f ys" "mset xs = mset ys" "inj_on f (set xs)"
  shows "xs = ys"
proof -
  have "map f xs = map f ys"
    using properties_for_sort [of "map f ys" "map f xs"] assms(1-3) by (simp add: sorted_sort_id)
  moreover have "set ys = set xs" using assms(3) by (metis set_mset_mset)
  ultimately show ?thesis using assms(4) by (simp add: inj_on_map_eq_map)
qed

section \<open>The invariant of the claims\<close>

definition claims_ok :: "alias_claim list \<Rightarrow> bool" where
  "claims_ok cs \<longleftrightarrow> seq_sorted aseq cs \<and> distinct (map deployment cs) \<and> (\<forall>c \<in> set cs. regs c > 0)"

definition alias_ok :: "router \<Rightarrow> bool" where
  "alias_ok r \<longleftrightarrow> (\<forall>l. claims_ok (claims_of (aliases r) l))"

lemma claims_of_update [simp]: "claims_of (AList.update k v m) l = (if l = k then v else claims_of m l)"
  by (simp add: claims_of_def update_conv')

lemma claims_of_set [simp]: "claims_of (set_claims k v m) l = (if l = k then v else claims_of m l)"
  by (simp add: claims_of_def set_claims_def update_conv' delete_conv')

definition claim_of :: "alias_spec \<Rightarrow> alias_claim" where
  "claim_of sp = \<lparr>deployment = spDeployment sp, regs = 1, aseq = spSeq sp, adialer = spDialer sp\<rparr>"

definition claimed :: "alias_spec \<Rightarrow> router \<Rightarrow> router" where
  "claimed sp r = snd (snd (Claim sp r))"

lemma assign_seq_aliases: "aliases (snd (assign_seq q r)) = aliases r" "q \<noteq> 0 \<Longrightarrow> fst (assign_seq q r) = q"
  by (simp_all add: assign_seq_def Let_def)

lemma find_deployment: "find (\<lambda>c. deployment c = d) cs = None \<longleftrightarrow> d \<notin> deployment ` set cs"
  by (auto simp: find_None_iff)

lemma claimed_claims:
  assumes "spLabel sp \<noteq> []" "spDeployment sp \<noteq> []"
  shows "claims_of (aliases (claimed sp r)) l =
    (if l \<noteq> spLabel sp then claims_of (aliases r) l
     else let cs = claims_of (aliases r) l in
       if spDeployment sp \<in> deployment ` set cs then bump (spDeployment sp) (spDialer sp) cs
       else insert_at aseq (claim_of (sp\<lparr>spSeq := fst (assign_seq (spSeq sp) r)\<rparr>)) cs)"
proof -
  obtain q r1 where q: "assign_seq (spSeq sp) r = (q, r1)" by fastforce
  then have a: "aliases r1 = aliases r" using assign_seq_aliases(1) by (metis snd_conv)
  have c: "claimed sp r = snd (snd (claimLocked (sp\<lparr>spSeq := q\<rparr>) r1))" using assms q by (simp add: claimed_def Claim_def)
  show ?thesis
  proof (cases "find (\<lambda>c. deployment c = spDeployment sp) (claims_of (aliases r) (spLabel sp))")
    case None
    then show ?thesis using find_deployment [of "spDeployment sp"] q
      by (auto simp: c claimLocked_def a wakeClaimWaitersLocked_def claim_of_def Let_def)
  next
    case (Some x)
    then have "spDeployment sp \<in> deployment ` set (claims_of (aliases r) (spLabel sp))"
      using find_deployment [of "spDeployment sp" "claims_of (aliases r) (spLabel sp)"] by auto
    then show ?thesis using Some by (simp add: c claimLocked_def a Let_def)
  qed
qed

lemma bump_maps: "map deployment (bump d dl cs) = map deployment cs" "map aseq (bump d dl cs) = map aseq cs"
  by (induction cs) auto

lemma bump_regs: "\<forall>c \<in> set cs. regs c > 0 \<Longrightarrow> \<forall>c \<in> set (bump d dl cs). regs c > 0"
  by (induction cs) auto

lemma claims_ok_bump: "claims_ok cs \<Longrightarrow> claims_ok (bump d dl cs)"
  using bump_regs [of cs d dl] by (simp add: claims_ok_def bump_maps)

lemma claims_ok_insert: "claims_ok cs \<Longrightarrow> deployment c \<notin> deployment ` set cs \<Longrightarrow> regs c > 0 \<Longrightarrow> claims_ok (insert_at aseq c cs)"
proof -
  assume ok: "claims_ok cs" "deployment c \<notin> deployment ` set cs" "regs c > 0"
  then have s: "seq_sorted aseq cs" by (simp add: claims_ok_def)
  obtain a b where ab: "cs = a @ b" "insert_at aseq c cs = a @ c # b" by (rule insert_at_split [OF s, of c])
  have "seq_sorted aseq (a @ c # b)" using insert_at_sorted [OF s, of c] unfolding ab(2) .
  moreover have "distinct (map deployment (a @ c # b))" "\<forall>x \<in> set (a @ c # b). regs x > 0"
    using ok unfolding ab(1) claims_ok_def by auto
  ultimately show ?thesis unfolding ab(2) claims_ok_def by blast
qed

lemma alias_ok_claim: "alias_ok r \<Longrightarrow> alias_ok (claimed sp r)"
proof (cases "spLabel sp = [] \<or> spDeployment sp = []")
  case False
  assume "alias_ok r"
  then show ?thesis using False
    by (auto simp: alias_ok_def claimed_claims Let_def claims_ok_bump claims_ok_insert claim_of_def)
qed (simp add: claimed_def Claim_def)

lemma unbump_sub: "deployment ` set (unbump d cs) \<subseteq> deployment ` set cs" "aseq ` set (unbump d cs) \<subseteq> aseq ` set cs"
  by (induction cs) auto

lemma claims_ok_unbump: "claims_ok cs \<Longrightarrow> claims_ok (unbump d cs)"
proof (induction cs)
  case (Cons c cs)
  then have "claims_ok (unbump d cs)" by (simp add: claims_ok_def)
  moreover have "deployment c \<notin> deployment ` set (unbump d cs)" using Cons.prems unbump_sub(1) [of d cs] by (auto simp: claims_ok_def)
  moreover have "\<forall>x \<in> set (unbump d cs). aseq c \<le> aseq x"
    using Cons.prems unbump_sub(2) [of d cs] by (fastforce simp: claims_ok_def)
  ultimately show ?case using Cons.prems by (auto simp: claims_ok_def)
qed (simp add: claims_ok_def)

lemma unregister_claims:
  assumes "label \<noteq> []" "dep \<noteq> []"
  shows "claims_of (aliases (snd (UnregisterAlias label dep r))) l = (if l = label then unbump dep (claims_of (aliases r) l) else claims_of (aliases r) l)"
proof -
  have "dep \<notin> deployment ` set cs \<Longrightarrow> unbump dep cs = cs" for cs by (induction cs) auto
  then show ?thesis using assms find_deployment [of dep "claims_of (aliases r) label"]
    by (auto simp: UnregisterAlias_def Let_def split: option.splits)
qed

lemma alias_ok_unregister: "alias_ok r \<Longrightarrow> alias_ok (snd (UnregisterAlias label dep r))"
proof (cases "label = [] \<or> dep = []")
  case False
  assume "alias_ok r"
  then show ?thesis using False by (simp add: alias_ok_def unregister_claims claims_ok_unbump)
qed (simp add: UnregisterAlias_def)

lemma alias_ok_new: "alias_ok (NewRouter rs)"
  by (simp add: alias_ok_def NewRouter_def claims_of_def claims_ok_def)

section \<open>Properties\<close>

definition replay :: "alias_spec list \<Rightarrow> router \<Rightarrow> router" where
  "replay sps r = fold claimed sps r"

definition replayable :: "alias_spec list \<Rightarrow> bool" where
  "replayable sps \<longleftrightarrow> list_all (\<lambda>sp. spLabel sp \<noteq> [] \<and> spDeployment sp \<noteq> [] \<and> spSeq sp \<noteq> 0) sps \<and>
     distinct (map (\<lambda>sp. (spLabel sp, spDeployment sp)) sps) \<and> distinct (map (\<lambda>sp. (spLabel sp, spSeq sp)) sps)"

lemma replay_claims:
  "replayable sps \<Longrightarrow> seq_sorted aseq (claims_of (aliases (replay sps (NewRouter rs))) l) \<and>
     mset (claims_of (aliases (replay sps (NewRouter rs))) l) = image_mset claim_of (mset (filter (\<lambda>sp. spLabel sp = l) sps))"
proof (induction sps rule: rev_induct)
  case Nil
  then show ?case by (simp add: replay_def NewRouter_def claims_of_def)
next
  case (snoc sp sps)
  define r where "r = replay sps (NewRouter rs)"
  have sp: "spLabel sp \<noteq> []" "spDeployment sp \<noteq> []" "spSeq sp \<noteq> 0" and "replayable sps"
    and new: "(spLabel sp, spDeployment sp) \<notin> (\<lambda>sp. (spLabel sp, spDeployment sp)) ` set sps"
    using snoc.prems by (auto simp: replayable_def)
  then have IH: "seq_sorted aseq (claims_of (aliases r) l)"
      "mset (claims_of (aliases r) l) = image_mset claim_of (mset (filter (\<lambda>sp. spLabel sp = l) sps))" using snoc.IH by (simp_all add: r_def)
  have set: "set (claims_of (aliases r) l) = claim_of ` {x \<in> set sps. spLabel x = l}"
    using arg_cong [OF IH(2), of set_mset] by simp
  have q: "sp\<lparr>spSeq := fst (assign_seq (spSeq sp) r)\<rparr> = sp" using assign_seq_aliases(2) [OF sp(3)] by simp
  have st: "replay (sps @ [sp]) (NewRouter rs) = claimed sp r" by (simp add: replay_def r_def)
  show ?case
  proof (cases "l = spLabel sp")
    case False
    then show ?thesis using IH by (simp add: st claimed_claims [OF sp(1,2)])
  next
    case True
    have "spDeployment sp \<notin> deployment ` set (claims_of (aliases r) l)" using new True unfolding set by (auto simp: claim_of_def image_iff)
    then have "claims_of (aliases (claimed sp r)) l = insert_at aseq (claim_of sp) (claims_of (aliases r) l)"
      using True by (simp add: claimed_claims [OF sp(1,2)] q)
    then show ?thesis using insert_at_sorted [OF IH(1), of "claim_of sp"] mset_insert_at [OF IH(1), of "claim_of sp"] IH(2) True
      by (simp add: st)
  qed
qed

text \<open>C32. Precedence is a property of the claim. When the survivors of a replaced conduit host replay the claims they hold, with the
  sequence numbers they were given, every order of arrival gives the same claims on every label, so every
  label resolves to the same deployment through the same dialer.\<close>

theorem precedence_survives_replay:
  assumes "replayable sps" "mset sps = mset sps'"
  shows "claims_of (aliases (replay sps (NewRouter rs))) l = claims_of (aliases (replay sps' (NewRouter rs))) l"
proof (rule sorted_unique [of aseq])
  have "distinct (map (\<lambda>sp. (spLabel sp, spDeployment sp)) sps') = distinct (map (\<lambda>sp. (spLabel sp, spDeployment sp)) sps)"
    "distinct (map (\<lambda>sp. (spLabel sp, spSeq sp)) sps') = distinct (map (\<lambda>sp. (spLabel sp, spSeq sp)) sps)"
    by (rule mset_eq_imp_distinct_iff, simp add: assms(2))+
  then have "replayable sps'" using assms(1) mset_eq_setD [OF assms(2)] unfolding replayable_def list_all_iff by simp
  note a = replay_claims [OF assms(1), of rs l] and b = replay_claims [OF this, of rs l]
  show "seq_sorted aseq (claims_of (aliases (replay sps (NewRouter rs))) l)" "seq_sorted aseq (claims_of (aliases (replay sps' (NewRouter rs))) l)"
    using a b by simp_all
  show "mset (claims_of (aliases (replay sps (NewRouter rs))) l) = mset (claims_of (aliases (replay sps' (NewRouter rs))) l)"
    using a b assms(2) by (simp add: mset_filter)
  have set: "set (claims_of (aliases (replay sps (NewRouter rs))) l) = claim_of ` {x \<in> set sps. spLabel x = l}"
    using arg_cong [OF conjunct2 [OF a], of set_mset] by simp
  have inj: "inj_on (\<lambda>sp. (spLabel sp, spSeq sp)) (set sps)" using assms(1) by (simp add: replayable_def distinct_map)
  show "inj_on aseq (set (claims_of (aliases (replay sps (NewRouter rs))) l))"
    unfolding set
  proof (rule inj_onI, elim imageE CollectE conjE)
    fix x y sx sy assume h: "aseq x = aseq y" "x = claim_of sx" "y = claim_of sy" "sx \<in> set sps" "sy \<in> set sps" "spLabel sx = l" "spLabel sy = l"
    then have "(spLabel sx, spSeq sx) = (spLabel sy, spSeq sy)" by (simp add: claim_of_def)
    then have "sx = sy" using inj h(4,5) by (auto dest: inj_onD)
    then show "x = y" using h by simp
  qed
qed

definition spec_of :: "string \<Rightarrow> string \<Rightarrow> seqno \<Rightarrow> alias_spec" where
  "spec_of l d q = \<lparr>spLabel = l, spDeployment = d, spSeq = q, spDialer = None\<rparr>"

theorem precedence_survives_replay_witness:
  "claims_of (aliases (replay [spec_of ''web'' ''a-web'' 3, spec_of ''web'' ''b-web'' 8] (NewRouter []))) ''web'' =
   claims_of (aliases (replay [spec_of ''web'' ''b-web'' 8, spec_of ''web'' ''a-web'' 3] (NewRouter []))) ''web''"
  by (rule precedence_survives_replay) (simp_all add: replayable_def spec_of_def)

text \<open>C33. Withdrawing restores. After a claim on a label, its withdrawal leaves every label with the claims, counts and
  precedences it had before; so the short name goes back to whoever held it, and a recreate that
  registers before its predecessor withdraws is not seen.\<close>

theorem withdrawal_restores:
  assumes "alias_ok r" "spLabel sp \<noteq> []" "spDeployment sp \<noteq> []"
  shows "map (\<lambda>c. (deployment c, regs c, aseq c)) (claims_of (aliases (snd (UnregisterAlias (spLabel sp) (spDeployment sp) (claimed sp r)))) l) =
    map (\<lambda>c. (deployment c, regs c, aseq c)) (claims_of (aliases r) l)"
proof (cases "l = spLabel sp")
  case False
  then show ?thesis by (simp add: unregister_claims [OF assms(2,3)] claimed_claims [OF assms(2,3)])
next
  case True
  define cs where "cs = claims_of (aliases r) l"
  have ok: "claims_ok cs" using assms(1) by (simp add: alias_ok_def cs_def)
  show ?thesis
  proof (cases "spDeployment sp \<in> deployment ` set cs")
    case b: True
    have "\<forall>c \<in> set cs. regs c > 0" using ok by (simp add: claims_ok_def)
    then have "map (\<lambda>c. (deployment c, regs c, aseq c)) (unbump (spDeployment sp) (bump (spDeployment sp) (spDialer sp) cs)) =
        map (\<lambda>c. (deployment c, regs c, aseq c)) cs" by (induction cs) auto
    then show ?thesis using True b by (simp add: unregister_claims [OF assms(2,3)] claimed_claims [OF assms(2,3)] cs_def)
  next
    case n: False
    define c where "c = claim_of (sp\<lparr>spSeq := fst (assign_seq (spSeq sp) r)\<rparr>)"
    have s: "seq_sorted aseq cs" using ok by (simp add: claims_ok_def)
    obtain a b where ab: "cs = a @ b" "insert_at aseq c cs = a @ c # b" by (rule insert_at_split [OF s, of c])
    have "unbump (spDeployment sp) (a' @ c # b) = a' @ b" if "spDeployment sp \<notin> deployment ` set a'" for a'
      using that by (induction a') (auto simp: c_def claim_of_def)
    from this [of a] have "unbump (spDeployment sp) (insert_at aseq c cs) = cs" using n unfolding ab(2) by (auto simp: ab(1))
    then show ?thesis using True n by (simp add: unregister_claims [OF assms(2,3)] claimed_claims [OF assms(2,3)] cs_def c_def)
  qed
qed

theorem withdrawal_restores_witness:
  "map (\<lambda>c. (deployment c, regs c, aseq c)) (claims_of (aliases (snd (UnregisterAlias ''web'' ''b-web''
      (claimed (spec_of ''web'' ''b-web'' 0) (claimed (spec_of ''web'' ''a-web'' 0) (NewRouter [])))))) ''web'') =
    map (\<lambda>c. (deployment c, regs c, aseq c)) (claims_of (aliases (claimed (spec_of ''web'' ''a-web'' 0) (NewRouter []))) ''web'')"
  using withdrawal_restores [OF alias_ok_claim [OF alias_ok_new], of "spec_of ''web'' ''b-web'' 0" "spec_of ''web'' ''a-web'' 0" "[]" "''web''"]
  by (simp add: spec_of_def)

lemma str_last_index_colon:
  "CHR '':'' \<notin> set b \<Longrightarrow> str_last_index '':'' (a @ CHR '':'' # b) = Some (length a)"
proof -
  assume b: "CHR '':'' \<notin> set b"
  have "str_last_index '':'' b = None" using b by (induction b) (auto simp: has_prefix_def)
  then show ?thesis by (induction a) (auto simp: has_prefix_def)
qed

lemma itoa_digits: "0 \<le> i \<Longrightarrow> itoa i \<noteq> [] \<and> list_all is_digit (itoa i) \<and> CHR '':'' \<notin> set (itoa i)"
proof -
  assume "0 \<le> i"
  then have e: "itoa i = nat_digits (nat i)" by (simp add: itoa_def)
  have d: "nat_digits (nat i) \<noteq> []" "list_all is_digit (nat_digits (nat i))" using nat_digits_props [of "nat i"] by blast+
  have "\<not> is_digit CHR '':''" by code_simp
  then have "CHR '':'' \<notin> set (nat_digits (nat i))" using d(2) unfolding list_all_iff by blast
  then show ?thesis using d e by simp
qed

lemma split_service: "s \<noteq> [] \<Longrightarrow> 1 \<le> p \<Longrightarrow> p \<le> 65535 \<Longrightarrow> splitServicePort (s @ CHR '':'' # itoa p) = Inr (s, p)"
  using itoa_digits [of p] parse_itoa [of 64 p] by (simp add: splitServicePort_def str_last_index_colon)

lemma suffix_rule_match:
  assumes "name \<noteq> []" "CHR 0x0A \<notin> set name" "1 \<le> p"
  shows "suffix_rule sfx ((name @ sfx) @ CHR '':'' # itoa p) = Some (name @ CHR '':'' # itoa p)"
proof -
  have d: "itoa p \<noteq> []" "list_all is_digit (itoa p)" "CHR '':'' \<notin> set (itoa p)" using itoa_digits [of p] assms(3) by simp_all
  have i: "str_last_index '':'' ((name @ sfx) @ CHR '':'' # itoa p) = Some (length (name @ sfx))" by (rule str_last_index_colon [OF d(3)])
  have h: "take (length (name @ sfx)) ((name @ sfx) @ CHR '':'' # itoa p) = name @ sfx"
    "drop (Suc (length (name @ sfx))) ((name @ sfx) @ CHR '':'' # itoa p) = itoa p" by simp_all
  have "has_suffix (name @ sfx) sfx" "trim_suffix (name @ sfx) sfx = name" by (simp_all add: has_suffix_iff trim_suffix_def)
  then show ?thesis unfolding suffix_rule_def i option.case h Let_def using d assms(2) by simp
qed



text \<open>
  A pending name that is claimed, and withdrawn before it is resolved again, is still pending then; it is dialed directly.
\<close>

lemma withdrawn_claim_egresses:
  assumes "host \<noteq> []" "Resolve t r host port = Inr (Pending l p)" "Resolve t2 r2 host port = Inr (Pending l2 p2)"
  shows "handle_route t r True t2 r2 host port = ToDirect host port"
  using assms by (simp add: handle_route_def is_pending_def upstream_of_def)

text \<open>A CONNECT request for a domain is read back, with the bytes after it.\<close>

lemma read_full_append: "n = length a \<Longrightarrow> read_full n (a @ b) = Some (a, b)"
  by (simp add: read_full_def)

lemma readConnect_domain:
  assumes "length host < 256"
  shows "readConnect ([5, 1, x, 3, of_nat (length host)] @ host @ [hi, lo] @ rest) =
    (Inr (bytes_string host, int (unat hi * 256 + unat lo), rest), [])"
proof -
  have l: "unat (of_nat (length host) :: 8 word) = length host" using assms by (simp add: unat_of_nat take_bit_nat_eq_self)
  have a: "read_full 4 ([5, 1, x, 3, of_nat (length host)] @ host @ [hi, lo] @ rest) = Some ([5, 1, x, 3], of_nat (length host) # host @ [hi, lo] @ rest)"
    "read_full 1 (of_nat (length host) # host @ [hi, lo] @ rest) = Some ([of_nat (length host)], host @ [hi, lo] @ rest)"
    by (simp_all add: read_full_def)
  have b: "read_full (unat ([of_nat (length host) :: 8 word] ! 0)) (host @ [hi, lo] @ rest) = Some (host, [hi, lo] @ rest)"
    using l by (intro read_full_append) simp
  have c: "read_full 2 ([hi, lo] @ rest) = Some ([hi, lo], rest)" by (rule read_full_append) simp
  have h: "[5, 1, x, 3 :: 8 word] ! 0 = 5" "[5, 1, x, 3 :: 8 word] ! 1 = 1" "[5, 1, x, 3 :: 8 word] ! 3 = 3" by simp_all
  show ?thesis unfolding readConnect_def a option.case prod.case h b read_port_def c by simp
qed

end
