(* ===== verification/Ingress.thy ===== *)
theory Ingress
  imports IpAddr "HOL-Library.AList"
begin

text \<open>
  Ingress hosts and paths (\<open>pkg/ingressroute/ingressroute.go\<close>, with the validation of \<open>pkg/api/deploy.go\<close>) and the routing table of
  the server-side front door (\<open>pkg/ingressmux/ingressmux.go\<close>).
\<close>

section \<open>Hosts\<close>

definition lower_char :: "char \<Rightarrow> char" where
  "lower_char c = (if c \<in> set ''ABCDEFGHIJKLMNOPQRSTUVWXYZ'' then char_of (of_char c + 32 :: nat) else c)"

definition trim_set :: "char set \<Rightarrow> string \<Rightarrow> string" where
  "trim_set cs s = rev (dropWhile (\<lambda>c. c \<in> cs) (rev (dropWhile (\<lambda>c. c \<in> cs) s)))"

definition trim_right_set :: "char set \<Rightarrow> string \<Rightarrow> string" where
  "trim_right_set cs s = rev (dropWhile (\<lambda>c. c \<in> cs) (rev s))"

text \<open>\<open>SanitizeDNS1123\<close> on ASCII names.\<close>

definition SanitizeDNS1123 :: "string \<Rightarrow> string" where
  "SanitizeDNS1123 s =
     trim_set {CHR ''-''} (map (\<lambda>c. let d = lower_char c in if d \<in> set ''abcdefghijklmnopqrstuvwxyz0123456789-'' then d else CHR ''-'') s)"

definition SanitizeSubdomain :: "string \<Rightarrow> string" where
  "SanitizeSubdomain s = join_with ''.'' (filter (\<lambda>l. l \<noteq> []) (map SanitizeDNS1123 (split_byte CHR ''.'' s)))"

definition CanonicalHost :: "string \<Rightarrow> string" where
  "CanonicalHost host = trim_suffix (map lower_char (trim_space host)) ''.''"

definition WithinDomain :: "string \<Rightarrow> string \<Rightarrow> bool" where
  "WithinDomain host domain =
     (let d = CanonicalHost domain in d = [] \<or> (let h = CanonicalHost host in h = d \<or> has_suffix h (''.'' @ d)))"

definition isDNSName :: "string \<Rightarrow> bool" where
  "isDNSName s \<longleftrightarrow> s \<noteq> [] \<and> length s \<le> 253 \<and>
     list_all (\<lambda>l. l \<noteq> [] \<and> length l \<le> 63 \<and> hd l \<noteq> CHR ''-'' \<and> last l \<noteq> CHR ''-'' \<and>
       list_all (\<lambda>c. lower_char c \<in> set ''abcdefghijklmnopqrstuvwxyz0123456789-'') l) (split_byte CHR ''.'' s)"

section \<open>Paths\<close>

definition PathMatches :: "string \<Rightarrow> string \<Rightarrow> string \<Rightarrow> bool" where
  "PathMatches path pathType req =
     (if path = [] \<or> path = ''/'' then True
      else let p = trim_right_set {CHR ''/''} path in
        if pathType = ''Exact'' then req = p else req = p \<or> has_prefix req (p @ ''/''))"

definition MatchLen :: "string \<Rightarrow> nat" where
  "MatchLen path = length (trim_right_set {CHR ''/''} path)"

section \<open>Resolving a specification\<close>

record ingress_spec =
  inEnabled :: bool
  inHosts :: "string list"
  inDomain :: string
  inSubdomain :: string
  inPath :: string
  inPathType :: string
  inPort :: int
  inTLS :: bool
  inClientEmulated :: bool
  inHostMode :: "string option"

record defaults =
  dfDomain :: string
  dfEnforceDomain :: bool

text \<open>\<open>envBool\<close> and \<open>DefaultsFromEnv\<close>, over the server's environment (an unset variable reads as the empty string).\<close>

definition envBool :: "string \<Rightarrow> bool" where
  "envBool v \<longleftrightarrow> map lower_char (trim_space v) \<in> set [''1'', ''true'', ''yes'', ''on'']"

definition DefaultsFromEnv :: "(string \<Rightarrow> string) \<Rightarrow> defaults" where
  "DefaultsFromEnv env =
     \<lparr>dfDomain = trim_space (env ''CORNUS_INGRESS_DOMAIN''), dfEnforceDomain = envBool (env ''CORNUS_INGRESS_ENFORCE_DOMAIN'')\<rparr>"

record route =
  rtWorkload :: string
  rtHosts :: "string list"
  rtPath :: string
  rtPathType :: string
  rtTargetPort :: int
  rtTLS :: bool

datatype ingress_error = BadHostMode | BadHost string | BadDomain | BadPathType | NegativePort | NoPorts | NoApexDomain
  | NoHost | NoLabel | OutsideDomain string | UnpublishedPort int

definition Enabled :: "ingress_spec option \<Rightarrow> bool" where
  "Enabled sp = (case sp of None \<Rightarrow> False | Some i \<Rightarrow> \<not> inClientEmulated i \<and> (inEnabled i \<or> inHosts i \<noteq> []))"

definition tunnel_ok :: "string option \<Rightarrow> bool" where
  "tunnel_ok m = (case m of None \<Rightarrow> True | Some h \<Rightarrow> h \<in> set [[], ''auto'', ''passthrough'', ''alias'', ''rewrite''])"

definition Validate :: "ingress_spec \<Rightarrow> ingress_error option" where
  "Validate i =
     (if \<not> tunnel_ok (inHostMode i) then Some BadHostMode
      else case find (\<lambda>h. trim_space h \<noteq> ''@'' \<and> \<not> isDNSName (trim_space h)) (inHosts i) of
        Some h \<Rightarrow> Some (BadHost (trim_space h))
      | None \<Rightarrow>
          if trim_space (inDomain i) \<noteq> [] \<and> \<not> isDNSName (trim_space (inDomain i)) then Some BadDomain
          else if inPathType i \<noteq> [] \<and> inPathType i \<notin> set [''Prefix'', ''Exact'', ''ImplementationSpecific''] then Some BadPathType
          else if inPort i < 0 then Some NegativePort else None)"

text \<open>The loop over the explicit hosts.\<close>

fun explicit_hosts :: "string \<Rightarrow> string list \<Rightarrow> ingress_error + string list" where
  "explicit_hosts domain [] = Inr []"
| "explicit_hosts domain (h0 # hs) =
     (let h = trim_space h0 in
      if h = [] then explicit_hosts domain hs
      else if h = ''@'' \<and> domain = [] then Inl NoApexDomain
      else (case explicit_hosts domain hs of
              Inl e \<Rightarrow> Inl e
            | Inr r \<Rightarrow> Inr (CanonicalHost (if h = ''@'' then domain else h) # r)))"

definition derived_host :: "ingress_spec \<Rightarrow> string \<Rightarrow> string \<Rightarrow> ingress_error + string list" where
  "derived_host i name domain =
     (if domain = [] then Inl NoHost
      else let sub0 = trim_space (inSubdomain i); sub = SanitizeSubdomain (if sub0 = [] then name else sub0) in
        if sub = [] then Inl NoLabel else Inr [CanonicalHost (sub @ ''.'' @ domain)])"

definition target_port :: "ingress_spec \<Rightarrow> int list \<Rightarrow> ingress_error + int" where
  "target_port i ports =
     (if inPort i = 0 then Inr (hd ports) else if inPort i \<in> set ports then Inr (inPort i) else Inl (UnpublishedPort (inPort i)))"

definition Resolve :: "ingress_spec \<Rightarrow> int list \<Rightarrow> string \<Rightarrow> defaults \<Rightarrow> ingress_error + (string list \<times> int)" where
  "Resolve i ports name def =
     (case Validate i of
        Some e \<Rightarrow> Inl e
      | None \<Rightarrow>
          if ports = [] then Inl NoPorts
          else
            let domain = (if trim_space (inDomain i) = [] then dfDomain def else trim_space (inDomain i)) in
            case explicit_hosts domain (inHosts i) of
              Inl e \<Rightarrow> Inl e
            | Inr hs \<Rightarrow>
                (case (if hs = [] then derived_host i name domain else Inr hs) of
                   Inl e \<Rightarrow> Inl e
                 | Inr hosts \<Rightarrow>
                     (case (if dfEnforceDomain def \<and> dfDomain def \<noteq> [] then find (\<lambda>h. \<not> WithinDomain h (dfDomain def)) hosts else None) of
                        Some h \<Rightarrow> Inl (OutsideDomain h)
                      | None \<Rightarrow> (case target_port i ports of Inl e \<Rightarrow> Inl e | Inr p \<Rightarrow> Inr (hosts, p)))))"

definition Route :: "ingress_spec \<Rightarrow> int list \<Rightarrow> string \<Rightarrow> defaults \<Rightarrow> ingress_error + route" where
  "Route i ports name def =
     (case Resolve i ports name def of
        Inl e \<Rightarrow> Inl e
      | Inr (hosts, p) \<Rightarrow>
          Inr \<lparr>rtWorkload = name, rtHosts = hosts, rtPath = inPath i, rtPathType = inPathType i, rtTargetPort = p, rtTLS = inTLS i\<rparr>)"

section \<open>The routing table\<close>

record table =
  byWorkload :: "(string \<times> route list) list"
  byHost :: "(string \<times> route list) list"
  hostAliases :: "(string \<times> string) list"

definition NewTable :: table where
  "NewTable = \<lparr>byWorkload = [], byHost = [], hostAliases = []\<rparr>"

definition rules_of :: "(string \<times> route list) list \<Rightarrow> string \<Rightarrow> route list" where
  "rules_of m h = (case map_of m h of None \<Rightarrow> [] | Some rs \<Rightarrow> rs)"

definition index_host :: "route \<Rightarrow> string \<Rightarrow> (string \<times> route list) list \<Rightarrow> (string \<times> route list) list" where
  "index_host r h m = AList.update h (rules_of m h @ [r]) m"

definition index_route :: "route \<Rightarrow> (string \<times> route list) list \<Rightarrow> (string \<times> route list) list" where
  "index_route r m = fold (index_host r) (rtHosts r) m"

text \<open>\<open>reindexLocked\<close>, with the workloads in the order of the list.\<close>

definition reindexLocked :: "table \<Rightarrow> table" where
  "reindexLocked t = t\<lparr>byHost := fold index_route (concat (map snd (byWorkload t))) []\<rparr>"

definition normalized :: "string \<Rightarrow> route list \<Rightarrow> route list" where
  "normalized workload rs =
     filter (\<lambda>r. rtHosts r \<noteq> [])
       (map (\<lambda>r. r\<lparr>rtWorkload := workload, rtHosts := filter (\<lambda>h. h \<noteq> []) (map CanonicalHost (rtHosts r))\<rparr>) rs)"

definition Set :: "string \<Rightarrow> route list \<Rightarrow> table \<Rightarrow> table" where
  "Set workload rs t =
     reindexLocked (t\<lparr>byWorkload := (if normalized workload rs = [] then AList.delete workload (byWorkload t)
        else AList.update workload (normalized workload rs) (byWorkload t))\<rparr>)"

definition Remove :: "string \<Rightarrow> table \<Rightarrow> table" where
  "Remove workload t = reindexLocked (t\<lparr>byWorkload := AList.delete workload (byWorkload t)\<rparr>)"

definition HostAlias :: "string \<Rightarrow> string \<Rightarrow> table \<Rightarrow> table" where
  "HostAlias alias target t =
     (let a = CanonicalHost alias; g = CanonicalHost target in
      if a = [] then t
      else if g = [] then t\<lparr>hostAliases := AList.delete a (hostAliases t)\<rparr>
      else t\<lparr>hostAliases := AList.update a g (hostAliases t)\<rparr>)"

definition Hosts :: "table \<Rightarrow> string list" where
  "Hosts t = sort (map fst (byHost t))"

definition HostsFor :: "string \<Rightarrow> table \<Rightarrow> string list" where
  "HostsFor workload t = sort (remdups (concat (map rtHosts (rules_of (byWorkload t) workload))))"

definition Workloads :: "table \<Rightarrow> string list" where
  "Workloads t = sort (map fst (byWorkload t))"

definition Has :: "string \<Rightarrow> table \<Rightarrow> bool" where
  "Has workload t \<longleftrightarrow> rules_of (byWorkload t) workload \<noteq> []"

definition Empty :: "table \<Rightarrow> bool" where
  "Empty t \<longleftrightarrow> byWorkload t = []"

definition stripPort :: "string \<Rightarrow> string" where
  "stripPort host = trim_set {CHR ''['', CHR '']''} (case SplitHostPort host of Some (h, _) \<Rightarrow> h | None \<Rightarrow> host)"

text \<open>The loop over the rules of a host: the best so far is None before the first match.\<close>

definition better :: "route option \<Rightarrow> route \<Rightarrow> route option" where
  "better best r =
     (case best of
        None \<Rightarrow> Some r
      | Some b \<Rightarrow>
          if MatchLen (rtPath r) > MatchLen (rtPath b) then Some r
          else if MatchLen (rtPath r) = MatchLen (rtPath b) \<and> rtPathType r = ''Exact'' \<and> rtPathType b \<noteq> ''Exact'' then Some r
          else Some b)"

definition best_rule :: "string \<Rightarrow> route list \<Rightarrow> route option" where
  "best_rule path rs = foldl better None (filter (\<lambda>r. PathMatches (rtPath r) (rtPathType r) path) rs)"

text \<open>None when the host is not known; otherwise the route, if a rule matches the path.\<close>

definition host_rules :: "string \<Rightarrow> table \<Rightarrow> route list option" where
  "host_rules h t =
     (case map_of (byHost t) h of
        Some rs \<Rightarrow> Some rs
      | None \<Rightarrow> (case map_of (hostAliases t) h of Some g \<Rightarrow> map_of (byHost t) g | None \<Rightarrow> None))"

definition Lookup :: "string \<Rightarrow> string \<Rightarrow> table \<Rightarrow> route option option" where
  "Lookup host path t = map_option (best_rule path) (host_rules (CanonicalHost (stripPort host)) t)"

datatype response = Misdirected | NotFound | Proxied string int

definition ServeHTTP :: "string \<Rightarrow> string \<Rightarrow> table \<Rightarrow> response" where
  "ServeHTTP host path t =
     (case Lookup host path t of
        None \<Rightarrow> Misdirected
      | Some None \<Rightarrow> NotFound
      | Some (Some r) \<Rightarrow> Proxied (rtWorkload r) (rtTargetPort r))"

section \<open>The front door and its persisted routes\<close>

text \<open>
  \<open>ingressManager\<close> of \<open>pkg/server/ingress.go\<close>.  The content of a file of \<open>DataDir/ingress\<close> is what reading and decoding it gives; a write
  lands, leaves the file alone or tears it.
\<close>

datatype content = Json route | Garbage | Unreadable | Directory

datatype write_outcome = Written | NotWritten | Torn

record manager =
  tbl :: table
  defs :: defaults
  persists :: bool
  disk :: "(string \<times> content) list"
  recovered :: bool

record deploy_spec =
  dsName :: string
  dsPorts :: "int list"
  dsIngress :: "ingress_spec option"

definition newIngressManager :: "defaults \<Rightarrow> bool \<Rightarrow> (string \<times> content) list \<Rightarrow> manager" where
  "newIngressManager d dir files = \<lparr>tbl = NewTable, defs = d, persists = dir, disk = files, recovered = False\<rparr>"

text \<open>The file of a workload below the directory: \<open>filepath.Join\<close> drops the slash of the one name that is its own base and has one.\<close>

definition routeFile :: "string \<Rightarrow> manager \<Rightarrow> string option" where
  "routeFile w m =
     (if \<not> persists m \<or> w \<noteq> path_base w then None else Some ((if w = ''/'' then [] else w) @ ''.json''))"

definition mremove :: "bool \<Rightarrow> string \<Rightarrow> manager \<Rightarrow> manager" where
  "mremove ok w m =
     (let m = m\<lparr>tbl := Remove w (tbl m)\<rparr> in
      case routeFile w m of
        None \<Rightarrow> m
      | Some f \<Rightarrow> if ok then m\<lparr>disk := AList.delete f (disk m)\<rparr> else m)"

definition persist :: "write_outcome \<Rightarrow> string \<Rightarrow> route \<Rightarrow> manager \<Rightarrow> manager" where
  "persist out w r m =
     (case routeFile w m of
        None \<Rightarrow> m
      | Some f \<Rightarrow>
          (case out of
             Written \<Rightarrow> m\<lparr>disk := AList.update f (Json r) (disk m)\<rparr>
           | NotWritten \<Rightarrow> m
           | Torn \<Rightarrow> m\<lparr>disk := AList.update f Garbage (disk m)\<rparr>))"

definition mapply :: "write_outcome \<Rightarrow> deploy_spec \<Rightarrow> manager \<Rightarrow> manager" where
  "mapply out sp m =
     (case dsIngress sp of
        None \<Rightarrow> mremove (out = Written) (dsName sp) m
      | Some i \<Rightarrow>
          if \<not> Enabled (Some i) then mremove (out = Written) (dsName sp) m
          else case Route i (dsPorts sp) (dsName sp) (defs m) of
            Inl e \<Rightarrow> mremove (out = Written) (dsName sp) m
          | Inr r \<Rightarrow> persist out (dsName sp) r (m\<lparr>tbl := Set (dsName sp) [r] (tbl m)\<rparr>))"

text \<open>One entry of the directory, with the live deployments when the backend could list them.\<close>

definition pruned :: "string list option \<Rightarrow> string \<Rightarrow> bool" where
  "pruned live w = (case live of None \<Rightarrow> False | Some l \<Rightarrow> w \<notin> set l)"

definition recover_entry :: "bool \<Rightarrow> string list option \<Rightarrow> string \<times> content \<Rightarrow> manager \<Rightarrow> manager" where
  "recover_entry ok live e m =
     (case e of (f, c) \<Rightarrow>
        if c = Directory \<or> \<not> has_suffix f ''.json'' then m
        else
          let w = take (length f - 5) f; drop_file = (if ok then m\<lparr>disk := AList.delete f (disk m)\<rparr> else m) in
          case c of
            Json r \<Rightarrow>
              if pruned live w \<and> \<not> Has w (tbl m) then drop_file
              else if Has w (tbl m) then m
              else m\<lparr>tbl := Set w [r\<lparr>rtWorkload := w\<rparr>] (tbl m)\<rparr>
          | Garbage \<Rightarrow> drop_file
          | _ \<Rightarrow> m)"

definition mrecover :: "bool \<Rightarrow> string list option \<Rightarrow> manager \<Rightarrow> manager" where
  "mrecover ok live m =
     (if recovered m \<or> \<not> persists m then m
      else fold (recover_entry ok live) (sort_key fst (disk m)) (m\<lparr>recovered := True\<rparr>))"

text \<open>A server restart keeps the directory only; the defaults are read again from the environment.\<close>

definition restart :: "defaults \<Rightarrow> manager \<Rightarrow> manager" where
  "restart d m = newIngressManager d (persists m) (disk m)"

definition alias_host :: "string \<Rightarrow> string \<Rightarrow> manager \<Rightarrow> manager" where
  "alias_host a g m = m\<lparr>tbl := HostAlias a g (tbl m)\<rparr>"

datatype front_op = Apply write_outcome deploy_spec | Withdraw bool string | Alias string string
  | Recover bool "string list option" | Restart defaults

fun front_step :: "front_op \<Rightarrow> manager \<Rightarrow> manager" where
  "front_step (Apply out sp) = mapply out sp"
| "front_step (Withdraw ok w) = mremove ok w"
| "front_step (Alias a g) = alias_host a g"
| "front_step (Recover ok live) = mrecover ok live"
| "front_step (Restart d) = restart d"

text \<open>The managers a server with defaults \<open>d\<close> reaches over a directory that starts empty, by operations that satisfy \<open>P\<close>.\<close>

inductive front_reach :: "(front_op \<Rightarrow> bool) \<Rightarrow> defaults \<Rightarrow> manager \<Rightarrow> bool" for P d where
  start: "front_reach P d (newIngressManager d True [])"
| step: "front_reach P d m \<Longrightarrow> P x \<Longrightarrow> front_reach P d (front_step x m)"

section \<open>The index\<close>

lemma rules_of_index: "rules_of (index_host r h m) k = (if k = h then rules_of m h @ [r] else rules_of m k)"
  by (simp add: rules_of_def index_host_def update_conv')

lemma set_index_route: "set (rules_of (index_route r m) k) = (if k \<in> set (rtHosts r) then insert r (set (rules_of m k)) else set (rules_of m k))"
proof -
  have "set (rules_of (fold (index_host r) hs m) k) = (if k \<in> set hs then insert r (set (rules_of m k)) else set (rules_of m k))" for hs
    by (induction hs arbitrary: m) (auto simp: rules_of_index)
  then show ?thesis by (simp add: index_route_def)
qed

lemma set_reindex:
  "set (rules_of (byHost (reindexLocked t)) h) = {r \<in> set (concat (map snd (byWorkload t))). h \<in> set (rtHosts r)}"
proof -
  have "set (rules_of (fold index_route rs m) h) = {r \<in> set rs. h \<in> set (rtHosts r)} \<union> set (rules_of m h)" for rs m
    by (induction rs arbitrary: m) (auto simp: set_index_route)
  then show ?thesis by (simp add: reindexLocked_def rules_of_def)
qed

lemma no_empty_rules:
  "[] \<notin> ran (map_of m) \<Longrightarrow> [] \<notin> ran (map_of (fold index_route rs m))"
proof (induction rs arbitrary: m)
  case (Cons r rs)
  have "[] \<notin> ran (map_of (fold (index_host r) hs m))" if "[] \<notin> ran (map_of m)" for hs m
    using that by (induction hs arbitrary: m) (auto simp: index_host_def update_conv' ran_def)
  then show ?case using Cons by (simp add: index_route_def)
qed simp

lemma rules_of_Set: "rules_of (byWorkload (Set w rs t)) v = (if v = w then normalized w rs else rules_of (byWorkload t) v)"
  by (simp add: Set_def reindexLocked_def rules_of_def update_conv' delete_conv')

lemma rules_of_Remove: "rules_of (byWorkload (Remove w t)) v = (if v = w then [] else rules_of (byWorkload t) v)"
  by (simp add: Remove_def reindexLocked_def rules_of_def delete_conv')

lemma rules_of_HostAlias: "byWorkload (HostAlias a g t) = byWorkload t"
  by (simp add: HostAlias_def Let_def)

lemmas rules_of_ops = rules_of_Set rules_of_Remove rules_of_HostAlias

text \<open>The rules that serve a host, read off the workloads.\<close>

definition serving :: "table \<Rightarrow> string \<Rightarrow> route set" where
  "serving t h = {r. \<exists>w. r \<in> set (rules_of (byWorkload t) w) \<and> h \<in> set (rtHosts r)}"

text \<open>The invariant: the host index holds the rules of the workloads, and no host is indexed without rules.\<close>

definition table_ok :: "table \<Rightarrow> bool" where
  "table_ok t \<longleftrightarrow> distinct (map fst (byWorkload t)) \<and> (\<forall>h. set (rules_of (byHost t) h) = serving t h)
     \<and> [] \<notin> ran (map_of (byHost t)) \<and> (\<forall>w. \<forall>r \<in> set (rules_of (byWorkload t) w). rtWorkload r = w)"

lemma rules_of_concat:
  "distinct (map fst m) \<Longrightarrow> r \<in> set (concat (map snd m)) \<longleftrightarrow> (\<exists>w. r \<in> set (rules_of m w))"
  by (force simp: rules_of_def split: option.splits)

lemma table_ok_reindex:
  assumes d: "distinct (map fst (byWorkload t))"
    and w: "\<forall>w. \<forall>r \<in> set (rules_of (byWorkload t) w). rtWorkload r = w"
  shows "table_ok (reindexLocked t)"
proof -
  have b: "byWorkload (reindexLocked t) = byWorkload t" by (simp add: reindexLocked_def)
  have "set (rules_of (byHost (reindexLocked t)) h) = serving (reindexLocked t) h" for h
    unfolding set_reindex serving_def b rules_of_concat [OF d] by blast
  moreover have "[] \<notin> ran (map_of (byHost (reindexLocked t)))" by (simp add: reindexLocked_def no_empty_rules)
  ultimately show ?thesis using d w by (simp add: table_ok_def b)
qed

lemma normalized_workload: "r \<in> set (normalized w rs) \<Longrightarrow> rtWorkload r = w"
  by (auto simp: normalized_def)

lemma table_ok_Set: assumes "table_ok t" shows "table_ok (Set w rs t)"
proof -
  have "\<forall>v. \<forall>r \<in> set (rules_of (byWorkload (Set w rs t)) v). rtWorkload r = v"
    using assms by (auto simp: rules_of_Set table_ok_def dest: normalized_workload)
  then show ?thesis unfolding Set_def
    by (intro table_ok_reindex) (use assms in \<open>simp_all add: table_ok_def reindexLocked_def distinct_update distinct_delete\<close>)
qed

lemma table_ok_Remove: assumes "table_ok t" shows "table_ok (Remove w t)"
proof -
  have "\<forall>v. \<forall>r \<in> set (rules_of (byWorkload (Remove w t)) v). rtWorkload r = v"
    using assms by (auto simp: rules_of_Remove table_ok_def)
  then show ?thesis unfolding Remove_def
    by (intro table_ok_reindex) (use assms in \<open>simp_all add: table_ok_def reindexLocked_def distinct_delete\<close>)
qed

lemma table_ok_HostAlias: "table_ok t \<Longrightarrow> table_ok (HostAlias a g t)"
  by (simp add: table_ok_def HostAlias_def serving_def Let_def)

lemma table_ok_NewTable: "table_ok NewTable"
  by (simp add: table_ok_def NewTable_def serving_def rules_of_def)

lemmas table_ok_intros = table_ok_Set table_ok_Remove table_ok_HostAlias table_ok_NewTable

lemma served_rules:
  assumes "table_ok t" "map_of (byHost t) h = Some rs"
  shows "set rs = serving t h" "rs \<noteq> []"
proof -
  have "set (rules_of (byHost t) h) = serving t h" "[] \<notin> ran (map_of (byHost t))" using assms(1) by (simp_all add: table_ok_def)
  then show "set rs = serving t h" "rs \<noteq> []" using assms(2) by (auto simp: rules_of_def ran_def)
qed

lemma served_host:
  assumes "table_ok t"
  shows "map_of (byHost t) h = None \<longleftrightarrow> serving t h = {}"
proof (cases "map_of (byHost t) h")
  case None
  have "set (rules_of (byHost t) h) = serving t h" using assms by (simp add: table_ok_def)
  then show ?thesis using None by (simp add: rules_of_def)
next
  case (Some rs)
  then show ?thesis using served_rules [OF assms Some] by (metis option.distinct(1) set_empty)
qed

section \<open>The rule chosen\<close>

text \<open>The preference between two matching rules.\<close>

definition outranks :: "route \<Rightarrow> route \<Rightarrow> bool" where
  "outranks b r \<longleftrightarrow> MatchLen (rtPath r) < MatchLen (rtPath b)
     \<or> MatchLen (rtPath r) = MatchLen (rtPath b) \<and> (rtPathType r = ''Exact'' \<longrightarrow> rtPathType b = ''Exact'')"

lemma outranks_refl: "outranks r r"
  by (simp add: outranks_def)

lemma outranks_trans: "outranks a b \<Longrightarrow> outranks b c \<Longrightarrow> outranks a c"
  by (auto simp: outranks_def)

lemma better_outranks:
  "better best r = Some b \<Longrightarrow> outranks b r \<and> (\<forall>a. best = Some a \<longrightarrow> outranks b a) \<and> (b = r \<or> best = Some b)"
  by (auto simp: better_def outranks_def split: option.splits if_splits)

lemma better_total: "better best r \<noteq> None"
  by (simp add: better_def split: option.splits)

lemma best_of_all:
  "foldl better best rs = Some b \<Longrightarrow>
     (\<forall>r \<in> set rs. outranks b r) \<and> (\<forall>a. best = Some a \<longrightarrow> outranks b a) \<and> (b \<in> set rs \<or> best = Some b)"
proof (induction rs arbitrary: best)
  case (Cons r rs)
  obtain c where c: "better best r = Some c" using better_total by blast
  have "foldl better (Some c) rs = Some b" using Cons.prems c by simp
  note ih = Cons.IH [OF this]
  have bc: "outranks b c" using ih by simp
  note bo = better_outranks [OF c]
  have 1: "outranks b r" using bo bc outranks_trans by blast
  have 2: "outranks b a" if "best = Some a" for a using bo bc that outranks_trans by blast
  have 3: "b \<in> set (r # rs) \<or> best = Some b" using ih bo by auto
  show ?case using ih 1 2 3 by simp
qed (simp add: outranks_refl)

lemma best_none: "foldl better best rs = None \<longleftrightarrow> best = None \<and> rs = []"
proof (induction rs arbitrary: best)
  case (Cons r rs)
  then show ?case using better_total [of best r] by simp
qed simp

definition rule_fits :: "string \<Rightarrow> route \<Rightarrow> bool" where
  "rule_fits path r = PathMatches (rtPath r) (rtPathType r) path"

lemma best_rule_some:
  assumes "best_rule path rs = Some b"
  shows "b \<in> set rs" "rule_fits path b" "\<And>r. r \<in> set rs \<Longrightarrow> rule_fits path r \<Longrightarrow> outranks b r"
  using best_of_all [OF assms [unfolded best_rule_def]] by (auto simp: rule_fits_def)

lemma best_rule_none: "best_rule path rs = None \<longleftrightarrow> (\<forall>r \<in> set rs. \<not> rule_fits path r)"
  by (simp add: best_rule_def best_none filter_empty_conv rule_fits_def)

text \<open>The host whose rules answer a request: the canonical host, or else the target of its alias.\<close>

definition answering_host :: "table \<Rightarrow> string \<Rightarrow> string" where
  "answering_host t host =
     (let h = CanonicalHost (stripPort host) in
      if serving t h \<noteq> {} then h else case map_of (hostAliases t) h of Some g \<Rightarrow> g | None \<Rightarrow> h)"

lemma host_rules_answering:
  assumes ok: "table_ok t"
  shows "host_rules (CanonicalHost (stripPort host)) t = map_of (byHost t) (answering_host t host)"
  using served_host [OF ok, of "CanonicalHost (stripPort host)"]
  by (auto simp: host_rules_def answering_host_def Let_def split: option.splits)

lemma Lookup_cases:
  assumes ok: "table_ok t"
  shows "case Lookup host path t of
      None \<Rightarrow> serving t (answering_host t host) = {}
    | Some None \<Rightarrow> serving t (answering_host t host) \<noteq> {} \<and> (\<forall>r \<in> serving t (answering_host t host). \<not> rule_fits path r)
    | Some (Some b) \<Rightarrow> b \<in> serving t (answering_host t host) \<and> rule_fits path b
        \<and> (\<forall>r \<in> serving t (answering_host t host). rule_fits path r \<longrightarrow> outranks b r)"
proof (cases "map_of (byHost t) (answering_host t host)")
  case None
  have "Lookup host path t = None" using None by (simp add: Lookup_def host_rules_answering [OF ok])
  moreover have "serving t (answering_host t host) = {}" using None served_host [OF ok] by blast
  ultimately show ?thesis by simp
next
  case (Some rs)
  have l: "Lookup host path t = Some (best_rule path rs)" using Some by (simp add: Lookup_def host_rules_answering [OF ok])
  have s: "serving t (answering_host t host) = set rs" using served_rules(1) [OF ok Some] by simp
  have ne: "set rs \<noteq> {}" using served_rules(2) [OF ok Some] by simp
  show ?thesis
  proof (cases "best_rule path rs")
    case None
    moreover have "\<forall>r \<in> set rs. \<not> rule_fits path r" using None best_rule_none by blast
    ultimately show ?thesis using ne by (simp add: l s)
  next
    case (Some b)
    then show ?thesis using s best_rule_some [OF Some] by (simp add: l)
  qed
qed

section \<open>Invariants of the front door\<close>

lemma tbl_persist: "tbl (persist out w r m) = tbl m" "defs (persist out w r m) = defs m"
  "persists (persist out w r m) = persists m" "recovered (persist out w r m) = recovered m"
  by (simp_all add: persist_def split: option.splits write_outcome.splits)

lemma tbl_mremove: "tbl (mremove ok w m) = Remove w (tbl m)" "defs (mremove ok w m) = defs m"
  "persists (mremove ok w m) = persists m" "recovered (mremove ok w m) = recovered m"
  by (simp_all add: mremove_def Let_def split: option.splits)

lemma tbl_entry: "tbl (recover_entry ok live e m) \<in> {tbl m} \<union> {Set w [r] (tbl m) | w r. True}"
  "defs (recover_entry ok live e m) = defs m" "persists (recover_entry ok live e m) = persists m"
  "recovered (recover_entry ok live e m) = recovered m"
  by (auto simp: recover_entry_def Let_def split: prod.splits content.splits)

lemma fold_entry_inv:
  assumes "\<And>m e. Q m \<Longrightarrow> e \<in> set es \<Longrightarrow> Q (recover_entry ok live e m)" "Q m"
  shows "Q (fold (recover_entry ok live) es m)"
  using assms by (induction es arbitrary: m) auto

lemma table_ok_step:
  assumes "table_ok (tbl m)"
  shows "table_ok (tbl (front_step x m))"
proof (cases x)
  case (Apply out sp)
  then show ?thesis using assms
    by (auto simp: mapply_def tbl_persist tbl_mremove table_ok_intros split: option.splits sum.splits)
next
  case (Recover ok live)
  have "table_ok (tbl (fold (recover_entry ok live) es m'))" if "table_ok (tbl m')" for es m'
  proof (rule fold_entry_inv [where Q = "\<lambda>m. table_ok (tbl m)"])
    show "table_ok (tbl (recover_entry ok live e m))" if "table_ok (tbl m)" for m e
      using tbl_entry(1) [of ok live e m] that by (auto simp: table_ok_intros)
  qed (rule that)
  then show ?thesis using assms Recover by (simp add: mrecover_def)
qed (use assms in \<open>simp_all add: tbl_mremove alias_host_def restart_def newIngressManager_def table_ok_intros\<close>)

lemma front_table_ok: "front_reach P d m \<Longrightarrow> table_ok (tbl m)"
  by (induction rule: front_reach.induct) (simp_all add: table_ok_step newIngressManager_def table_ok_intros)

lemma disk_distinct_entry: "distinct (map fst (disk m)) \<Longrightarrow> distinct (map fst (disk (recover_entry ok live e m)))"
  by (auto simp: recover_entry_def Let_def distinct_delete split: prod.splits content.splits)

lemma disk_distinct_persist: "distinct (map fst (disk m)) \<Longrightarrow> distinct (map fst (disk (persist out w r m)))"
  by (simp add: persist_def distinct_update split: option.splits write_outcome.splits)

lemma disk_distinct_mremove: "distinct (map fst (disk m)) \<Longrightarrow> distinct (map fst (disk (mremove ok w m)))"
  by (simp add: mremove_def Let_def distinct_delete split: option.splits)

lemma disk_distinct_step:
  assumes "distinct (map fst (disk m))"
  shows "distinct (map fst (disk (front_step x m)))"
proof (cases x)
  case (Apply out sp)
  then show ?thesis using assms
    by (auto simp: mapply_def disk_distinct_persist disk_distinct_mremove split: option.splits sum.splits)
next
  case (Recover ok live)
  have "distinct (map fst (disk (fold (recover_entry ok live) es m')))" if "distinct (map fst (disk m'))" for es m'
    by (rule fold_entry_inv [where Q = "\<lambda>m. distinct (map fst (disk m))"]) (rule disk_distinct_entry, assumption, rule that)
  then show ?thesis using assms Recover by (simp add: mrecover_def)
qed (use assms in \<open>simp_all add: disk_distinct_mremove alias_host_def restart_def newIngressManager_def\<close>)

lemma front_disk_distinct: "front_reach P d m \<Longrightarrow> distinct (map fst (disk m))"
  by (induction rule: front_reach.induct) (simp_all add: disk_distinct_step newIngressManager_def)

section \<open>The pinned domain\<close>

definition within_key :: "defaults \<Rightarrow> string \<Rightarrow> bool" where
  "within_key d h \<longleftrightarrow> h = CanonicalHost (dfDomain d) \<or> has_suffix h (''.'' @ CanonicalHost (dfDomain d))"

definition route_within :: "defaults \<Rightarrow> route \<Rightarrow> bool" where
  "route_within d r \<longleftrightarrow> (\<forall>h \<in> set (rtHosts r). within_key d (CanonicalHost h))"

definition enforced :: "defaults \<Rightarrow> bool" where
  "enforced d \<longleftrightarrow> dfEnforceDomain d \<and> CanonicalHost (dfDomain d) \<noteq> []"

lemma enforced_domain: "enforced d \<Longrightarrow> dfDomain d \<noteq> []"
proof -
  have "CanonicalHost [] = []" by code_simp
  then show "enforced d \<Longrightarrow> dfDomain d \<noteq> []" by (auto simp: enforced_def)
qed

lemma Resolve_within:
  assumes e: "enforced d" and r: "Resolve i ports name d = Inr (hosts, p)" and h: "h \<in> set hosts"
  shows "within_key d (CanonicalHost h)"
proof -
  have "find (\<lambda>h. \<not> WithinDomain h (dfDomain d)) hosts = None"
    using r e enforced_domain [OF e]
    by (auto simp: Resolve_def enforced_def Let_def split: option.splits if_splits sum.splits)
  then have "WithinDomain h (dfDomain d)" using h by (auto simp: find_None_iff)
  then show ?thesis using e by (auto simp: WithinDomain_def within_key_def enforced_def Let_def)
qed

lemma Route_within: "enforced d \<Longrightarrow> Route i ports name d = Inr r \<Longrightarrow> route_within d r"
  by (auto simp: Route_def route_within_def intro: Resolve_within split: sum.splits)

lemma normalized_within:
  "route_within d r \<Longrightarrow> r' \<in> set (normalized w [r]) \<Longrightarrow> h \<in> set (rtHosts r') \<Longrightarrow> within_key d h"
  by (auto simp: normalized_def route_within_def split: if_splits)

definition all_within :: "defaults \<Rightarrow> manager \<Rightarrow> bool" where
  "all_within d m \<longleftrightarrow> defs m = d
     \<and> (\<forall>w. \<forall>r \<in> set (rules_of (byWorkload (tbl m)) w). \<forall>h \<in> set (rtHosts r). within_key d h)
     \<and> (\<forall>f r. map_of (disk m) f = Some (Json r) \<longrightarrow> route_within d r)"

lemma pinned_mremove: "all_within d m \<Longrightarrow> all_within d (mremove ok w m)"
  by (auto simp: all_within_def mremove_def Let_def rules_of_Remove delete_conv' split: option.splits if_splits)

lemma pinned_Set:
  assumes "all_within d m" "route_within d r"
  shows "all_within d (m\<lparr>tbl := Set w [r] (tbl m)\<rparr>)"
  using assms normalized_within [OF assms(2)] by (auto simp: all_within_def rules_of_Set)

lemma pinned_persist: "all_within d m \<Longrightarrow> route_within d r \<Longrightarrow> all_within d (persist out w r m)"
  by (auto simp: all_within_def persist_def update_conv' split: option.splits write_outcome.splits if_splits)

lemma pinned_entry:
  assumes p: "all_within d m" and c: "\<And>r. snd e = Json r \<Longrightarrow> route_within d r"
  shows "all_within d (recover_entry ok live e m)"
proof -
  have del: "all_within d (m\<lparr>disk := AList.delete f (disk m)\<rparr>)" for f using p by (auto simp: all_within_def delete_conv' split: if_splits)
  have set: "all_within d (m\<lparr>tbl := Set w [r\<lparr>rtWorkload := w\<rparr>] (tbl m)\<rparr>)" if "snd e = Json r" for w r
    using c [OF that] by (intro pinned_Set [OF p]) (simp add: route_within_def)
  show ?thesis using p del set by (auto simp: recover_entry_def Let_def split: prod.splits content.splits)
qed

lemma pinned_step:
  assumes e: "enforced d" and p: "all_within d m" and di: "distinct (map fst (disk m))" and x: "\<And>d'. x = Restart d' \<Longrightarrow> d' = d"
  shows "all_within d (front_step x m)"
proof (cases x)
  case (Apply out sp)
  have "all_within d (persist out w r (m\<lparr>tbl := Set w [r] (tbl m)\<rparr>))" if "Route i ports name (defs m) = Inr r" for i ports name w r
  proof -
    have "defs m = d" using p by (simp add: all_within_def)
    then have "route_within d r" using Route_within [OF e] that by simp
    then show ?thesis using pinned_persist pinned_Set [OF p] by blast
  qed
  then show ?thesis using p Apply by (auto simp: mapply_def pinned_mremove split: option.splits sum.splits)
next
  case (Recover ok live)
  have es: "route_within d r" if "en \<in> set (sort_key fst (disk m))" "snd en = Json r" for en r
  proof -
    have "(fst en, Json r) \<in> set (disk m)" using that by (metis prod.collapse set_sort)
    then have "map_of (disk m) (fst en) = Some (Json r)" using di by simp
    then show ?thesis using p by (simp add: all_within_def)
  qed
  have "all_within d (m\<lparr>recovered := True\<rparr>)" using p by (simp add: all_within_def)
  then have "all_within d (fold (recover_entry ok live) (sort_key fst (disk m)) (m\<lparr>recovered := True\<rparr>))"
    by (rule fold_entry_inv [where Q = "all_within d", rotated]) (rule pinned_entry, assumption, erule (1) es)
  then show ?thesis using p Recover by (simp add: mrecover_def)
next
  case (Restart d')
  then show ?thesis using x p by (simp add: all_within_def restart_def newIngressManager_def NewTable_def rules_of_def)
next
  case (Withdraw ok w)
  then show ?thesis using pinned_mremove [OF p] by simp
next
  case (Alias a g)
  then show ?thesis using p by (simp add: all_within_def alias_host_def rules_of_HostAlias)
qed

definition same_defaults :: "defaults \<Rightarrow> front_op \<Rightarrow> bool" where
  "same_defaults d x = (case x of Restart d' \<Rightarrow> d' = d | _ \<Rightarrow> True)"

lemma front_pinned:
  assumes e: "enforced d" and r: "front_reach (same_defaults d) d m"
  shows "all_within d m"
  using r
proof (induction rule: front_reach.induct)
  case start
  show ?case by (simp add: all_within_def newIngressManager_def NewTable_def rules_of_def)
next
  case (step m x)
  show ?case
    by (rule pinned_step [OF e step.IH front_disk_distinct [OF step.hyps(1)]]) (use step.hyps(2) in \<open>simp add: same_defaults_def\<close>)
qed

section \<open>Recovery\<close>

text \<open>What the manager holds of one workload: its rules and its file.\<close>

definition rules :: "manager \<Rightarrow> string \<Rightarrow> route list" where
  "rules m w = rules_of (byWorkload (tbl m)) w"

definition file_of :: "manager \<Rightarrow> string \<Rightarrow> content option" where
  "file_of m w = map_of (disk m) (w @ ''.json'')"

definition plain_name :: "string \<Rightarrow> bool" where
  "plain_name w \<longleftrightarrow> w \<noteq> [] \<and> CHR ''/'' \<notin> set w"

definition file_rules :: "content option \<Rightarrow> string \<Rightarrow> route list" where
  "file_rules c w = (case c of Some (Json r) \<Rightarrow> normalized w [r] | _ \<Rightarrow> [])"

lemma path_base_plain:
  assumes "plain_name w"
  shows "path_base w = w"
proof -
  have "rev (dropWhile (\<lambda>c. c = CHR ''/'') (rev w)) = w" using assms by (cases w rule: rev_cases) (auto simp: plain_name_def)
  then show ?thesis using assms by (simp add: path_base_def plain_name_def split_byte_single)
qed

lemma routeFile_plain: "plain_name w \<Longrightarrow> persists m \<Longrightarrow> routeFile w m = Some (w @ ''.json'')"
  by (auto simp: routeFile_def path_base_plain) (simp add: plain_name_def)

lemma routeFile_other:
  assumes "routeFile v m = Some f" "plain_name w" "v \<noteq> w"
  shows "f \<noteq> w @ ''.json''"
  using assms by (auto simp: routeFile_def plain_name_def split: if_splits)

lemma routeFile_upd: "routeFile w (m\<lparr>tbl := t\<rparr>) = routeFile w m"
  by (simp add: routeFile_def)

text \<open>Every operation on another workload leaves the view of a workload alone.\<close>

lemma mremove_view:
  assumes "plain_name w" "persists m"
  shows "rules (mremove True v m) w = (if v = w then [] else rules m w)"
    and "file_of (mremove True v m) w = (if v = w then None else file_of m w)"
proof -
  show "rules (mremove True v m) w = (if v = w then [] else rules m w)" by (simp add: rules_def tbl_mremove rules_of_Remove)
  show "file_of (mremove True v m) w = (if v = w then None else file_of m w)"
  proof (cases "v = w")
    case True
    then show ?thesis by (simp add: file_of_def mremove_def routeFile_upd routeFile_plain [OF assms] delete_conv')
  next
    case False
    then show ?thesis using routeFile_other [OF _ assms(1) False, of m]
      by (cases "routeFile v m") (auto simp: file_of_def mremove_def routeFile_upd delete_conv')
  qed
qed

lemma publish_view:
  assumes "plain_name w" "persists m"
  shows "rules (persist Written v r (m\<lparr>tbl := Set v [r] (tbl m)\<rparr>)) w = (if v = w then normalized w [r] else rules m w)"
    and "file_of (persist Written v r (m\<lparr>tbl := Set v [r] (tbl m)\<rparr>)) w = (if v = w then Some (Json r) else file_of m w)"
proof -
  show "rules (persist Written v r (m\<lparr>tbl := Set v [r] (tbl m)\<rparr>)) w = (if v = w then normalized w [r] else rules m w)"
    by (simp add: rules_def tbl_persist rules_of_Set)
  show "file_of (persist Written v r (m\<lparr>tbl := Set v [r] (tbl m)\<rparr>)) w = (if v = w then Some (Json r) else file_of m w)"
  proof (cases "v = w")
    case True
    then show ?thesis by (simp add: file_of_def persist_def routeFile_upd routeFile_plain [OF assms] update_conv')
  next
    case False
    then show ?thesis using routeFile_other [OF _ assms(1) False, of m]
      by (cases "routeFile v m") (auto simp: file_of_def persist_def routeFile_upd update_conv')
  qed
qed

text \<open>What recovery does to the view of the workload whose file it reads.\<close>

definition entry_rules :: "string list option \<Rightarrow> string \<Rightarrow> content \<Rightarrow> route list \<Rightarrow> route list" where
  "entry_rules live w c rs = (if rs \<noteq> [] \<or> pruned live w then rs else file_rules (Some c) w)"

definition entry_file :: "string list option \<Rightarrow> string \<Rightarrow> content \<Rightarrow> route list \<Rightarrow> content option \<Rightarrow> content option" where
  "entry_file live w c rs f = (case c of Json r \<Rightarrow> if pruned live w \<and> rs = [] then None else f | Garbage \<Rightarrow> None | _ \<Rightarrow> f)"

lemma normalized_upd: "normalized w [r\<lparr>rtWorkload := v\<rparr>] = normalized w [r]"
  by (simp add: normalized_def)

lemma own_suffix: "has_suffix (w @ ''.json'') ''.json''" "take (length (w @ ''.json'') - 5) (w @ ''.json'') = w"
  by (simp_all add: has_suffix_def)

lemma other_suffix: "has_suffix f ''.json'' \<Longrightarrow> f \<noteq> w @ ''.json'' \<Longrightarrow> take (length f - 5) f \<noteq> w"
proof
  assume s: "has_suffix f ''.json''" and n: "f \<noteq> w @ ''.json''" and w: "take (length f - 5) f = w"
  have "length ''.json'' = 5" by simp
  then have "drop (length f - 5) f = ''.json''" using s unfolding has_suffix_def by metis
  then have "f = w @ ''.json''" using append_take_drop_id [of "length f - 5" f] w by simp
  then show False using n by contradiction
qed

lemma entry_own_eq:
  "recover_entry True live (w @ ''.json'', c) m =
     (case c of
        Json r \<Rightarrow>
          if rules m w \<noteq> [] then m
          else if pruned live w then m\<lparr>disk := AList.delete (w @ ''.json'') (disk m)\<rparr>
          else m\<lparr>tbl := Set w [r\<lparr>rtWorkload := w\<rparr>] (tbl m)\<rparr>
      | Garbage \<Rightarrow> m\<lparr>disk := AList.delete (w @ ''.json'') (disk m)\<rparr>
      | _ \<Rightarrow> m)"
  unfolding recover_entry_def prod.case own_suffix(2) Let_def Has_def rules_def using own_suffix(1) [of w] by (cases c) simp_all

lemma entry_own:
  "rules (recover_entry True live (w @ ''.json'', c) m) w = entry_rules live w c (rules m w)"
  "file_of (recover_entry True live (w @ ''.json'', c) m) w = entry_file live w c (rules m w) (file_of m w)"
proof -
  have del: "rules (m\<lparr>disk := x\<rparr>) w = rules m w" "file_of (m\<lparr>disk := AList.delete (w @ ''.json'') (disk m)\<rparr>) w = None" for x
    by (simp_all add: rules_def file_of_def delete_conv')
  have set: "rules (m\<lparr>tbl := Set w [r\<lparr>rtWorkload := w\<rparr>] (tbl m)\<rparr>) w = normalized w [r]" "file_of (m\<lparr>tbl := x\<rparr>) w = file_of m w" for r x
    by (simp_all add: rules_def file_of_def rules_of_Set normalized_upd)
  show "rules (recover_entry True live (w @ ''.json'', c) m) w = entry_rules live w c (rules m w)"
    unfolding entry_own_eq entry_rules_def file_rules_def by (cases c) (simp_all add: del set)
  show "file_of (recover_entry True live (w @ ''.json'', c) m) w = entry_file live w c (rules m w) (file_of m w)"
    unfolding entry_own_eq entry_file_def by (cases c) (simp_all add: del set)
qed

lemma entry_other:
  assumes "fst e \<noteq> w @ ''.json''"
  shows "rules (recover_entry True live e m) w = rules m w" "file_of (recover_entry True live e m) w = file_of m w"
proof -
  obtain f c where e: "e = (f, c)" by force
  have f: "f \<noteq> w @ ''.json''" using assms e by simp
  have t: "rules (m\<lparr>tbl := Set v rs (tbl m)\<rparr>) w = rules m w" if "v \<noteq> w" for v rs using that by (simp add: rules_def rules_of_Set)
  have d: "rules (m\<lparr>disk := x\<rparr>) w = rules m w" "file_of (m\<lparr>disk := AList.delete f (disk m)\<rparr>) w = file_of m w"
    "file_of (m\<lparr>tbl := y\<rparr>) w = file_of m w" for x y using f by (simp_all add: rules_def file_of_def delete_conv')
  show "rules (recover_entry True live e m) w = rules m w"
    unfolding recover_entry_def e prod.case Let_def using other_suffix [OF _ f] by (cases c) (simp_all add: d t)
  show "file_of (recover_entry True live e m) w = file_of m w"
    unfolding recover_entry_def e prod.case Let_def by (cases c) (simp_all add: d)
qed

lemma fold_other:
  assumes "w @ ''.json'' \<notin> fst ` set es"
  shows "rules (fold (recover_entry True live) es m) w = rules m w \<and> file_of (fold (recover_entry True live) es m) w = file_of m w"
  using assms by (induction es arbitrary: m) (auto simp: entry_other)

lemma fold_own:
  assumes "distinct (map fst es)" "(w @ ''.json'', c) \<in> set es"
  shows "rules (fold (recover_entry True live) es m) w = entry_rules live w c (rules m w)
    \<and> file_of (fold (recover_entry True live) es m) w = entry_file live w c (rules m w) (file_of m w)"
  using assms
proof (induction es arbitrary: m)
  case (Cons e es)
  show ?case
  proof (cases "fst e = w @ ''.json''")
    case True
    have n: "w @ ''.json'' \<notin> fst ` set es" using Cons.prems(1) True by simp
    have "(w @ ''.json'', c) \<notin> set es" using n by (metis fst_conv imageI)
    then have e: "e = (w @ ''.json'', c)" using Cons.prems(2) by simp
    show ?thesis unfolding e fold.simps comp_apply using fold_other [OF n] entry_own by metis
  next
    case False
    have "distinct (map fst es)" using Cons.prems(1) by simp
    moreover have "(w @ ''.json'', c) \<in> set es" using Cons.prems(2) False by (metis fst_conv set_ConsD)
    ultimately show ?thesis unfolding fold.simps comp_apply using Cons.IH entry_other [OF False] by metis
  qed
qed simp

text \<open>Histories in which the disk does what it is asked to.\<close>

definition disk_works :: "front_op \<Rightarrow> bool" where
  "disk_works x = (case x of Apply out sp \<Rightarrow> out = Written | Withdraw ok w \<Rightarrow> ok | Recover ok live \<Rightarrow> ok | _ \<Rightarrow> True)"

text \<open>The view of a workload is in step with its file.\<close>

definition in_step :: "manager \<Rightarrow> string \<Rightarrow> bool" where
  "in_step m w \<longleftrightarrow> file_of m w \<in> {None} \<union> range (\<lambda>r. Some (Json r))
     \<and> (rules m w = file_rules (file_of m w) w \<or> rules m w = [] \<and> \<not> recovered m)"

lemma recover_view:
  assumes d: "distinct (map fst (disk m))" and p: "persists m" and nr: "\<not> recovered m" and s: "in_step m w"
  shows "rules (mrecover True live m) w = (if rules m w = [] \<and> pruned live w then [] else file_rules (file_of m w) w)"
    and "in_step (mrecover True live m) w"
proof -
  let ?m = "m\<lparr>recovered := True\<rparr>" and ?es = "sort_key fst (disk m)"
  have f: "mrecover True live m = fold (recover_entry True live) ?es ?m" using p nr by (simp add: mrecover_def)
  have v: "rules ?m w = rules m w" "file_of ?m w = file_of m w" by (simp_all add: rules_def file_of_def)
  have rec: "recovered (mrecover True live m)" unfolding f
    by (rule fold_entry_inv [where Q = recovered]) (simp_all add: tbl_entry)
  have "rules (mrecover True live m) w = (if rules m w = [] \<and> pruned live w then [] else file_rules (file_of m w) w)
      \<and> file_of (mrecover True live m) w = (if rules m w = [] \<and> pruned live w then None else file_of m w)"
  proof (cases "file_of m w")
    case None
    then have "w @ ''.json'' \<notin> fst ` set ?es" by (simp add: file_of_def map_of_eq_None_iff)
    then show ?thesis using fold_other [of w ?es live ?m] s None by (auto simp: f v in_step_def file_rules_def)
  next
    case (Some c)
    then obtain r where r: "file_of m w = Some (Json r)" using s by (auto simp: in_step_def)
    then have i: "(w @ ''.json'', Json r) \<in> set ?es" by (simp add: file_of_def map_of_SomeD)
    have di: "distinct (map fst ?es)" using d by (simp add: distinct_map inj_on_def)
    have "rules m w = [] \<or> rules m w = normalized w [r]" using s r by (auto simp: in_step_def file_rules_def)
    then show ?thesis using fold_own [OF di i, of live ?m]
      by (auto simp: f v r entry_rules_def entry_file_def file_rules_def)
  qed
  then show "rules (mrecover True live m) w = (if rules m w = [] \<and> pruned live w then [] else file_rules (file_of m w) w)"
    and "in_step (mrecover True live m) w"
    using s rec by (auto simp: in_step_def file_rules_def)
qed

lemma in_step_step:
  assumes d: "distinct (map fst (disk m))" and p: "persists m" and w: "plain_name w" and s: "in_step m w" and x: "disk_works x"
  shows "in_step (front_step x m) w"
proof (cases x)
  case (Apply out sp)
  have rm: "in_step (mremove True v m) w" for v
    using s by (simp add: in_step_def mremove_view [OF w p] tbl_mremove file_rules_def)
  have pub: "in_step (persist Written v r (m\<lparr>tbl := Set v [r] (tbl m)\<rparr>)) w" for v r
    using s by (simp add: in_step_def publish_view [OF w p] tbl_persist file_rules_def)
  have "out = Written" using x Apply by (simp add: disk_works_def)
  then show ?thesis using Apply rm pub by (simp add: mapply_def split: option.splits sum.splits)
next
  case (Withdraw ok v)
  then show ?thesis using s x by (simp add: disk_works_def in_step_def mremove_view [OF w p] tbl_mremove file_rules_def)
next
  case (Recover ok live)
  have ok using x unfolding Recover disk_works_def by simp
  show ?thesis
  proof (cases "recovered m")
    case True
    then show ?thesis using s Recover by (simp add: mrecover_def)
  next
    case False
    then show ?thesis using recover_view(2) [OF d p False s] Recover \<open>ok\<close> by simp
  qed
qed (use s in \<open>simp_all add: in_step_def alias_host_def restart_def newIngressManager_def rules_def file_of_def rules_of_HostAlias
      NewTable_def rules_of_def\<close>)

lemma persists_step: "persists (front_step x m) = persists m"
proof (cases x)
  case (Apply out sp)
  then show ?thesis by (simp add: mapply_def tbl_persist tbl_mremove split: option.splits sum.splits)
next
  case (Recover ok live)
  have "persists (fold (recover_entry ok live) es m') = persists m'" for es m'
    by (induction es arbitrary: m') (simp_all add: tbl_entry)
  then show ?thesis using Recover by (simp add: mrecover_def)
qed (simp_all add: tbl_mremove alias_host_def restart_def newIngressManager_def)

lemma front_in_step:
  assumes "front_reach disk_works d m"
  shows "persists m \<and> (plain_name w \<longrightarrow> in_step m w)"
  using assms
proof (induction rule: front_reach.induct)
  case start
  show ?case by (simp add: in_step_def newIngressManager_def NewTable_def rules_def file_of_def rules_of_def file_rules_def)
next
  case (step m x)
  then show ?case using in_step_step front_disk_distinct persists_step by blast
qed

section \<open>Paths\<close>

text \<open>A prefix rule matches on path-element boundaries.\<close>

lemma prefix_boundary:
  assumes "p \<noteq> []" "last p \<noteq> CHR ''/''" "ty \<noteq> ''Exact''"
  shows "PathMatches p ty (p @ s) \<longleftrightarrow> s = [] \<or> hd s = CHR ''/''"
proof -
  have "trim_right_set {CHR ''/''} p = p" using assms(1,2) by (cases p rule: rev_cases) (simp_all add: trim_right_set_def)
  then show ?thesis using assms by (cases s) (auto simp: PathMatches_def has_prefix_def)
qed

text \<open>An exact rule for the root matches every path, and one with a trailing slash does not match its own path.\<close>

lemma exact_root_matches_all: "PathMatches ''/'' ''Exact'' req"
  by (simp add: PathMatches_def)

lemma exact_trailing_slash: "\<not> PathMatches ''/api/'' ''Exact'' ''/api/'' \<and> PathMatches ''/api/'' ''Exact'' ''/api''"
  by code_simp

section \<open>Properties\<close>

text \<open>A concrete server: the domain pinned to \<open>ex.com\<close>, and one deployment with a derived host.\<close>

definition ex_defaults :: defaults where
  "ex_defaults = \<lparr>dfDomain = ''ex.com'', dfEnforceDomain = True\<rparr>"

definition ex_ingress :: "string list \<Rightarrow> ingress_spec" where
  "ex_ingress hs = \<lparr>inEnabled = True, inHosts = hs, inDomain = [], inSubdomain = [], inPath = ''/api'', inPathType = [], inPort = 0, inTLS = False,
     inClientEmulated = False, inHostMode = None\<rparr>"

definition ex_spec :: "string list \<Rightarrow> deploy_spec" where
  "ex_spec hs = \<lparr>dsName = ''web'', dsPorts = [80], dsIngress = Some (ex_ingress hs)\<rparr>"

definition ex_manager :: manager where
  "ex_manager = mrecover True None (mapply Written (ex_spec []) (newIngressManager ex_defaults True []))"

lemma ex_manager_reached:
  assumes "\<And>sp. P (Apply Written sp)" "P (Recover True None)"
  shows "front_reach P ex_defaults ex_manager"
  using front_reach.step [OF front_reach.step [OF front_reach.start [of P ex_defaults], of "Apply Written (ex_spec [])"], of "Recover True None"]
  by (simp add: ex_manager_def assms)

lemma ex_manager_serves: "ServeHTTP ''Web.ex.com:8080'' ''/api/v1'' (tbl ex_manager) = Proxied ''web'' 80"
  by code_simp

text \<open>C37. After any history of deployments, withdrawals, aliases, recoveries and restarts, whatever the disk did, a lookup answers from the rules that
  the workloads hold at that moment: the host is unknown exactly when no rule serves it or the target of its alias, no route means that no
  rule of the host matches the path, and the route returned serves the host, matches the path, belongs to the workload it is proxied to, and
  no matching rule is longer, or as long and exact where it is not.
\<close>

theorem front_door_routes:
  assumes "front_reach P d m"
  shows "case Lookup host path (tbl m) of
      None \<Rightarrow> serving (tbl m) (answering_host (tbl m) host) = {}
    | Some None \<Rightarrow> serving (tbl m) (answering_host (tbl m) host) \<noteq> {}
        \<and> (\<forall>r \<in> serving (tbl m) (answering_host (tbl m) host). \<not> rule_fits path r)
    | Some (Some b) \<Rightarrow> b \<in> serving (tbl m) (answering_host (tbl m) host) \<and> rule_fits path b
        \<and> b \<in> set (rules_of (byWorkload (tbl m)) (rtWorkload b))
        \<and> (\<forall>r \<in> serving (tbl m) (answering_host (tbl m) host). rule_fits path r \<longrightarrow> outranks b r)"
proof -
  have ok: "table_ok (tbl m)" by (rule front_table_ok [OF assms])
  have "b \<in> set (rules_of (byWorkload (tbl m)) (rtWorkload b))" if "b \<in> serving (tbl m) h" for b h
    using that ok by (auto simp: serving_def table_ok_def)
  then show ?thesis using Lookup_cases [OF ok, of host path] by (auto split: option.splits)
qed

theorem front_door_routes_witness:
  "(\<exists>b. Lookup ''Web.ex.com:8080'' ''/api/v1'' (tbl ex_manager) = Some (Some b)
     \<and> b \<in> set (rules_of (byWorkload (tbl ex_manager)) (rtWorkload b)))"
proof -
  have "\<exists>b. Lookup ''Web.ex.com:8080'' ''/api/v1'' (tbl ex_manager) = Some (Some b)"
    using ex_manager_serves by (auto simp: ServeHTTP_def split: option.splits)
  then show ?thesis using front_door_routes [of "\<lambda>_. True", OF ex_manager_reached, of "''Web.ex.com:8080''" "''/api/v1''"] by auto
qed

text \<open>C35. With the ingress domain pinned, the front door proxies a request only when its host, or the host its alias points to, is the pinned
  domain or below it: over every history of deployments, with any specification, and of restarts under the same configuration, whatever the
  disk did.
\<close>

theorem front_door_stays_in_domain:
  assumes "enforced d" "front_reach (same_defaults d) d m" "ServeHTTP host path (tbl m) = Proxied w p"
  shows "within_key d (CanonicalHost (stripPort host))
    \<or> (\<exists>g. map_of (hostAliases (tbl m)) (CanonicalHost (stripPort host)) = Some g \<and> within_key d g)"
proof -
  have ok: "table_ok (tbl m)" by (rule front_table_ok [OF assms(2)])
  obtain b where "Lookup host path (tbl m) = Some (Some b)" using assms(3) by (auto simp: ServeHTTP_def split: option.splits)
  then have "b \<in> serving (tbl m) (answering_host (tbl m) host)" using Lookup_cases [OF ok, of host path] by simp
  then have "within_key d (answering_host (tbl m) host)"
    using front_pinned [OF assms(1,2)] by (auto simp: serving_def all_within_def)
  then show ?thesis by (auto simp: answering_host_def Let_def split: if_splits option.splits)
qed

theorem front_door_stays_in_domain_witness:
  "within_key ex_defaults (CanonicalHost (stripPort ''Web.ex.com:8080''))
    \<or> (\<exists>g. map_of (hostAliases (tbl ex_manager)) (CanonicalHost (stripPort ''Web.ex.com:8080'')) = Some g \<and> within_key ex_defaults g)"
proof -
  have "enforced ex_defaults" by code_simp
  moreover have "front_reach (same_defaults ex_defaults) ex_defaults ex_manager" by (rule ex_manager_reached) (simp_all add: same_defaults_def)
  ultimately show ?thesis using front_door_stays_in_domain ex_manager_serves by blast
qed

text \<open>
  The pin does not reach the routes that a restart recovers: a route published before the domain was pinned is served after a restart with the
  domain pinned.
\<close>

lemma restart_escapes_pin:
  "let m = mapply Written (ex_spec [''evil.org'']) (newIngressManager (ex_defaults\<lparr>dfEnforceDomain := False\<rparr>) True []);
       m' = mrecover True (Some [''web'']) (restart ex_defaults m) in
   enforced (defs m') \<and> \<not> within_key (defs m') ''evil.org'' \<and> ServeHTTP ''evil.org'' ''/api'' (tbl m') = Proxied ''web'' 80"
  by code_simp

text \<open>C36. While the disk works, a restart loses no route and revives none: once the front door has recovered, a restart, under any
  configuration, and the recovery after it give every workload whose name is a plain file name the rules it had, and withdraw those
  of the workloads the backend no longer lists.
\<close>

theorem restart_recovers_routes:
  assumes "front_reach disk_works d m" "recovered m" "plain_name w"
  shows "rules (mrecover True live (restart d' m)) w = (if pruned live w then [] else rules m w)"
proof -
  have s: "persists m" "in_step m w" using front_in_step [OF assms(1), of w] assms(3) by simp_all
  let ?m = "restart d' m"
  have v: "rules ?m w = []" "file_of ?m w = file_of m w" "\<not> recovered ?m" "persists ?m" "disk ?m = disk m"
    using s(1) by (simp_all add: restart_def newIngressManager_def rules_def rules_of_def NewTable_def file_of_def)
  have "in_step ?m w" using s(2) v by (simp add: in_step_def)
  then have "rules (mrecover True live ?m) w = (if rules ?m w = [] \<and> pruned live w then [] else file_rules (file_of ?m w) w)"
    using recover_view(1) v front_disk_distinct [OF assms(1)] by metis
  moreover have "rules m w = file_rules (file_of m w) w" using s(2) assms(2) by (simp add: in_step_def)
  ultimately show ?thesis by (simp add: v)
qed

theorem restart_recovers_routes_witness:
  "rules (mrecover True (Some [''web'']) (restart ex_defaults ex_manager)) ''web'' = rules ex_manager ''web'' \<and> rules ex_manager ''web'' \<noteq> []"
proof -
  have "front_reach disk_works ex_defaults ex_manager" by (rule ex_manager_reached) (simp_all add: disk_works_def)
  moreover have "recovered ex_manager" by code_simp
  moreover have "plain_name ''web''" by code_simp
  moreover have "rules ex_manager ''web'' \<noteq> []" by code_simp
  ultimately show ?thesis
    using restart_recovers_routes [of ex_defaults ex_manager "''web''" "Some [''web'']" ex_defaults] by (simp add: pruned_def)
qed

end
