(* ===== verification/HostPolicy.thy ===== *)
theory HostPolicy
  imports GoStd Paths "HOL-Library.Sublist"
begin

text \<open>
  The gate on host privileges of a deployment, \<open>pkg/deploy/hostpolicy/policy.go\<close>: privileged containers and host bind sources.  Resolving
  the symbolic links of a path is the operating system's: \<open>filepath.EvalSymlinks\<close> is an argument, None where it fails.
\<close>

section \<open>Paths\<close>

definition path_segs :: "string \<Rightarrow> string list" where
  "path_segs p = filter (\<lambda>x. x \<noteq> []) (slash_segs p)"

fun strip_common :: "'a list \<Rightarrow> 'a list \<Rightarrow> 'a list \<times> 'a list" where
  "strip_common (x # xs) (y # ys) = (if x = y then strip_common xs ys else (x # xs, y # ys))"
| "strip_common xs ys = (xs, ys)"

text \<open>\<open>filepath.Rel\<close>: None is an error, for a base that cannot be climbed out of or paths of which only one is absolute.\<close>

definition path_rel :: "string \<Rightarrow> string \<Rightarrow> string option" where
  "path_rel base targ =
     (let b = path_clean base; t = path_clean targ in
      if t = b then Some ''.''
      else if has_prefix b ''/'' \<noteq> has_prefix t ''/'' then None
      else let (b', t') = strip_common (if b = ''.'' then [] else path_segs b) (path_segs t) in
        if b' \<noteq> [] \<and> hd b' = ''..'' then None
        else Some (join_with ''/'' (replicate (length b') ''..'' @ t')))"

section \<open>The policy\<close>

record policy =
  AllowPrivileged :: bool
  AllowBindPrefixes :: "string list"

record host_spec =
  privileged :: bool
  mountSources :: "string list"

definition Permissive :: policy where
  "Permissive = \<lparr>AllowPrivileged = True, AllowBindPrefixes = [''/'']\<rparr>"

definition to_lower :: "string \<Rightarrow> string" where
  "to_lower = map (\<lambda>c. let n = of_char c :: nat in if 65 \<le> n \<and> n \<le> 90 then char_of (n + 32) else c)"

definition envTrue :: "string \<Rightarrow> bool" where
  "envTrue v \<longleftrightarrow> to_lower (trim_space v) \<in> set [''1'', ''true'', ''yes'', ''on'']"

definition splitPrefixes :: "string \<Rightarrow> string list" where
  "splitPrefixes v =
     (if trim_space v = [] then []
      else map path_clean (filter (\<lambda>p. p \<noteq> []) (map trim_space (split_byte CHR '','' v))))"

definition FromEnv :: "(string \<Rightarrow> string) \<Rightarrow> policy" where
  "FromEnv env =
     \<lparr>AllowPrivileged = envTrue (env ''CORNUS_ALLOW_PRIVILEGED''), AllowBindPrefixes = splitPrefixes (env ''CORNUS_ALLOW_BIND_SOURCES'')\<rparr>"

definition underPrefix :: "string \<Rightarrow> string \<Rightarrow> bool" where
  "underPrefix pre p =
     (case path_rel pre p of
        None \<Rightarrow> False
      | Some rel \<Rightarrow> rel = ''.'' \<or> rel \<noteq> ''..'' \<and> \<not> has_prefix rel ''../'')"

text \<open>The loop of \<open>resolveSymlinks\<close> over the ancestors, with a bound on its rounds.\<close>

fun climb :: "nat \<Rightarrow> (string \<Rightarrow> string option) \<Rightarrow> string \<Rightarrow> string \<Rightarrow> string \<Rightarrow> string option" where
  "climb 0 ev p cur rest = None"
| "climb (Suc n) ev p cur rest =
     (let parent = path_dir cur; rest' = path_join [path_base cur, rest] in
      case ev parent of
        Some r \<Rightarrow> Some (path_clean (path_join [r, rest']))
      | None \<Rightarrow> if parent = cur then Some p else climb n ev p parent rest')"

definition resolveSymlinks :: "(string \<Rightarrow> string option) \<Rightarrow> string \<Rightarrow> string option" where
  "resolveSymlinks ev p = (case ev p of Some r \<Rightarrow> Some r | None \<Rightarrow> climb (length p + 2) ev p p [])"

definition lexicalAllowed :: "policy \<Rightarrow> string \<Rightarrow> bool" where
  "lexicalAllowed P p = list_ex (\<lambda>pre. underPrefix (path_clean pre) p) (AllowBindPrefixes P)"

definition bindAllowed :: "policy \<Rightarrow> (string \<Rightarrow> string option) \<Rightarrow> string \<Rightarrow> bool" where
  "bindAllowed P ev src =
     (let c = path_clean src in
      lexicalAllowed P c \<and>
      (case resolveSymlinks ev c of
         None \<Rightarrow> False
       | Some resolved \<Rightarrow>
           list_ex (\<lambda>pre. case resolveSymlinks ev (path_clean pre) of None \<Rightarrow> False | Some rp \<Rightarrow> underPrefix rp resolved) (AllowBindPrefixes P)))"

datatype denial = PrivilegedDenied | NotAbsolute string | OutsidePrefixes string

definition denied :: "string \<Rightarrow> denial" where
  "denied src = (if has_prefix src ''/'' then OutsidePrefixes src else NotAbsolute src)"

definition Validate :: "policy \<Rightarrow> (string \<Rightarrow> string option) \<Rightarrow> host_spec \<Rightarrow> denial option" where
  "Validate P ev sp =
     (if privileged sp \<and> \<not> AllowPrivileged P then Some PrivilegedDenied
      else map_option denied (find (\<lambda>s. s \<noteq> [] \<and> \<not> bindAllowed P ev s) (mountSources sp)))"

section \<open>Absolute clean paths\<close>

definition abs_path :: "string list \<Rightarrow> string" where
  "abs_path xs = ''/'' @ join_with ''/'' xs"

abbreviation clean_list :: "string list \<Rightarrow> bool" where
  "clean_list xs \<equiv> list_all clean_seg xs"

lemma clean_list_facts:
  assumes "clean_list xs"
  shows "\<And>x. x \<in> set xs \<Longrightarrow> CHR ''/'' \<notin> set x \<and> x \<noteq> [] \<and> x \<noteq> ''..'' \<and> x \<noteq> ''.''"
  using assms by (auto simp: list_all_iff clean_seg_def)

lemma path_segs_append: "path_segs (a @ ''/'' @ b) = path_segs a @ path_segs b"
  by (simp add: path_segs_def slash_segs_append [simplified])

lemma path_segs_Nil: "path_segs [] = []"
  by code_simp

lemma path_segs_join: "clean_list xs \<Longrightarrow> path_segs (join_with ''/'' xs) = xs"
proof (cases "xs = []")
  case False
  assume c: "clean_list xs"
  have "slash_segs (join_with ''/'' xs) = xs" using slash_segs_join [OF False] clean_list_facts [OF c] by blast
  then show ?thesis using clean_list_facts [OF c] by (simp add: path_segs_def filter_id_conv)
qed (simp add: path_segs_Nil)

lemma path_segs_abs: "clean_list xs \<Longrightarrow> path_segs (abs_path xs) = xs"
  using path_segs_append [of "[]" "join_with ''/'' xs"] by (simp add: abs_path_def path_segs_join path_segs_Nil)

lemma abs_path_rooted: "has_prefix (abs_path xs) ''/''"
  by (simp add: abs_path_def has_prefix_iff)

lemma abs_path_inject: "clean_list xs \<Longrightarrow> clean_list ys \<Longrightarrow> abs_path xs = abs_path ys \<longleftrightarrow> xs = ys"
  by (metis path_segs_abs)

lemma rooted_steps:
  assumes "list_all (\<lambda>x. CHR ''/'' \<notin> set x) segs" "clean_list acc"
  shows "clean_list (foldl (clean_step True) acc segs)"
  using assms
proof (induction segs arbitrary: acc)
  case (Cons s segs)
  have "clean_list (clean_step True acc s)" using Cons.prems by (auto simp: list_all_iff clean_seg_def split: list.splits)
  then show ?case using Cons by (simp del: clean_step.simps)
qed simp

lemma path_clean_abs:
  assumes "has_prefix p ''/''"
  obtains xs where "clean_list xs" "path_clean p = abs_path xs"
proof -
  have "list_all (\<lambda>x. CHR ''/'' \<notin> set x) (slash_segs p)" using slash_segs_no_slash by (auto simp: list_all_iff)
  then have "clean_list (clean_segs True (slash_segs p))" using rooted_steps [of _ "[]"] by (simp add: clean_segs_def)
  moreover have "path_clean p = abs_path (clean_segs True (slash_segs p))"
    using assms by (simp add: path_clean_def abs_path_def slash_segs_def)
  ultimately show ?thesis using that by blast
qed

lemma path_clean_tidy:
  assumes "has_prefix p ''/''" "clean_list (path_segs p)"
  shows "path_clean p = abs_path (path_segs p)"
proof -
  have no: "''..'' \<notin> set (slash_segs p)" using assms(2) by (auto simp: path_segs_def list_all_iff clean_seg_def)
  have "filter (\<lambda>x. x \<noteq> [] \<and> x \<noteq> ''.'') (slash_segs p) = path_segs p"
    using assms(2) unfolding path_segs_def by (intro filter_cong) (auto simp: list_all_iff clean_seg_def)
  then have "clean_segs True (slash_segs p) = path_segs p" using no by (subst clean_segs_no_dotdot) auto
  then show ?thesis using assms(1) by (simp add: path_clean_def abs_path_def slash_segs_def)
qed

lemma path_clean_abs_id: "clean_list xs \<Longrightarrow> path_clean (abs_path xs) = abs_path xs"
  by (simp add: path_clean_tidy abs_path_rooted path_segs_abs)

lemma abs_snoc: "abs_path (xs @ [x]) = (if xs = [] then [] else abs_path xs) @ ''/'' @ x"
proof -
  have "join_with ''/'' (xs @ [x]) = (if xs = [] then x else join_with ''/'' xs @ ''/'' @ x)"
    by (induction xs rule: induct_list012) auto
  then show ?thesis by (simp add: abs_path_def)
qed

lemma path_dir_snoc:
  assumes "clean_list (xs @ [x])"
  shows "path_dir (abs_path (xs @ [x])) = abs_path xs"
proof -
  let ?pre = "if xs = [] then [] else abs_path xs"
  have sl: "CHR ''/'' \<notin> set x" using assms by (simp add: clean_seg_def)
  have "dropWhile (\<lambda>c. c \<noteq> CHR ''/'') (rev x @ CHR ''/'' # rev ?pre) = CHR ''/'' # rev ?pre"
    using sl by (subst dropWhile_append2) auto
  then have d: "path_dir (abs_path (xs @ [x])) = path_clean (?pre @ ''/'')" unfolding path_dir_def abs_snoc by simp
  have "path_segs (?pre @ ''/'') = xs"
    using path_segs_append [of ?pre "[]"] assms by (simp add: path_segs_Nil path_segs_abs split: if_splits)
  moreover have "has_prefix (?pre @ ''/'') ''/''" by (simp add: has_prefix_iff abs_path_def)
  ultimately show ?thesis using path_clean_tidy [of "?pre @ ''/''"] assms d by simp
qed

lemma path_base_snoc: "clean_seg x \<Longrightarrow> path_base (abs_path (xs @ [x])) = x"
  unfolding abs_snoc by (rule path_base_append)

lemma path_dir_root: "path_dir (abs_path []) = abs_path []"
  by code_simp

lemma join_seg_not_Nil: "clean_seg x \<Longrightarrow> join_with ''/'' (x # ys) \<noteq> []"
  by (cases ys) (auto simp: clean_seg_def)

lemma path_join_seg:
  assumes "clean_seg x" "clean_list ys"
  shows "path_join [x, join_with ''/'' ys] = join_with ''/'' (x # ys)"
proof -
  have j: "join_with ''/'' (filter (\<lambda>e. e \<noteq> []) [x, join_with ''/'' ys]) = join_with ''/'' (x # ys)"
    using assms join_seg_not_Nil by (cases ys) (simp_all add: clean_seg_def [of x])
  have "slash_segs (join_with ''/'' (x # ys)) = x # ys"
    using assms by (intro slash_segs_join) (auto simp: list_all_iff clean_seg_def)
  then have "clean_path (join_with ''/'' (x # ys))" using assms by (simp add: clean_path_def list_all_iff)
  then have "path_clean (join_with ''/'' (x # ys)) = join_with ''/'' (x # ys)" by (rule path_clean_id)
  moreover have "filter (\<lambda>e. e \<noteq> []) [x, join_with ''/'' ys] \<noteq> []" using assms(1) by (auto simp: clean_seg_def)
  ultimately show ?thesis unfolding path_join_def Let_def j by (simp only: if_False)
qed

lemma path_join_abs:
  assumes "clean_list rs" "clean_list (x # ys)"
  shows "path_clean (path_join [abs_path rs, join_with ''/'' (x # ys)]) = abs_path (rs @ x # ys)"
proof -
  let ?j = "join_with ''/'' (x # ys)"
  have "?j \<noteq> []" using assms(2) join_seg_not_Nil by simp
  then have "path_join [abs_path rs, ?j] = path_clean (abs_path rs @ ''/'' @ ?j)" by (simp add: path_join_def abs_path_def)
  also have "path_segs (abs_path rs @ ''/'' @ ?j) = rs @ x # ys"
    using path_segs_append path_segs_abs [OF assms(1)] path_segs_join [OF assms(2)] by metis
  then have "path_clean (abs_path rs @ ''/'' @ ?j) = abs_path (rs @ x # ys)"
    using assms by (subst path_clean_tidy) (simp_all add: abs_path_def has_prefix_iff)
  finally show ?thesis using assms by (simp add: path_clean_abs_id)
qed

section \<open>Prefixes\<close>

lemma strip_common_prefix: "fst (strip_common xs ys) = [] \<longleftrightarrow> prefix xs ys"
  by (induction xs ys rule: strip_common.induct) auto

lemma strip_common_parts: "\<exists>zs. xs = zs @ fst (strip_common xs ys) \<and> ys = zs @ snd (strip_common xs ys)"
proof (induction xs ys rule: strip_common.induct)
  case (1 x xs y ys)
  show ?case
  proof (cases "x = y")
    case True
    then obtain zs where "xs = zs @ fst (strip_common xs ys)" "ys = zs @ snd (strip_common xs ys)" using 1 by blast
    then show ?thesis using True by (intro exI [of _ "x # zs"]) simp
  qed simp
qed auto

text \<open>\<open>underPrefix\<close> on clean absolute paths is the prefix order on their elements.\<close>

lemma underPrefix_abs:
  assumes "clean_list xs" "clean_list ys"
  shows "underPrefix (abs_path xs) (abs_path ys) \<longleftrightarrow> prefix xs ys"
proof (cases "xs = ys")
  case True
  then show ?thesis by (simp add: underPrefix_def path_rel_def)
next
  case False
  obtain b t where bt: "strip_common xs ys = (b, t)" by force
  obtain zs where zs: "xs = zs @ b" "ys = zs @ t" using strip_common_parts [of xs ys] bt by auto
  have cb: "clean_list b" "clean_list t" using assms zs by simp_all
  have nd: "b \<noteq> [] \<Longrightarrow> hd b \<noteq> ''..''" using clean_list_facts [OF cb(1)] by simp
  have ndot: "abs_path xs \<noteq> ''.''" by (simp add: abs_path_def)
  have rel: "path_rel (abs_path xs) (abs_path ys) = Some (join_with ''/'' (replicate (length b) ''..'' @ t))"
    using False nd ndot assms
    by (auto simp: path_rel_def path_clean_abs_id abs_path_inject abs_path_rooted path_segs_abs bt Let_def)
  have pre: "prefix xs ys \<longleftrightarrow> b = []" using strip_common_prefix [of xs ys] bt by simp
  show ?thesis
  proof (cases b)
    case Nil
    have "t \<noteq> []" using False zs Nil by auto
    then have s: "slash_segs (join_with ''/'' t) = t" using cb(2) clean_list_facts by (intro slash_segs_join) blast+
    have "join_with ''/'' t \<noteq> ''..''"
    proof
      assume "join_with ''/'' t = ''..''"
      then have "t = [''..'']" using s by (simp add: slash_segs_single)
      then show False using cb(2) by (simp add: clean_seg_def)
    qed
    moreover have "\<not> has_prefix (join_with ''/'' t) ''../''"
    proof
      assume "has_prefix (join_with ''/'' t) ''../''"
      then obtain u where "join_with ''/'' t = ''..'' @ ''/'' @ u" by (auto simp: has_prefix_iff)
      then have "t = slash_segs ''..'' @ slash_segs u" using s slash_segs_append by metis
      then have "''..'' \<in> set t" by (simp add: slash_segs_single)
      then show False using clean_list_facts [OF cb(2)] by blast
    qed
    ultimately show ?thesis using rel Nil pre by (simp add: underPrefix_def)
  next
    case (Cons x b')
    have "join_with ''/'' (''..'' # r) = ''..'' \<or> has_prefix (join_with ''/'' (''..'' # r)) ''../''" for r
      by (cases r) (auto simp: has_prefix_iff)
    moreover have "join_with ''/'' (''..'' # r) \<noteq> ''.''" for r by (cases r) auto
    ultimately show ?thesis using rel pre Cons by (auto simp: underPrefix_def)
  qed
qed

section \<open>Symbolic links\<close>

text \<open>
  The reference: the elements of the real path of an absolute path are those of its deepest ancestor that resolves, followed by the elements
  below it.
\<close>

fun below_ancestor :: "(string \<Rightarrow> string option) \<Rightarrow> string list \<Rightarrow> string list \<Rightarrow> string list option" where
  "below_ancestor ev [] ys = None"
| "below_ancestor ev (x # rx) ys =
     (case ev (abs_path (rev rx)) of Some r \<Rightarrow> Some (path_segs r @ x # ys) | None \<Rightarrow> below_ancestor ev rx (x # ys))"

definition real_segs :: "(string \<Rightarrow> string option) \<Rightarrow> string list \<Rightarrow> string list" where
  "real_segs ev xs =
     (case ev (abs_path xs) of
        Some r \<Rightarrow> path_segs r
      | None \<Rightarrow> (case below_ancestor ev (rev xs) [] of Some zs \<Rightarrow> zs | None \<Rightarrow> xs))"

text \<open>What \<open>EvalSymlinks\<close> returns is an absolute clean path.\<close>

definition resolves_clean :: "(string \<Rightarrow> string option) \<Rightarrow> bool" where
  "resolves_clean ev \<longleftrightarrow> (\<forall>q r. ev q = Some r \<longrightarrow> (\<exists>rs. clean_list rs \<and> r = abs_path rs))"

lemma below_ancestor_clean:
  "resolves_clean ev \<Longrightarrow> clean_list rx \<Longrightarrow> clean_list ys \<Longrightarrow> below_ancestor ev rx ys = Some zs \<Longrightarrow> clean_list zs"
proof (induction rx arbitrary: ys)
  case (Cons x rx)
  show ?case
  proof (cases "ev (abs_path (rev rx))")
    case None
    then show ?thesis using Cons.IH [of "x # ys"] Cons.prems by simp
  next
    case (Some r)
    then obtain rs where "clean_list rs" "r = abs_path rs" using Cons.prems(1) by (auto simp: resolves_clean_def)
    then show ?thesis using Some Cons.prems by (auto simp: path_segs_abs)
  qed
qed simp

lemma climb_ancestor:
  assumes ev: "resolves_clean ev"
  shows "clean_list rx \<Longrightarrow> clean_list ys \<Longrightarrow> length rx < n \<Longrightarrow> ev (abs_path (rev rx)) = None \<Longrightarrow>
     climb n ev p (abs_path (rev rx)) (join_with ''/'' ys) =
       Some (case below_ancestor ev rx ys of Some zs \<Rightarrow> abs_path zs | None \<Rightarrow> p)"
proof (induction rx arbitrary: n ys)
  case Nil
  obtain m where "n = Suc m" using Nil.prems(3) by (cases n) auto
  then show ?case using Nil.prems by (simp add: path_dir_root)
next
  case (Cons x rx)
  obtain m where n: "n = Suc m" "length rx < m" using Cons.prems(3) by (cases n) auto
  have c: "clean_list (rev rx @ [x])" "clean_seg x" "clean_list rx" using Cons.prems by simp_all
  have d: "path_dir (abs_path (rev (x # rx))) = abs_path (rev rx)" using path_dir_snoc [OF c(1)] by simp
  have b: "path_join [path_base (abs_path (rev (x # rx))), join_with ''/'' ys] = join_with ''/'' (x # ys)"
    using path_base_snoc [OF c(2)] path_join_seg [OF c(2) Cons.prems(2)] by simp
  have ne: "abs_path (rev rx) \<noteq> abs_path (rev (x # rx))" using c abs_path_inject [of "rev rx" "rev rx @ [x]"] by simp
  show ?case
  proof (cases "ev (abs_path (rev rx))")
    case None
    have "clean_list (x # ys)" using c(2) Cons.prems(2) by simp
    note ih = Cons.IH [OF c(3) this n(2) None]
    show ?thesis unfolding n(1) climb.simps d b Let_def using None ne ih by simp
  next
    case (Some r)
    obtain rs where rs: "clean_list rs" "r = abs_path rs" using Some ev by (auto simp: resolves_clean_def)
    have "clean_list (x # ys)" using c(2) Cons.prems(2) by simp
    then show ?thesis unfolding n(1) climb.simps d b Let_def using Some rs path_join_abs [OF rs(1)] by (simp add: path_segs_abs)
  qed
qed

lemma length_abs_path: "clean_list xs \<Longrightarrow> length xs \<le> length (abs_path xs)"
proof -
  have "length xs \<le> Suc (length (join_with ''/'' xs))" by (induction xs rule: induct_list012) auto
  then show ?thesis by (simp add: abs_path_def)
qed

text \<open>The loop ends, and resolves to the real path.\<close>

lemma resolveSymlinks_real:
  assumes ev: "resolves_clean ev" and xs: "clean_list xs"
  shows "resolveSymlinks ev (abs_path xs) = Some (abs_path (real_segs ev xs))" "clean_list (real_segs ev xs)"
proof -
  have "resolveSymlinks ev (abs_path xs) = Some (abs_path (real_segs ev xs)) \<and> clean_list (real_segs ev xs)"
  proof (cases "ev (abs_path xs)")
    case (Some r)
    then obtain rs where "clean_list rs" "r = abs_path rs" using ev by (auto simp: resolves_clean_def)
    then show ?thesis using Some by (simp add: resolveSymlinks_def real_segs_def path_segs_abs)
  next
    case None
    have r: "clean_list (rev xs)" using xs by simp
    have l: "length (rev xs) < length (abs_path xs) + 2" using length_abs_path [OF xs] by simp
    have "climb (length (abs_path xs) + 2) ev (abs_path xs) (abs_path xs) [] =
        Some (case below_ancestor ev (rev xs) [] of Some zs \<Rightarrow> abs_path zs | None \<Rightarrow> abs_path xs)"
      using climb_ancestor [OF ev r _ l, of "[]" "abs_path xs"] None by simp
    moreover have "clean_list zs" if "below_ancestor ev (rev xs) [] = Some zs" for zs
      using below_ancestor_clean [OF ev r _ that] by simp
    ultimately show ?thesis using None xs
      by (auto simp: resolveSymlinks_def real_segs_def simp del: climb.simps split: option.splits)
  qed
  then show "resolveSymlinks ev (abs_path xs) = Some (abs_path (real_segs ev xs))" "clean_list (real_segs ev xs)" by simp_all
qed

lemma path_clean_relative: "\<not> has_prefix p ''/'' \<Longrightarrow> \<not> has_prefix (path_clean p) ''/''"
proof -
  assume p: "\<not> has_prefix p ''/''"
  let ?s = "clean_segs False (slash_segs p)"
  have c: "path_clean p = (if ?s = [] then ''.'' else join_with ''/'' ?s)" using p by (simp add: path_clean_def slash_segs_def)
  show ?thesis
  proof (cases ?s)
    case Nil
    then show ?thesis by (simp add: c has_prefix_iff)
  next
    case (Cons x xs)
    then have "x \<in> set ?s" by simp
    then have "x \<noteq> []" "CHR ''/'' \<notin> set x" using set_clean_segs [of False "slash_segs p"] slash_segs_no_slash by blast+
    then obtain a b where "x = a # b" "a \<noteq> CHR ''/''" by (cases x) auto
    then show ?thesis using Cons by (cases xs) (auto simp: c has_prefix_iff)
  qed
qed

lemma underPrefix_relative:
  "clean_list xs \<Longrightarrow> \<not> has_prefix p ''/'' \<Longrightarrow> \<not> underPrefix (abs_path xs) (path_clean p)"
proof -
  assume xs: "clean_list xs" and p: "\<not> has_prefix p ''/''"
  have n: "\<not> has_prefix (path_clean (path_clean p)) ''/''" using p path_clean_relative by blast
  then have "path_clean (path_clean p) \<noteq> abs_path xs" using abs_path_rooted by metis
  then have "path_rel (abs_path xs) (path_clean p) = None" using n by (simp add: path_rel_def path_clean_abs_id [OF xs] abs_path_rooted)
  then show ?thesis by (simp add: underPrefix_def)
qed

section \<open>The gate\<close>

text \<open>The elements of a cleaned absolute path.\<close>

definition lex_segs :: "string \<Rightarrow> string list" where
  "lex_segs p = path_segs (path_clean p)"

definition absolute_prefixes :: "policy \<Rightarrow> bool" where
  "absolute_prefixes P \<longleftrightarrow> list_all (\<lambda>pre. has_prefix pre ''/'') (AllowBindPrefixes P)"

lemma lex_segs_abs:
  assumes "has_prefix p ''/''"
  shows "path_clean p = abs_path (lex_segs p)" "clean_list (lex_segs p)"
proof -
  obtain xs where "clean_list xs" "path_clean p = abs_path xs" by (rule path_clean_abs [OF assms])
  then show "path_clean p = abs_path (lex_segs p)" "clean_list (lex_segs p)" by (simp_all add: lex_segs_def path_segs_abs)
qed

lemma bindAllowed_iff:
  assumes ev: "resolves_clean ev" and P: "absolute_prefixes P"
  shows "bindAllowed P ev src \<longleftrightarrow> has_prefix src ''/''
    \<and> (\<exists>pre \<in> set (AllowBindPrefixes P). prefix (lex_segs pre) (lex_segs src))
    \<and> (\<exists>pre \<in> set (AllowBindPrefixes P). prefix (real_segs ev (lex_segs pre)) (real_segs ev (lex_segs src)))"
proof (cases "has_prefix src ''/''")
  case False
  have "\<not> lexicalAllowed P (path_clean src)"
    using P underPrefix_relative [OF _ False] lex_segs_abs by (auto simp: lexicalAllowed_def list_ex_iff absolute_prefixes_def list_all_iff)
  then show ?thesis using False by (simp add: bindAllowed_def)
next
  case True
  note s = lex_segs_abs [OF True]
  note rs = resolveSymlinks_real [OF ev s(2)]
  have pre: "has_prefix pre ''/''" if "pre \<in> set (AllowBindPrefixes P)" for pre
    using P that by (simp add: absolute_prefixes_def list_all_iff)
  have 1: "underPrefix (path_clean pre) (path_clean src) \<longleftrightarrow> prefix (lex_segs pre) (lex_segs src)" if "pre \<in> set (AllowBindPrefixes P)" for pre
    using lex_segs_abs [OF pre [OF that]] s underPrefix_abs by simp
  have 2: "(case resolveSymlinks ev (path_clean pre) of None \<Rightarrow> False | Some rp \<Rightarrow> underPrefix rp (abs_path (real_segs ev (lex_segs src))))
      \<longleftrightarrow> prefix (real_segs ev (lex_segs pre)) (real_segs ev (lex_segs src))" if "pre \<in> set (AllowBindPrefixes P)" for pre
    using resolveSymlinks_real [OF ev lex_segs_abs(2) [OF pre [OF that]]] lex_segs_abs(1) [OF pre [OF that]] rs(2) underPrefix_abs by simp
  have "lexicalAllowed P (path_clean src) \<longleftrightarrow> (\<exists>pre \<in> set (AllowBindPrefixes P). prefix (lex_segs pre) (lex_segs src))"
    unfolding lexicalAllowed_def list_ex_iff using 1 by blast
  moreover have "resolveSymlinks ev (path_clean src) = Some (abs_path (real_segs ev (lex_segs src)))" using rs(1) s(1) by simp
  ultimately show ?thesis unfolding bindAllowed_def Let_def list_ex_iff using True 2 by simp
qed

text \<open>The directories of the default policy.\<close>

lemma default_denies: "Validate \<lparr>AllowPrivileged = False, AllowBindPrefixes = []\<rparr> ev sp = None
    \<longleftrightarrow> \<not> privileged sp \<and> list_all (\<lambda>s. s = []) (mountSources sp)"
  by (auto simp: Validate_def find_None_iff bindAllowed_def lexicalAllowed_def list_all_iff)

text \<open>
  A link whose target does not exist yet is taken for a missing path: the path below it resolves to itself and is allowed, whatever the link
  points to.
\<close>

definition ex_links :: "string \<Rightarrow> string option" where
  "ex_links p = (if p = ''/srv'' then Some ''/srv'' else if p = ''/srv/etc'' then Some ''/etc'' else None)"

lemma dangling_link_allowed:
  "resolveSymlinks ex_links ''/srv/dangling/x'' = Some ''/srv/dangling/x''
   \<and> bindAllowed \<lparr>AllowPrivileged = False, AllowBindPrefixes = [''/srv'']\<rparr> ex_links ''/srv/dangling/x''"
  by code_simp


lemma ex_links_clean: "resolves_clean ex_links"
proof -
  have "\<exists>rs. clean_list rs \<and> ''/srv'' = abs_path rs" by (rule exI [of _ "[''srv'']"]) code_simp
  moreover have "\<exists>rs. clean_list rs \<and> ''/etc'' = abs_path rs" by (rule exI [of _ "[''etc'']"]) code_simp
  ultimately show ?thesis by (auto simp: resolves_clean_def ex_links_def)
qed


end
