(* ===== verification/Egress.thy ===== *)
theory Egress
  imports IpAddr Glob
begin

text \<open>
  The routing of outgoing connections, \<open>pkg/egresspolicy/policy.go\<close>, and the parts of \<open>script.go\<close> that are not the script engine.
\<close>

unbundle bit_operations_syntax

section \<open>Networks\<close>

text \<open>\<open>net.CIDRMask\<close> for a number of bytes.\<close>

fun CIDRMask :: "nat \<Rightarrow> nat \<Rightarrow> ip" where
  "CIDRMask n 0 = []"
| "CIDRMask n (Suc l) = (if n \<ge> 8 then 255 # CIDRMask (n - 8) l else NOT (drop_bit n 255) # CIDRMask 0 l)"

definition and_bytes :: "ip \<Rightarrow> ip \<Rightarrow> ip" where
  "and_bytes a b = map2 (AND) a b"

record ip_net =
  netIP :: ip
  netMask :: ip

text \<open>\<open>net.ParseCIDR\<close>: the address, a slash and a length of the prefix; None is an error.\<close>

definition ParseCIDR :: "string \<Rightarrow> ip_net option" where
  "ParseCIDR s =
     (case index_byte CHR ''/'' s of
        None \<Rightarrow> None
      | Some i \<Rightarrow>
          let addr = take i s; bits = drop (Suc i) s in
          case (case parse_ip4 addr of Some a \<Rightarrow> Some (ip4_bytes a) | None \<Rightarrow> ParseIP addr) of
            None \<Rightarrow> None
          | Some p \<Rightarrow>
              if bits = [] \<or> \<not> list_all is_digit bits \<or> digits_val bits > 8 * int (length p) then None
              else let m = CIDRMask (nat (digits_val bits)) (length p) in Some \<lparr>netIP = and_bytes p m, netMask = m\<rparr>)"

text \<open>\<open>networkNumberAndMask\<close> and \<open>IPNet.Contains\<close>.\<close>

definition network_number :: "ip_net \<Rightarrow> ip \<times> ip" where
  "network_number n =
     (case To4 (netIP n) of
        Some p \<Rightarrow> (p, if length (netMask n) = 16 then drop 12 (netMask n) else netMask n)
      | None \<Rightarrow> (netIP n, netMask n))"

definition Contains :: "ip_net \<Rightarrow> ip \<Rightarrow> bool" where
  "Contains n ip0 =
     (let (nn, m) = network_number n; ip = (case To4 ip0 of Some q \<Rightarrow> q | None \<Rightarrow> ip0) in
      length ip = length nn \<and> and_bytes nn m = and_bytes ip m)"

section \<open>Rules\<close>

definition RouteClient :: string where "RouteClient = ''client''"
definition RouteGateway :: string where "RouteGateway = ''gateway''"
definition RouteCluster :: string where "RouteCluster = ''cluster''"
definition RouteDeny :: string where "RouteDeny = ''deny''"

record dest =
  dHost :: string
  dIP :: "ip option"
  dPort :: int

definition ValidRoute :: "string \<Rightarrow> bool" where
  "ValidRoute r \<longleftrightarrow> r \<in> set [RouteClient, RouteGateway, RouteCluster, RouteDeny]"

datatype host_part = Cidr ip_net | Addr ip | HostGlob string

record compiled_rule =
  hostPart :: host_part
  port :: int
  route :: string

record egress_rule =
  pattern :: string
  ruleRoute :: string

record egress_spec =
  rules :: "egress_rule list"
  script :: string
  defaultRoute :: string

definition lower_case :: "string \<Rightarrow> string" where
  "lower_case = map (\<lambda>c. let n = of_char c :: nat in if 65 \<le> n \<and> n \<le> 90 then char_of (n + 32) else c)"

definition upper_case :: "string \<Rightarrow> string" where
  "upper_case = map (\<lambda>c. let n = of_char c :: nat in if 97 \<le> n \<and> n \<le> 122 then char_of (n - 32) else c)"

text \<open>The addresses a destination is known by: the one given, and a host that is an address literal.\<close>

definition dest_ips :: "dest \<Rightarrow> ip list" where
  "dest_ips d = (case dIP d of Some p \<Rightarrow> [p] | None \<Rightarrow> []) @ (case ParseIP (dHost d) of Some p \<Rightarrow> [p] | None \<Rightarrow> [])"

definition matches :: "compiled_rule \<Rightarrow> dest \<Rightarrow> bool" where
  "matches r d =
     (if port r \<noteq> 0 \<and> port r \<noteq> dPort d then False
      else case hostPart r of
        Cidr n \<Rightarrow> list_ex (Contains n) (dest_ips d)
      | Addr p \<Rightarrow> list_ex (ip_equal p) (dest_ips d)
      | HostGlob g \<Rightarrow>
          (let h = lower_case (trim_suffix (dHost d) ''.'');
               host = (case dIP d of Some p \<Rightarrow> if h = [] then ip_string p else h | None \<Rightarrow> h)
           in path_match g host = Some True))"

datatype egress_error = InvalidDefault string | InvalidRoute nat string | EmptyPattern nat | BadBracket nat | BadPort nat | BadCidr nat
  | BadGlob nat | BadScript

text \<open>\<open>splitPattern\<close>: None is an error.\<close>

definition splitPattern :: "string \<Rightarrow> (string \<times> string) option" where
  "splitPattern p =
     (if has_prefix p ''['' then
        (case index_byte CHR '']'' p of
           None \<Rightarrow> None
         | Some e \<Rightarrow>
             let host = take (e - 1) (drop 1 p); rest = drop (Suc e) p in
             if rest = [] then Some (host, []) else if has_prefix rest '':'' then Some (host, drop 1 rest) else None)
      else if length (filter (\<lambda>c. c = CHR '':'') p) = 1 then
        (case index_byte CHR '':'' p of Some i \<Rightarrow> Some (take i p, drop (Suc i) p) | None \<Rightarrow> None)
      else Some (p, []))"

text \<open>\<open>compileRule\<close> for the rule at index \<open>i\<close>, with its route.\<close>

definition compile_port :: "nat \<Rightarrow> string \<Rightarrow> egress_error + int" where
  "compile_port i s =
     (if s = [] then Inr 0
      else case parse_int 64 s of
        None \<Rightarrow> Inl (BadPort i)
      | Some n \<Rightarrow> if n < 1 \<or> n > 65535 then Inl (BadPort i) else Inr n)"

definition compile_host :: "nat \<Rightarrow> string \<Rightarrow> egress_error + host_part" where
  "compile_host i h =
     (if CHR ''/'' \<in> set h then (case ParseCIDR h of None \<Rightarrow> Inl (BadCidr i) | Some n \<Rightarrow> Inr (Cidr n))
      else case ParseIP h of
        Some p \<Rightarrow> Inr (Addr p)
      | None \<Rightarrow> (case path_match (lower_case h) [] of None \<Rightarrow> Inl (BadGlob i) | Some _ \<Rightarrow> Inr (HostGlob (lower_case h))))"

definition compileRule :: "nat \<Rightarrow> string \<Rightarrow> string \<Rightarrow> egress_error + compiled_rule" where
  "compileRule i pat r =
     (let p = trim_space pat in
      if p = [] then Inl (EmptyPattern i)
      else case splitPattern p of
        None \<Rightarrow> Inl (BadBracket i)
      | Some (h, pt) \<Rightarrow>
          (case compile_port i pt of
             Inl e \<Rightarrow> Inl e
           | Inr n \<Rightarrow> (case compile_host i h of Inl e \<Rightarrow> Inl e | Inr hp \<Rightarrow> Inr \<lparr>hostPart = hp, port = n, route = r\<rparr>)))"

record rule_policy =
  policyRules :: "compiled_rule list"
  policyDefault :: string

fun compile_from :: "nat \<Rightarrow> egress_rule list \<Rightarrow> egress_error + compiled_rule list" where
  "compile_from i [] = Inr []"
| "compile_from i (r # rs) =
     (if \<not> ValidRoute (ruleRoute r) then Inl (InvalidRoute i (ruleRoute r))
      else case compileRule i (pattern r) (ruleRoute r) of
        Inl e \<Rightarrow> Inl e
      | Inr c \<Rightarrow> (case compile_from (Suc i) rs of Inl e \<Rightarrow> Inl e | Inr cs \<Rightarrow> Inr (c # cs)))"

definition compileRules :: "egress_rule list \<Rightarrow> string \<Rightarrow> egress_error + rule_policy" where
  "compileRules rs def =
     (case compile_from 0 rs of Inl e \<Rightarrow> Inl e | Inr cs \<Rightarrow> Inr \<lparr>policyRules = cs, policyDefault = def\<rparr>)"

definition Route :: "rule_policy \<Rightarrow> dest \<Rightarrow> string" where
  "Route p d = (case find (\<lambda>r. matches r d) (policyRules p) of Some r \<Rightarrow> route r | None \<Rightarrow> policyDefault p)"

text \<open>What a script returns for a destination: an error or a timeout, nothing, or a text.  The engine is an argument: None when the program does
  not compile or defines no \<open>FindProxyForURL\<close>.\<close>

datatype script_result = ScriptError | ScriptNull | ScriptText string

type_synonym engine = "string \<Rightarrow> (string \<Rightarrow> string \<Rightarrow> dest \<Rightarrow> script_result) option"

fun words :: "string \<Rightarrow> string \<Rightarrow> string list" where
  "words acc [] = (if acc = [] then [] else [rev acc])"
| "words acc (c # cs) =
     (if c \<in> set [CHR '' '', CHR 0x09, CHR 0x0A, CHR 0x0B, CHR 0x0C, CHR 0x0D] then (if acc = [] then words [] cs else rev acc # words [] cs)
      else words (c # acc) cs)"

definition pacReturnToRoute :: "string \<Rightarrow> string \<Rightarrow> string" where
  "pacReturnToRoute ret def =
     (let first = trim_space (takeWhile (\<lambda>c. c \<noteq> CHR '';'') ret) in
      case words [] first of
        [] \<Rightarrow> def
      | kw0 # args \<Rightarrow>
          let kw = upper_case kw0 in
          if kw = ''DIRECT'' then RouteCluster
          else if kw \<in> set [''DENY'', ''BLOCK''] then RouteDeny
          else if kw = ''CLIENT'' then RouteClient
          else if kw = ''CLUSTER'' then RouteCluster
          else if kw = ''GATEWAY'' then RouteGateway
          else if kw \<in> set [''PROXY'', ''HTTPS'', ''HTTP'', ''SOCKS'', ''SOCKS5''] then
            (case args of
               [] \<Rightarrow> RouteClient
             | a # _ \<Rightarrow>
                 if lower_case a = ''gateway'' then RouteGateway
                 else if lower_case a = ''cluster'' then RouteCluster else RouteClient)
          else def)"

definition join_host_port :: "string \<Rightarrow> int \<Rightarrow> string" where
  "join_host_port host p = (if CHR '':'' \<in> set host then ''['' @ host @ '']'' else host) @ '':'' @ itoa p"

definition script_route :: "(string \<Rightarrow> string \<Rightarrow> dest \<Rightarrow> script_result) \<Rightarrow> string \<Rightarrow> dest \<Rightarrow> bool \<times> string" where
  "script_route fn def d =
     (let host = (case dIP d of Some p \<Rightarrow> if dHost d = [] then ip_string p else dHost d | None \<Rightarrow> dHost d);
          url = ''tcp://'' @ join_host_port host (dPort d) @ ''/''
      in case fn url host d of
        ScriptError \<Rightarrow> (False, RouteDeny)
      | ScriptNull \<Rightarrow> (True, def)
      | ScriptText t \<Rightarrow> (True, pacReturnToRoute t def))"

text \<open>\<open>Compile\<close>: the decision function of the policy, with the flag that it could be evaluated.\<close>

definition Compile :: "engine \<Rightarrow> egress_spec \<Rightarrow> egress_error + (dest \<Rightarrow> bool \<times> string)" where
  "Compile js sp =
     (let def = (if defaultRoute sp = [] then RouteCluster else defaultRoute sp) in
      if \<not> ValidRoute def then Inl (InvalidDefault (defaultRoute sp))
      else if trim_space (script sp) \<noteq> [] then
        (case js (script sp) of None \<Rightarrow> Inl BadScript | Some fn \<Rightarrow> Inr (script_route fn def))
      else case compileRules (rules sp) def of Inl e \<Rightarrow> Inl e | Inr p \<Rightarrow> Inr (\<lambda>d. (True, Route p d)))"

section \<open>The script's builtins\<close>

definition resolveForScript :: "dest \<Rightarrow> string \<Rightarrow> ip option" where
  "resolveForScript d host =
     (case ParseIP host of
        Some p \<Rightarrow> Some p
      | None \<Rightarrow> if host \<noteq> [] \<and> lower_case host = lower_case (dHost d) then dIP d else None)"

definition isInNet :: "dest \<Rightarrow> string \<Rightarrow> string \<Rightarrow> string \<Rightarrow> bool" where
  "isInNet d host pat msk =
     (case (Option.bind (resolveForScript d host) To4, Option.bind (ParseIP pat) To4, Option.bind (ParseIP msk) To4) of
        (Some a, Some p, Some m) \<Rightarrow> and_bytes a m = and_bytes p m
      | _ \<Rightarrow> False)"

section \<open>Proxy variables\<close>

definition NoProxyPatterns :: "egress_spec \<Rightarrow> string list" where
  "NoProxyPatterns sp = map pattern (filter (\<lambda>r. ruleRoute r = RouteCluster) (rules sp))"

definition proxy_keys :: "string list" where
  "proxy_keys = [''HTTP_PROXY'', ''http_proxy'', ''HTTPS_PROXY'', ''https_proxy'', ''ALL_PROXY'', ''all_proxy'', ''NO_PROXY'', ''no_proxy'']"

definition ProxyEnv :: "egress_spec \<Rightarrow> int \<Rightarrow> (string \<times> string) list" where
  "ProxyEnv sp p =
     (let http = ''http://127.0.0.1:'' @ itoa p; socks = ''socks5h://127.0.0.1:'' @ itoa p;
          np = join_with '','' ([''localhost'', ''127.0.0.1'', ''::1''] @ NoProxyPatterns sp)
      in zip proxy_keys [http, http, http, http, socks, socks, np, np])"

definition ProxyEnvSubset :: "(string \<times> string) list \<Rightarrow> (string \<times> string) list" where
  "ProxyEnvSubset env = List.map_filter (\<lambda>k. map_option (\<lambda>v. (k, v)) (map_of env k)) proxy_keys"

text \<open>A colon without a port behind it stands for every port.\<close>

lemma empty_port_is_any: "splitPattern ''api:'' = Some (''api'', []) \<and> compile_port i [] = Inr 0"
proof -
  have "splitPattern ''api:'' = Some (''api'', [])" by code_simp
  then show ?thesis by (simp add: compile_port_def)
qed

section \<open>A network is a prefix of bits\<close>

definition byte_bits :: "8 word \<Rightarrow> bool list" where
  "byte_bits b = map (bit b) [7, 6, 5, 4, 3, 2, 1, 0]"

definition addr_bits :: "ip \<Rightarrow> bool list" where
  "addr_bits p = concat (map byte_bits p)"

lemma all_less_8: "(\<forall>j < 8. P j) \<longleftrightarrow> P (7::nat) \<and> P 6 \<and> P 5 \<and> P 4 \<and> P 3 \<and> P 2 \<and> P 1 \<and> P 0"
proof -
  have "[0..<8] = [0, 1, 2, 3, 4, 5, 6, 7 :: nat]" by code_simp
  moreover have "(\<forall>j < 8. P j) \<longleftrightarrow> list_all P [0..<8]" by (auto simp: list_all_iff)
  ultimately have "(\<forall>j < 8. P j) \<longleftrightarrow> list_all P [0, 1, 2, 3, 4, 5, 6, 7]" by (simp only:)
  then show ?thesis by auto
qed

lemma byte_eq_iff: "a = b \<longleftrightarrow> (\<forall>j < 8. bit (a :: 8 word) j = bit b j)"
proof
  assume "\<forall>j < 8. bit a j = bit b j"
  then show "a = b" by (intro bit_word_eqI) simp
qed simp

lemma byte_bits_eq: "byte_bits a = byte_bits b \<longleftrightarrow> a = b"
  by (simp add: byte_eq_iff byte_bits_def all_less_8)

lemma bit_255: "bit (255 :: 8 word) k \<longleftrightarrow> k < 8"
  using bit_mask_iff [of 8 k, where ?'a = "8 word"] by (simp add: mask_eq_decr_exp)

lemma byte_mask:
  assumes "n < 8"
  shows "a AND NOT (drop_bit n 255) = b AND NOT (drop_bit n (255 :: 8 word)) \<longleftrightarrow> take n (byte_bits a) = take n (byte_bits b)"
proof -
  have m: "bit (NOT (drop_bit n (255 :: 8 word))) j \<longleftrightarrow> 8 \<le> n + j" if "j < 8" for j
    using that bit_255 [of "n + j"] by (simp add: bit_not_iff bit_drop_bit_eq not_less)
  have "a AND NOT (drop_bit n 255) = b AND NOT (drop_bit n (255 :: 8 word)) \<longleftrightarrow> (\<forall>j < 8. 8 \<le> n + j \<longrightarrow> bit a j = bit b j)"
    unfolding byte_eq_iff [of "a AND _"] bit_and_iff using m by blast
  moreover consider "n = 0" | "n = 1" | "n = 2" | "n = 3" | "n = 4" | "n = 5" | "n = 6" | "n = 7" using assms by linarith
  then have "(\<forall>j < 8. 8 \<le> n + j \<longrightarrow> bit a j = bit b j) \<longleftrightarrow> take n (byte_bits a) = take n (byte_bits b)"
    by cases (simp_all add: all_less_8 byte_bits_def)
  ultimately show ?thesis by simp
qed

lemma length_byte_bits: "length (byte_bits b) = 8"
  by (simp add: byte_bits_def)

lemma mask_255: "(a :: 8 word) AND 255 = a"
  unfolding byte_eq_iff bit_and_iff using bit_255 by blast

lemma masked_prefix:
  assumes "length a = length b"
  shows "and_bytes a (CIDRMask n (length a)) = and_bytes b (CIDRMask n (length a)) \<longleftrightarrow> take n (addr_bits a) = take n (addr_bits b)"
  using assms
proof (induction a b arbitrary: n rule: list_induct2)
  case Nil
  show ?case by simp
next
  case (Cons x xs y ys)
  show ?case
  proof (cases "n \<ge> 8")
    case True
    have "take n (addr_bits (z # zs)) = byte_bits z @ take (n - 8) (addr_bits zs)" for z zs
      using True by (simp add: addr_bits_def length_byte_bits)
    then have "take n (addr_bits (x # xs)) = take n (addr_bits (y # ys)) \<longleftrightarrow> x = y \<and> take (n - 8) (addr_bits xs) = take (n - 8) (addr_bits ys)"
      by (simp add: length_byte_bits byte_bits_eq)
    then show ?thesis using True Cons.IH [of "n - 8"] by (simp add: and_bytes_def mask_255)
  next
    case False
    have "take n (addr_bits (z # zs)) = take n (byte_bits z)" for z zs
      using False by (simp add: addr_bits_def length_byte_bits)
    then show ?thesis using False Cons.IH [of 0] byte_mask [of n x y] by (simp add: and_bytes_def)
  qed
qed

lemma and_bytes_idem: "and_bytes (and_bytes a m) m = and_bytes a m"
proof (induction a arbitrary: m)
  case (Cons x a)
  then show ?case by (cases m) (simp_all add: and_bytes_def)
qed (simp add: and_bytes_def)

lemma length_CIDRMask: "length (CIDRMask n l) = l"
  by (induction l arbitrary: n) simp_all

lemma length_and_bytes: "length (and_bytes a b) = min (length a) (length b)"
  by (simp add: and_bytes_def)

lemma To4_length: "To4 p = Some q \<Longrightarrow> length q = 4"
  by (auto simp: To4_def split: if_splits)

lemma Contains_4:
  assumes "length p = 4"
  shows "Contains \<lparr>netIP = and_bytes p (CIDRMask n 4), netMask = CIDRMask n 4\<rparr> ip \<longleftrightarrow>
    (length ip = 4 \<or> To4 ip \<noteq> None) \<and> (\<exists>q. To4 ip = Some q \<and> take n (addr_bits q) = take n (addr_bits p))"
proof -
  let ?n = "\<lparr>netIP = and_bytes p (CIDRMask n 4), netMask = CIDRMask n 4\<rparr>"
  have l: "length (and_bytes p (CIDRMask n 4)) = 4" using assms by (simp add: length_and_bytes length_CIDRMask)
  then have nn: "network_number ?n = (and_bytes p (CIDRMask n 4), CIDRMask n 4)" by (simp add: network_number_def To4_def length_CIDRMask)
  show ?thesis
  proof (cases "To4 ip")
    case None
    then have "length ip \<noteq> 4" by (auto simp: To4_def)
    then show ?thesis using None nn l by (simp add: Contains_def)
  next
    case (Some q)
    have "and_bytes q (CIDRMask n 4) = and_bytes p (CIDRMask n 4) \<longleftrightarrow> take n (addr_bits q) = take n (addr_bits p)"
      using masked_prefix [of q p n] To4_length [OF Some] assms by simp
    then show ?thesis using Some nn l To4_length [OF Some] by (auto simp: Contains_def and_bytes_idem)
  qed
qed

section \<open>Decisions\<close>

lemma compile_from_valid: "compile_from i rs = Inr cs \<Longrightarrow> list_all (\<lambda>c. ValidRoute (route c)) cs"
proof (induction rs arbitrary: i cs)
  case (Cons r rs)
  then show ?case by (auto simp: compileRule_def Let_def split: if_splits sum.splits option.splits)
qed simp

lemma Route_valid:
  assumes "compileRules rs def = Inr p" "ValidRoute def"
  shows "ValidRoute (Route p d)"
proof -
  have "list_all (\<lambda>c. ValidRoute (route c)) (policyRules p)" "policyDefault p = def"
    using assms(1) compile_from_valid by (auto simp: compileRules_def split: sum.splits)
  then show ?thesis using assms(2) by (auto simp: Route_def list_all_iff find_Some_iff split: option.splits)
qed

lemma pac_valid: "ValidRoute def \<Longrightarrow> ValidRoute (pacReturnToRoute t def)"
proof -
  assume d: "ValidRoute def"
  have "ValidRoute RouteClient" "ValidRoute RouteGateway" "ValidRoute RouteCluster" "ValidRoute RouteDeny" by (simp_all add: ValidRoute_def)
  then show ?thesis using d unfolding pacReturnToRoute_def Let_def by (simp split: list.splits)
qed

lemma script_route_valid:
  assumes "ValidRoute def"
  shows "ValidRoute (snd (script_route fn def d)) \<and> (\<not> fst (script_route fn def d) \<longrightarrow> snd (script_route fn def d) = RouteDeny)"
proof -
  have deny: "ValidRoute RouteDeny" by (simp add: ValidRoute_def)
  obtain u h where "script_route fn def d =
      (case fn u h d of ScriptError \<Rightarrow> (False, RouteDeny) | ScriptNull \<Rightarrow> (True, def) | ScriptText t \<Rightarrow> (True, pacReturnToRoute t def))"
    unfolding script_route_def Let_def by blast
  then show ?thesis using assms deny pac_valid [OF assms] by (cases "fn u h d") simp_all
qed

text \<open>C40. Every policy that compiles decides every destination: the decision is one of the four routes, a script that fails or times out gives
  deny, and without a script the route is that of the first rule that matches, or the default.  This holds for every script engine.\<close>

theorem egress_decides:
  assumes "Compile js sp = Inr f"
  shows "ValidRoute (snd (f d)) \<and> (\<not> fst (f d) \<longrightarrow> snd (f d) = RouteDeny)
    \<and> (trim_space (script sp) = [] \<longrightarrow>
        (\<exists>cs. compile_from 0 (rules sp) = Inr cs \<and>
          snd (f d) = (case find (\<lambda>c. matches c d) cs of Some c \<Rightarrow> route c | None \<Rightarrow> if defaultRoute sp = [] then RouteCluster else defaultRoute sp)))"
proof -
  let ?def = "if defaultRoute sp = [] then RouteCluster else defaultRoute sp"
  have v: "ValidRoute ?def" using assms unfolding Compile_def Let_def by (rule contrapos_pp) simp
  show ?thesis
  proof (cases "trim_space (script sp) = []")
    case True
    then obtain p where p: "compileRules (rules sp) ?def = Inr p" "f = (\<lambda>d. (True, Route p d))"
      using assms v unfolding Compile_def Let_def by (simp split: sum.splits)
    have "\<exists>cs. compile_from 0 (rules sp) = Inr cs \<and> p = \<lparr>policyRules = cs, policyDefault = ?def\<rparr>"
      using p(1) unfolding compileRules_def by (cases "compile_from 0 (rules sp)") auto
    then obtain cs where cs: "compile_from 0 (rules sp) = Inr cs" "policyRules p = cs" "policyDefault p = ?def" by force
    have "snd (f d) = (case find (\<lambda>c. matches c d) cs of Some c \<Rightarrow> route c | None \<Rightarrow> ?def)" unfolding p(2) Route_def cs snd_conv by (rule refl)
    then show ?thesis using Route_valid [OF p(1) v, of d] p(2) cs(1) by simp
  next
    case False
    then obtain fn where "f = script_route fn ?def" using assms v unfolding Compile_def Let_def by (cases "js (script sp)") auto
    then show ?thesis using False script_route_valid [OF v] by simp
  qed
qed

definition ex_egress :: egress_spec where
  "ex_egress = \<lparr>rules = [\<lparr>pattern = ''*'', ruleRoute = ''deny''\<rparr>],
     script = [], defaultRoute = []\<rparr>"

lemma ex_egress_compiles: "\<exists>f. Compile (\<lambda>_. None) ex_egress = Inr f"
proof -
  have "trim_space ''*'' = ''*''" "splitPattern ''*'' = Some (''*'', [])" "lower_case ''*'' = ''*''" by code_simp+
  moreover have "ParseIP ''*'' = None" by code_simp
  moreover have "path_match ''*'' [] = Some True" by code_simp
  moreover have "ValidRoute ''deny''" by code_simp
  ultimately have "\<exists>cs. compile_from 0 (rules ex_egress) = Inr cs"
    by (simp add: ex_egress_def compileRule_def compile_port_def compile_host_def)
  moreover have "trim_space (script ex_egress) = []" "defaultRoute ex_egress = []" by code_simp+
  moreover have "ValidRoute RouteCluster" by code_simp
  ultimately show ?thesis by (auto simp: Compile_def compileRules_def)
qed

theorem egress_decides_witness:
  "\<exists>f. Compile (\<lambda>_. None) ex_egress = Inr f \<and> ValidRoute (snd (f \<lparr>dHost = ''db.internal'', dIP = None, dPort = 80\<rparr>))"
  using ex_egress_compiles egress_decides by blast

lemma Contains_prefix:
  assumes "ParseCIDR h = Some net" "index_byte CHR ''/'' h = Some i" "parse_ip4 (take i h) = Some a"
  shows "Contains net ip \<longleftrightarrow>
    (\<exists>q. To4 ip = Some q \<and>
       take (nat (digits_val (drop (Suc i) h))) (addr_bits q) = take (nat (digits_val (drop (Suc i) h))) (addr_bits (ip4_bytes a)))"
proof -
  let ?n = "nat (digits_val (drop (Suc i) h))"
  have "net = \<lparr>netIP = and_bytes (ip4_bytes a) (CIDRMask ?n 4), netMask = CIDRMask ?n 4\<rparr>"
    using assms by (simp add: ParseCIDR_def Let_def length_ip4_bytes split: if_splits)
  then show ?thesis using Contains_4 [OF length_ip4_bytes] by auto
qed

text \<open>C39. A rule for an IPv4 network matches a destination exactly when the port agrees and the destination has an IPv4 address, given or as its
  host, in its 4-byte or its 16-byte form, whose leading bits, as many as the length of the prefix says, are those of the network.\<close>

theorem cidr_rule_exact:
  assumes "compile_host k h = Inr hp" "index_byte CHR ''/'' h = Some i" "parse_ip4 (take i h) = Some a"
  shows "matches \<lparr>hostPart = hp, port = pt, route = rt\<rparr> d \<longleftrightarrow>
    (pt = 0 \<or> pt = dPort d) \<and>
    (\<exists>ip \<in> set (dest_ips d). \<exists>q. To4 ip = Some q \<and>
       take (nat (digits_val (drop (Suc i) h))) (addr_bits q) = take (nat (digits_val (drop (Suc i) h))) (addr_bits (ip4_bytes a)))"
proof -
  have "CHR ''/'' \<in> set h" using assms(2) index_byte_SomeD nth_mem by metis
  then obtain net where "hp = Cidr net" "ParseCIDR h = Some net" using assms(1) by (auto simp: compile_host_def split: option.splits)
  then show ?thesis using Contains_prefix [OF _ assms(2,3)] by (auto simp: matches_def list_ex_iff)
qed

theorem cidr_rule_exact_witness:
  "\<exists>hp. compile_host 0 ''10.32.0.0/11'' = Inr hp
     \<and> matches \<lparr>hostPart = hp, port = 0, route = ''deny''\<rparr> \<lparr>dHost = [], dIP = Some (v4_in_v6 @ [10, 63, 1, 2]), dPort = 80\<rparr>
     \<and> \<not> matches \<lparr>hostPart = hp, port = 0, route = ''deny''\<rparr> \<lparr>dHost = [], dIP = Some [10, 64, 0, 1], dPort = 80\<rparr>"
proof -
  have i: "index_byte CHR ''/'' ''10.32.0.0/11'' = Some 9" by code_simp
  have "map parse_octet (split_byte CHR ''.'' (take 9 ''10.32.0.0/11'')) = [Some 10, Some 32, Some 0, Some 0]" by code_simp
  then have a: "parse_ip4 (take 9 ''10.32.0.0/11'') = Some 169869312" unfolding parse_ip4_def by simp
  have d: "nat (digits_val (drop (Suc 9) ''10.32.0.0/11'')) = 11" by code_simp
  have "drop (Suc 9) ''10.32.0.0/11'' = ''11''" "list_all is_digit ''11''" "digits_val ''11'' = 11" by code_simp+
  then have "ParseCIDR ''10.32.0.0/11'' \<noteq> None" unfolding ParseCIDR_def i option.case Let_def a by (simp add: length_ip4_bytes)
  then obtain hp where n: "compile_host 0 ''10.32.0.0/11'' = Inr hp" by (auto simp: compile_host_def)
  have bs: "ip4_bytes 169869312 = [10, 32, 0, 0]" by (simp add: ip4_bytes_def)
  have t: "To4 (v4_in_v6 @ [10, 63, 1, 2]) = Some [10, 63, 1, 2]" "To4 [10, 64, 0, 1] = Some [10, 64, 0, 1]" by code_simp+
  have b: "take 11 (addr_bits [10, 63, 1, 2]) = take 11 (addr_bits [10, 32, 0, 0])"
    "take 11 (addr_bits [10, 64, 0, 1]) \<noteq> take 11 (addr_bits [10, 32, 0, 0])" by code_simp+
  have "ParseIP [] = None" by code_simp
  then have ips: "dest_ips \<lparr>dHost = [], dIP = Some p, dPort = 80\<rparr> = [p]" for p by (simp add: dest_ips_def)
  show ?thesis using n cidr_rule_exact [OF n i a, unfolded d bs] t b by (intro exI [of _ hp]) (simp add: ips)
qed

end
