(* ===== verification/Spec2Isabelle.thy ===== *)
theory Spec2Isabelle
  imports Registry BlockWire BlockCache Authz Interpolate HealthEngine ComposeProject ComposeLoad UserNet ImageRef HubRedis Socks5 Ingress HostPolicy Egress
begin

text \<open>
  A verification library for cornus, a server that keeps container images, runs workloads and mounts the
  caller's files into them.

  \<^bold>\<open>The program and the theories.\<close>

  \<^item> \<open>Prelude\<close> and \<open>GoStd\<close> hold what the code uses of Go's standard library: byte strings with
    \<open>strings.HasPrefix\<close>, \<open>TrimPrefix\<close>, \<open>Split\<close>, \<open>TrimSpace\<close>, \<open>Index\<close>, \<open>LastIndex\<close>; \<open>path.Join\<close> and
    \<open>path.Base\<close>; hexadecimal; decimal integers; the binary search of \<open>sort.Search\<close>. \<open>Sha256\<close> is the hash
    function of FIPS 180-4 over byte lists.
  \<^item> \<open>ObjectStore\<close> models \<open>pkg/storage/storage.go\<close> and \<open>pkg/storage/filesystem.go\<close>: the \<open>ObjectStore\<close> interface is
    the record \<open>object_store\<close>, its contract the locale \<open>object_store_spec\<close>; the filesystem backend works on
    a \<open>disk\<close> of files and directories with an arbitrary failure pattern, and the interpretation \<open>fs\<close>
    shows that it meets the contract whatever fails.
  \<^item> \<open>Cas\<close> models \<open>pkg/storage/cas.go\<close>, \<open>staged_upload.go\<close>, \<open>referrers.go\<close>, \<open>usage.go\<close> and the stale upload sweep
    of \<open>gc.go\<close>: the state of a \<open>Backend\<close> is the record \<open>backend\<close> (object store, staging directory, catalog
    cache), each method a function that returns its result and the new state. \<open>CasFacts\<close> states what the
    operations promise in the locale \<open>cas_store\<close> over any store that meets the contract; \<open>FsCas\<close> interprets it
    for the filesystem and holds the storage properties. \<open>Catalog\<close> shows that the recursive repository walk
    computes the set of repositories with a manifest.
  \<^item> \<open>Gc\<close> models the mark and sweep collection of \<open>gc.go\<close>, with the marking loop as a partial function
    whose termination is part of its correctness lemma, and the storage as a state machine
    (\<open>backend_step\<close>) whose steps are the storage operations and changes of the failure pattern.
  \<^item> \<open>Http\<close> and \<open>Registry\<close> model \<open>pkg/registry/registry.go\<close> and \<open>mirror.go\<close>: path and range parsing, pagination,
    the \<open>Link\<close> header, and every handler from \<open>ServeHTTP\<close> down, over the storage backend.
  \<^item> \<open>BlockWire\<close> models \<open>pkg/wire/blockproto.go\<close> and \<open>blockmsg.go\<close>: payload cursors, frames, message codecs,
    options and the HELLO negotiation, over 8-bit words. The law of a codec pair is the locale \<open>wire_codec\<close>,
    interpreted for every pair of the protocol.
  \<^item> \<open>BlockCache\<close> models \<open>pkg/blockcache/blockcache.go\<close> and \<open>memstore.go\<close>: file identities, presence bitmaps, the
    in-memory store with its demand-fill and write paths, and the read-through cache over the locale
    \<open>chunk_store\<close>, interpreted for the in-memory store.
  \<^item> \<open>Authz\<close> models \<open>pkg/authtoken/authtoken.go\<close> (scopes and the access matrix), \<open>pkg/authscope/authscope.go\<close>
    (the scope map over token claims), \<open>pkg/server/apipolicy.go\<close> and \<open>pkg/hub/policy.go\<close>.
  \<^item> \<open>Interpolate\<close> models \<open>pkg/compose/interpolate.go\<close>: variable expansion with its operators, the recursive
    interpolation of a decoded document, and env files.
  \<^item> \<open>ComposeMerge\<close> models \<open>pkg/compose/merge.go\<close>: the documents of \<open>types.go\<close> as records, the metadata of written
    keys and merge tags, and one function per merge rule. \<open>ComposeProject\<close> models the dependency order and
    the profile views of \<open>project.go\<close> (\<open>Order\<close>, \<open>View\<close>, \<open>selected\<close>). \<open>ComposeLoad\<close> models \<open>extends.go\<close>, \<open>include.go\<close> and
    the loading of a list of files in \<open>project.go\<close> on top of the merge. \<open>UserNet\<close> models the static addresses
    of user networks in \<open>usernet.go\<close> and the names their members resolve.
  \<^item> \<open>ImageRef\<close> models \<open>pkg/imageref/imageref.go\<close>: references without a registry, and their qualification.
  \<^item> \<open>HealthEngine\<close> models \<open>pkg/deploy/healthengine/healthengine.go\<close>: resolving a health check into a plan, the engine's
    maps, and its probe goroutines as a transition system whose events are the calls of the engine, the
    clock, and the probe results, in any order.
  \<^item> \<open>IpAddr\<close> holds the addresses of Go's \<open>net\<close> package: parsing and printing of both families and host and port pairs.
  \<^item> \<open>Hub\<close> models \<open>pkg/hub/registry.go\<close>, the directory of the services that connected spokes provide; what its clients rely on is the
    locale \<open>service_store\<close>. \<open>HubRedis\<close> models the registry shared by several replicas, \<open>pkg/hub/redisstore.go\<close>, with its queue of writes that
    have not landed, and the replicas, their failing writes and their heartbeats as a transition system (\<open>hub_reach\<close>).
  \<^item> \<open>Socks5\<close> models \<open>pkg/socks5/socks5.go\<close> and \<open>recovery.go\<close>: the claims on short names with their precedence, published listeners, the
    recovery window, name resolution, the handshake and the CONNECT request, and where a connection is sent.
  \<^item> \<open>Ingress\<close> models \<open>pkg/ingressroute/ingressroute.go\<close> (hosts, paths, resolution of a specification), the routing table of
    \<open>pkg/ingressmux/ingressmux.go\<close>, and \<open>pkg/server/ingress.go\<close>: the routes of deployments, their files and their recovery after a restart,
    as a transition system (\<open>front_reach\<close>).
  \<^item> \<open>HostPolicy\<close> models \<open>pkg/deploy/hostpolicy/policy.go\<close>, the gate on privileged containers and host bind sources, over \<open>Paths\<close>, directories
    of slash-separated paths. \<open>Egress\<close> models \<open>pkg/egresspolicy/policy.go\<close> and what \<open>script.go\<close> makes of a script's result, over \<open>Glob\<close>,
    the patterns of \<open>path.Match\<close>, and networks of addresses.

  \<^bold>\<open>What the lemmas show.\<close> The storage properties hold under every failure pattern: content addressing
  and tag integrity survive partial writes, reads return verified bytes, commits are exact, keys cannot
  leave their directories, collection keeps what is reachable, the catalog is exact. Without failures a
  push can be pulled back. Every HTTP request refines to storage steps, so it inherits these invariants;
  the read paths, the read-only mode, the upload ceiling, ranges and pagination are characterised on every
  branch. The block protocol round trips, its decoder stays within its buffer, its handshake agrees; reads through
  the block cache return the origin's bytes and demand fill keeps the cache coherent. Grants,
  containment, claim lookup, scope maps and policies are exact and fail closed. Expansion
  follows the operator table, keeps the shape of a document, and escaped values round trip. Merging is
  associative where nothing is tagged and applying an override twice is applying it once; resolving \<open>extends\<close>
  gives every service what its chain of bases means, and ends; the project order is a topological order or
  a real cycle, and a profile view is the dependency closure of what it selects. Static addresses of a
  network are distinct members of its subnet and are found whenever one is free; a service resolves exactly
  the aliases of its peers on such networks. A qualified image reference splits back into its parts. The health engine reports
  what the rules of the Docker health check give for the probes it ran, its maps agree in every reachable
  state, and a cancelled loop ends. The hub's registry is the directory of the connected spokes; the shared one converges
  after any lost writes, and with none outstanding every replica finds exactly the live providers. Claims on names keep their precedence in whatever
  order they are replayed, withdrawing one restores what was there, and a service name never leaves through a direct dial. The ingress front
  door answers with the most specific rule of the workloads deployed, stays inside a pinned domain, and recovers its routes after a restart.
  The host gate admits exactly the bind sources below an allowed prefix, as written and with links resolved. An egress policy always decides, a
  rule for a network matches exactly the addresses with its leading bits, and a failing script denies.

  \<^bold>\<open>Bounds and fuel.\<close> The repository walk takes a depth bound larger than the longest directory prefix
  the store lists, and the walk never reaches it. Re-dispatch of a cached blob takes its depth as fuel;
  without a caching source no fuel is used. The marking loop has no fuel: it is shown to end. Pattern
  parsing takes the length of the pattern, which each step shortens. The depth-first search of \<open>Order\<close> takes one
  more than the number of services, since every nested call has one more service on its stack. Resolution of
  \<open>extends\<close> takes fuel for its stack of distinct file and service pairs, and its property shows that a
  bound on those pairs is enough. Include expansion takes a bound on nesting; a chain of includes that
  returns to a file on it is an error of the code before that. The search for an existing ancestor of a path takes the length of the
  path and two more, and is shown to end within it.

  \<^bold>\<open>Parameters.\<close> JSON decoding of manifests, the upstream of a mirror or of a re-export, float parsing of a
  string claim, the scaling of a duration's fraction, the parser of one Compose file, a compiled
  regular expression, the resolution of symbolic links, the script engine of an egress policy, the outcome of each write to the shared registry or to a route file: what the code gets from them is an argument of the definitions.

  \<^bold>\<open>Not modelled.\<close> Bucket drivers, container runtimes and Kubernetes (third-party APIs); the request
  multiplexer, the network relays and the reverse proxies (goroutines, sockets); token signing (third-party cryptography); the
  on-disk block cache; in Compose the YAML decoder with its metadata harvest, the translation of a service
  into a deployment. The files of persisted routes hold what decoding them gives, not their JSON text.
  Concurrency of storage operations, and of the hub, the conduit and the front door, is covered as interleaving of whole operations; strings are
  byte strings, and case mapping and glob matching are over bytes.
\<close>

end
